(* ===== verification/Prelude.thy ===== *)
theory Prelude
  imports "HOL-Library.Word" "HOL-Library.Multiset"
begin

text \<open>
  Shared vocabulary of the development: faults and the result type of code that can
  crash, C strings and fixed-size buffers, decimal printing, and reachability in a
  transition system with its invariant rule. Nothing here models a source file; the
  component theories do.
\<close>

named_theorems layout \<comment> \<open>lengths and contents of fixed-size buffers\<close>

subsection \<open>Faults and results\<close>

text \<open>
  A C operation that dereferences a null pointer, touches freed memory, frees twice,
  leaves an array or spins on a lock its own thread holds has no value: the model
  returns the fault instead.
\<close>

datatype fault =
    Null_deref
  | Use_after_free
  | Double_free
  | Out_of_bounds
  | Self_deadlock

type_synonym 'a result = "fault + 'a"

definition bindr :: "'e + 'a \<Rightarrow> ('a \<Rightarrow> 'e + 'b) \<Rightarrow> 'e + 'b" where
  "bindr m f = (case m of Inl e \<Rightarrow> Inl e | Inr a \<Rightarrow> f a)"

lemma bindr_simps [simp]:
  "bindr (Inl e) f = Inl e"
  "bindr (Inr a) f = f a"
  by (simp_all add: bindr_def)

lemma bindr_eq_Inr: "bindr m f = Inr b \<longleftrightarrow> (\<exists>a. m = Inr a \<and> f a = Inr b)"
  by (cases m) auto

subsection \<open>Reachable states\<close>

inductive reachable :: "('s \<Rightarrow> bool) \<Rightarrow> ('s \<Rightarrow> 's \<Rightarrow> bool) \<Rightarrow> 's \<Rightarrow> bool"
  for start :: "'s \<Rightarrow> bool" and step :: "'s \<Rightarrow> 's \<Rightarrow> bool" where
  reach_start: "start s \<Longrightarrow> reachable start step s"
| reach_step: "reachable start step s \<Longrightarrow> step s t \<Longrightarrow> reachable start step t"

lemma reachable_invariant:
  assumes "reachable start step s"
    and "\<And>s. start s \<Longrightarrow> P s"
    and "\<And>s t. P s \<Longrightarrow> step s t \<Longrightarrow> P t"
  shows "P s"
  using assms(1)
proof (induction rule: reachable.induct)
  case (reach_start s)
  then show ?case by (rule assms(2))
next
  case (reach_step s t)
  then show ?case by (blast intro: assms(3))
qed

text \<open>The threads inside, by their program counters.\<close>

lemma finite_active_upd [simp]: "finite {i. (f(j := x)) i \<noteq> c} \<longleftrightarrow> finite {i. f i \<noteq> c}"
proof -
  have "{i. (f(j := x)) i \<noteq> c} \<subseteq> insert j {i. f i \<noteq> c}" "{i. f i \<noteq> c} \<subseteq> insert j {i. (f(j := x)) i \<noteq> c}"
    by auto
  then show ?thesis by (meson finite_insert finite_subset)
qed

subsection \<open>Characters, C strings and buffers\<close>

abbreviation NUL :: char where "NUL \<equiv> CHR 0x00"
abbreviation NL :: char where "NL \<equiv> CHR 0x0A"

text \<open>The C string stored at the start of a buffer: the bytes before the first NUL.\<close>

definition cstring :: "char list \<Rightarrow> string" where
  "cstring m = takeWhile (\<lambda>c. c \<noteq> NUL) m"

lemma cstring_simps [simp]:
  "cstring [] = []"
  "cstring (c # m) = (if c = NUL then [] else c # cstring m)"
  by (simp_all add: cstring_def)

lemma cstring_append_NUL: "NUL \<notin> set s \<Longrightarrow> cstring (s @ NUL # m) = s"
  by (induction s) auto

lemma cstring_append_cut: "cstring (w @ NUL # m) = cstring w"
  by (induction w) auto

lemma NUL_notin_cstring: "NUL \<notin> set (cstring m)"
  by (auto simp: cstring_def dest: set_takeWhileD)

lemma length_cstring_le: "length (cstring m) \<le> length m"
  by (simp add: cstring_def length_takeWhile_le)

lemma length_cstring_less: "NUL \<in> set m \<Longrightarrow> length (cstring m) < length m"
  by (induction m) auto

lemma cstring_no_NUL: "NUL \<notin> set m \<Longrightarrow> cstring m = m"
  by (induction m) auto

lemma cstring_take_nth:
  "m ! n = NUL \<Longrightarrow> n < length m \<Longrightarrow> length (cstring m) \<le> n"
  by (induction m arbitrary: n) (auto simp: nth_Cons split: nat.splits)

text \<open>
  \<open>overwrite dst src\<close>: the buffer \<open>dst\<close> after the bytes \<open>src\<close> were stored from its
  start on.
\<close>

definition overwrite :: "'a list \<Rightarrow> 'a list \<Rightarrow> 'a list" where
  "overwrite dst src = src @ drop (length src) dst"

lemma length_overwrite [layout]: "length src \<le> length dst \<Longrightarrow> length (overwrite dst src) = length dst"
  by (simp add: overwrite_def)

lemma nth_overwrite_ge [layout]: "length src \<le> i \<Longrightarrow> i < length dst \<Longrightarrow> overwrite dst src ! i = dst ! i"
  by (simp add: overwrite_def nth_append)

text \<open>strncpy(dst, src, n) for a source string without NUL: pads with NUL up to \<open>n\<close> bytes.\<close>

definition c_strncpy :: "char list \<Rightarrow> string \<Rightarrow> nat \<Rightarrow> char list" where
  "c_strncpy dst src n = overwrite dst (take n src @ replicate (n - length src) NUL)"

lemma length_c_strncpy [layout]: "n \<le> length dst \<Longrightarrow> length (c_strncpy dst src n) = length dst"
  by (cases "n \<le> length src") (simp_all add: c_strncpy_def overwrite_def)

lemma cstring_padded: "NUL \<notin> set s \<Longrightarrow> cstring (s @ replicate k NUL @ NUL # m) = s"
  by (cases k) (simp_all add: cstring_append_NUL)

lemma list_update_middle: "length xs = n \<Longrightarrow> (xs @ x # ys)[n := c] = xs @ c # ys"
  by (simp add: list_update_append)

lemma cstring_strncpy_terminated:
  assumes "NUL \<notin> set src" and "n < length dst"
  shows "cstring ((c_strncpy dst src n)[n := NUL]) = take n src"
proof -
  let ?p = "take n src @ replicate (n - length src) NUL"
  obtain x y where d: "drop n dst = x # y"
    using assms(2) by (cases "drop n dst") auto
  have len: "length ?p = n" by auto
  have "c_strncpy dst src n = ?p @ x # y"
    unfolding c_strncpy_def overwrite_def len d ..
  then have "(c_strncpy dst src n)[n := NUL] = ?p @ NUL # y"
    using list_update_middle [OF len] by simp
  then show ?thesis
    using assms(1) cstring_padded [of "take n src"] by (auto dest: in_set_takeD)
qed

subsection \<open>Decimal printing: the conversion \<open>%d\<close> of the printf family\<close>

definition digit :: "nat \<Rightarrow> char" where
  "digit d = char_of (48 + d)"

fun dec_nat :: "nat \<Rightarrow> string" where
  "dec_nat n = (if n < 10 then [digit n] else dec_nat (n div 10) @ [digit (n mod 10)])"

declare dec_nat.simps [simp del]

definition dec_int :: "int \<Rightarrow> string" where
  "dec_int i = (if i < 0 then CHR ''-'' # dec_nat (nat (- i)) else dec_nat (nat i))"

lemma digit_values [simp]:
  "digit 0 = CHR ''0''" "digit 1 = CHR ''1''" "digit (Suc 0) = CHR ''1''" "digit 2 = CHR ''2''" "digit 3 = CHR ''3''"
  "digit 4 = CHR ''4''" "digit 5 = CHR ''5''" "digit 6 = CHR ''6''" "digit 7 = CHR ''7''"
  "digit 8 = CHR ''8''" "digit 9 = CHR ''9''"
  by code_simp+

lemma dec_nat_digit [simp]: "n < 10 \<Longrightarrow> dec_nat n = [digit n]"
  by (simp add: dec_nat.simps)

subsection \<open>C integers\<close>

text \<open>The value a signed integer of \<open>n\<close> bytes keeps of an exact result.\<close>

definition wrap_long :: "nat \<Rightarrow> int \<Rightarrow> int" where
  "wrap_long n x = signed_take_bit (8 * n - 1) x"

lemma wrap_long_small [simp]:
  "wrap_long 8 0 = 0" "wrap_long 8 1 = 1" "wrap_long 8 (- 1) = - 1"
  by (simp_all add: wrap_long_def signed_take_bit_int_eq_self)

lemma wrap_long_fits: "- (2 ^ (8 * n - 1)) \<le> x \<Longrightarrow> x < 2 ^ (8 * n - 1) \<Longrightarrow> wrap_long n x = x"
  by (simp add: wrap_long_def signed_take_bit_int_eq_self)

lemma wrap_long_cong: "0 < n \<Longrightarrow> wrap_long n x = wrap_long n y \<longleftrightarrow> x mod 2 ^ (8 * n) = y mod 2 ^ (8 * n)"
  by (simp add: wrap_long_def signed_take_bit_eq_iff_take_bit_eq take_bit_eq_mod)

lemma wrap_long_mod: "0 < n \<Longrightarrow> wrap_long n x mod 2 ^ (8 * n) = x mod 2 ^ (8 * n)"
proof -
  assume "0 < n"
  moreover have "wrap_long n (wrap_long n x) = wrap_long n x" by (simp add: wrap_long_def)
  ultimately show ?thesis by (simp add: wrap_long_cong [symmetric])
qed

subsection \<open>Ledgers: what a trace of calls acquires and releases\<close>

text \<open>
  The ledger of a trace: what is held after it, or None when some call released a
  resource that was not held (a double free, or a free of something never acquired).
\<close>

fun ledger_of ::
  "('c \<Rightarrow> 'r multiset) \<Rightarrow> ('c \<Rightarrow> 'r option) \<Rightarrow> 'r multiset \<Rightarrow> 'c list \<Rightarrow> 'r multiset option" where
  "ledger_of acq rel h [] = Some h"
| "ledger_of acq rel h (c # cs) =
     (case rel c of
        None \<Rightarrow> ledger_of acq rel (h + acq c) cs
      | Some r \<Rightarrow> if r \<in># h then ledger_of acq rel (h - {#r#}) cs else None)"

lemma ledger_append:
  "ledger_of acq rel h (xs @ ys) =
    (case ledger_of acq rel h xs of None \<Rightarrow> None | Some h' \<Rightarrow> ledger_of acq rel h' ys)"
  by (induction xs arbitrary: h) (auto split: option.splits)

end
