(* ===== verification/Kernel.thy ===== *)
theory Kernel
  imports Prelude
begin

text \<open>
  The kernel interface the modules are written against. None of it is under src/: what a
  call returns is a parameter (the record \<open>kernel\<close>), what it does to the module's
  resources is read off the sequence of calls a function makes (its trace) by
  \<open>acquires\<close> and \<open>releases\<close>, which state the documented effect of each call. A module
  function returns its trace beside its result, so every early return of the source is
  visible as a shorter trace.
\<close>

named_theorems errno \<comment> \<open>the error numbers used by the sources\<close>

definition EFAULT :: int where [errno]: "EFAULT = 14"
definition ENOMEM :: int where [errno]: "ENOMEM = 12"
definition EINVAL :: int where [errno]: "EINVAL = 22"
definition ERESTARTSYS :: int where [errno]: "ERESTARTSYS = 512"

subsection \<open>What the kernel calls return\<close>

record kernel =
  gpio_is_valid :: "int \<Rightarrow> bool"
  ret_gpio_request :: "int \<Rightarrow> int"
  ret_gpio_input :: "int \<Rightarrow> int"
  ret_gpio_output :: "int \<Rightarrow> int"
  ret_gpio_to_irq :: "int \<Rightarrow> int"
  ret_request_irq :: "int \<Rightarrow> int"
  ret_alloc_chrdev :: int
  ret_cdev_alloc :: bool \<comment> \<open>the pointer is not null\<close>
  ret_cdev_add :: int
  ret_class_create :: int \<comment> \<open>0, or the error in the pointer\<close>
  ret_device_create :: int \<comment> \<open>0, or the error in the pointer\<close>
  ret_platform_register :: int
  ret_create_file :: int
  ret_proc_mkdir :: bool \<comment> \<open>the pointer is not null\<close>
  ret_proc_create :: bool

text \<open>The documented ranges: these calls return zero or a negative error number.\<close>

definition kernel_ok :: "kernel \<Rightarrow> bool" where
  "kernel_ok k \<longleftrightarrow> ret_alloc_chrdev k \<le> 0 \<and> ret_cdev_add k \<le> 0 \<and>
     ret_class_create k \<le> 0 \<and> ret_device_create k \<le> 0"

text \<open>A kernel in which every call succeeds, for closed examples.\<close>

definition all_ok :: kernel where
  "all_ok = \<lparr>gpio_is_valid = (\<lambda>_. True), ret_gpio_request = (\<lambda>_. 0), ret_gpio_input = (\<lambda>_. 0),
     ret_gpio_output = (\<lambda>_. 0), ret_gpio_to_irq = (\<lambda>g. g + 100), ret_request_irq = (\<lambda>_. 0),
     ret_alloc_chrdev = 0, ret_cdev_alloc = True, ret_cdev_add = 0, ret_class_create = 0,
     ret_device_create = 0, ret_platform_register = 0, ret_create_file = 0,
     ret_proc_mkdir = True, ret_proc_create = True\<rparr>"

lemma kernel_ok_all_ok [simp]: "kernel_ok all_ok"
  by (simp add: kernel_ok_def all_ok_def)

subsection \<open>Calls, resources and the ledger\<close>

datatype kres =
    Gpio int
  | Irq int
  | Chrdev
  | Cdev
  | Dev_class
  | Device
  | Platform_device
  | Device_file
  | Proc_dir
  | Held_lock string

text \<open>The calls, each with the arguments that matter and the value it returned.\<close>

datatype kcall =
    Gpio_request int int
  | Gpio_request_out_low int int
  | Gpio_request_in int int
  | Gpio_direction_input int int
  | Gpio_direction_output int int int
  | Gpio_set_value int int
  | Gpio_free int
  | Gpio_to_irq int int
  | Request_irq int int
  | Free_irq int
  | Enable_irq int
  | Disable_irq int
  | Timer_setup
  | Add_timer nat
  | Mod_timer nat
  | Del_timer
  | Del_timer_sync
  | Alloc_chrdev_region int
  | Unregister_chrdev_region
  | Cdev_alloc bool
  | Cdev_init
  | Cdev_add int
  | Cdev_del
  | Kfree_cdev
  | Class_create int
  | Class_destroy
  | Device_create int
  | Device_destroy
  | Platform_device_register int
  | Platform_device_unregister
  | Device_create_file int
  | Device_remove_file
  | Proc_mkdir bool
  | Proc_create
  | Proc_remove
  | Take_lock string
  | Drop_lock string

fun acquires :: "kcall \<Rightarrow> kres multiset" where
  "acquires (Gpio_request g r) = (if r = 0 then {#Gpio g#} else {#})"
| "acquires (Gpio_request_out_low g r) = (if r = 0 then {#Gpio g#} else {#})"
| "acquires (Gpio_request_in g r) = (if r = 0 then {#Gpio g#} else {#})"
| "acquires (Request_irq i r) = (if r = 0 then {#Irq i#} else {#})"
| "acquires (Alloc_chrdev_region r) = (if r = 0 then {#Chrdev#} else {#})"
| "acquires (Cdev_add r) = (if r = 0 then {#Cdev#} else {#})"
| "acquires (Class_create r) = (if r = 0 then {#Dev_class#} else {#})"
| "acquires (Device_create r) = (if r = 0 then {#Device#} else {#})"
| "acquires (Platform_device_register r) = (if r = 0 then {#Platform_device#} else {#})"
| "acquires (Device_create_file r) = (if r = 0 then {#Device_file#} else {#})"
| "acquires (Proc_mkdir ok) = (if ok then {#Proc_dir#} else {#})"
| "acquires (Take_lock l) = {#Held_lock l#}"
| "acquires _ = {#}"

fun releases :: "kcall \<Rightarrow> kres option" where
  "releases (Gpio_free g) = Some (Gpio g)"
| "releases (Free_irq i) = Some (Irq i)"
| "releases Unregister_chrdev_region = Some Chrdev"
| "releases Cdev_del = Some Cdev"
| "releases Class_destroy = Some Dev_class"
| "releases Device_destroy = Some Device"
| "releases Platform_device_unregister = Some Platform_device"
| "releases Device_remove_file = Some Device_file"
| "releases Proc_remove = Some Proc_dir"
| "releases (Drop_lock l) = Some (Held_lock l)"
| "releases _ = None"

text \<open>The ledger of a trace of kernel calls.\<close>

abbreviation ledger :: "kres multiset \<Rightarrow> kcall list \<Rightarrow> kres multiset option" where
  "ledger \<equiv> ledger_of acquires releases"

text \<open>The level a GPIO output pin is driven to by a trace.\<close>

fun pin_after :: "int \<Rightarrow> int \<Rightarrow> kcall \<Rightarrow> int" where
  "pin_after g v (Gpio_set_value g' w) = (if g' = g then w else v)"
| "pin_after g v (Gpio_direction_output g' w r) = (if g' = g \<and> r = 0 then w else v)"
| "pin_after g v (Gpio_request_out_low g' r) = (if g' = g \<and> r = 0 then 0 else v)"
| "pin_after g v _ = v"

definition pin_level :: "int \<Rightarrow> int \<Rightarrow> kcall list \<Rightarrow> int" where
  "pin_level g v cs = foldl (pin_after g) v cs"

lemma pin_level_simps [simp]:
  "pin_level g v [] = v"
  "pin_level g v (c # cs) = pin_level g (pin_after g v c) cs"
  by (simp_all add: pin_level_def)

lemma pin_level_append: "pin_level g v (xs @ ys) = pin_level g (pin_level g v xs) ys"
  by (simp add: pin_level_def)

text \<open>The values written to a pin with gpio_set_value, in order.\<close>

fun pin_writes :: "int \<Rightarrow> kcall list \<Rightarrow> int list" where
  "pin_writes g [] = []"
| "pin_writes g (Gpio_set_value g' w # cs) = (if g' = g then w # pin_writes g cs else pin_writes g cs)"
| "pin_writes g (_ # cs) = pin_writes g cs"

text \<open>
  Loading as the lab modules do it: a device region, a character device, and no result
  looked at; cdev_init needs the pointer of cdev_alloc.
\<close>

definition unchecked_cdev_init :: "kernel \<Rightarrow> (int \<times> kcall list) result" where
  "unchecked_cdev_init k =
     (let t1 = [Alloc_chrdev_region (ret_alloc_chrdev k), Cdev_alloc (ret_cdev_alloc k)] in
      if \<not> ret_cdev_alloc k then Inl Null_deref
      else Inr (0, t1 @ [Cdev_init, Cdev_add (ret_cdev_add k)]))"

definition cdev_exit :: "kcall list" where
  "cdev_exit = [Cdev_del, Unregister_chrdev_region]"

subsection \<open>User memory\<close>

text \<open>
  \<open>copy_from_user dst ubuf n\<close>: \<open>ubuf\<close> is the readable memory at the user address.
  The destination receives the readable bytes, the rest of the \<open>n\<close> bytes is padded with
  zero (both documented), and the number of bytes not copied is returned.
\<close>

definition copy_from_user :: "char list \<Rightarrow> char list \<Rightarrow> nat \<Rightarrow> char list \<times> nat" where
  "copy_from_user dst ubuf n =
     (overwrite dst (take n ubuf @ replicate (n - length ubuf) NUL), n - length ubuf)"

lemma copy_from_user_length [layout]:
  "n \<le> length dst \<Longrightarrow> length (fst (copy_from_user dst ubuf n)) = length dst"
  by (cases "n \<le> length ubuf") (simp_all add: copy_from_user_def overwrite_def)

lemma copy_from_user_nth_ge [layout]:
  assumes "n \<le> i" and "i < length dst"
  shows "fst (copy_from_user dst ubuf n) ! i = dst ! i"
proof -
  have "length (take n ubuf @ replicate (n - length ubuf) NUL) \<le> i"
    using assms by (cases "n \<le> length ubuf") auto
  then show ?thesis
    using assms by (simp add: copy_from_user_def nth_overwrite_ge)
qed

text \<open>\<open>copy_to_user src room n\<close>: \<open>room\<close> writable bytes; what arrives, and the bytes left.\<close>

definition copy_to_user :: "char list \<Rightarrow> nat \<Rightarrow> nat \<Rightarrow> char list \<times> nat" where
  "copy_to_user src room n = (take (min n room) src, n - room)"

subsection \<open>The contract of a loadable module\<close>

text \<open>
  A session is one attempt to load the module: a kernel, and the handler calls made
  before it is unloaded (not used when loading fails).
\<close>

fun run_handlers :: "('h \<Rightarrow> 's \<Rightarrow> 's \<times> kcall list) \<Rightarrow> 'h list \<Rightarrow> 's \<Rightarrow> 's \<times> kcall list" where
  "run_handlers handle [] s = (s, [])"
| "run_handlers handle (h # hs) s =
     (let (s1, t1) = handle h s; (s2, t2) = run_handlers handle hs s1 in (s2, t1 @ t2))"

lemma run_handlers_append:
  "run_handlers handle (xs @ ys) s =
    (let (s1, t1) = run_handlers handle xs s; (s2, t2) = run_handlers handle ys s1 in (s2, t1 @ t2))"
  by (induction xs arbitrary: s) (simp_all add: Let_def split: prod.splits)

fun module_sessions ::
  "(kernel \<Rightarrow> 's \<Rightarrow> int \<times> 's \<times> kcall list) \<Rightarrow> ('h \<Rightarrow> 's \<Rightarrow> 's \<times> kcall list) \<Rightarrow>
   ('s \<Rightarrow> 's \<times> kcall list) \<Rightarrow> (kernel \<times> 'h list) list \<Rightarrow> 's \<Rightarrow> kcall list" where
  "module_sessions init handle exit [] s = []"
| "module_sessions init handle exit ((k, hs) # rest) s =
     (let (r, s1, tr) = init k s in
      if r \<noteq> 0 then tr @ module_sessions init handle exit rest s1
      else let (s2, tr2) = run_handlers handle hs s1;
               (s3, tr3) = exit s2
           in tr @ tr2 @ tr3 @ module_sessions init handle exit rest s3)"

locale kmodule =
  fixes init :: "kernel \<Rightarrow> 's \<Rightarrow> int \<times> 's \<times> kcall list"
    and handle :: "'h \<Rightarrow> 's \<Rightarrow> 's \<times> kcall list"
    and exit :: "'s \<Rightarrow> 's \<times> kcall list"
    and owned :: "'s \<Rightarrow> kres multiset"
  assumes init_fails_clean:
      "kernel_ok k \<Longrightarrow> init k s = (r, s', tr) \<Longrightarrow> r \<noteq> 0 \<Longrightarrow> ledger {#} tr = Some {#}"
    and init_owns: "kernel_ok k \<Longrightarrow> init k s = (0, s', tr) \<Longrightarrow> ledger {#} tr = Some (owned s')"
    and handle_keeps: "handle h s = (s', tr) \<Longrightarrow> ledger (owned s) tr = Some (owned s')"
    and exit_returns: "exit s = (s', tr) \<Longrightarrow> ledger (owned s) tr = Some {#}"
begin

lemma handlers_keep: "run_handlers handle hs s = (s', tr) \<Longrightarrow> ledger (owned s) tr = Some (owned s')"
proof (induction hs arbitrary: s tr)
  case Nil
  then show ?case by simp
next
  case (Cons h hs)
  obtain s1 t1 where h: "handle h s = (s1, t1)" by force
  obtain s2 t2 where r: "run_handlers handle hs s1 = (s2, t2)" by force
  have tr: "s2 = s'" "tr = t1 @ t2" using Cons.prems h r by auto
  show ?case
    using handle_keeps [OF h] Cons.IH [OF r [unfolded tr(1)]] by (simp add: tr(2) ledger_append)
qed

theorem sessions_balanced:
  assumes "\<And>k hs. (k, hs) \<in> set ss \<Longrightarrow> kernel_ok k"
  shows "ledger {#} (module_sessions init handle exit ss s) = Some {#}"
  using assms
proof (induction ss arbitrary: s)
  case Nil
  then show ?case by simp
next
  case (Cons a ss)
  obtain k hs where a: "a = (k, hs)" by force
  obtain r s1 tr where i: "init k s = (r, s1, tr)" by (metis prod_cases3)
  have k: "kernel_ok k" using Cons.prems a by auto
  have IH: "\<And>s. ledger {#} (module_sessions init handle exit ss s) = Some {#}"
    using Cons by auto
  show ?case
  proof (cases "r = 0")
    case False
    then show ?thesis
      using init_fails_clean [OF k i] by (simp add: a i ledger_append IH)
  next
    case True
    obtain s2 t2 where f: "run_handlers handle hs s1 = (s2, t2)" by force
    obtain s3 t3 where e: "exit s2 = (s3, t3)" by force
    have "ledger (owned s1) t2 = Some (owned s2)"
      using handlers_keep [OF f] by simp
    then show ?thesis
      using True init_owns [OF k, of s s1 tr] exit_returns [OF e]
      by (simp add: a i f e ledger_append IH)
  qed
qed

end

end
