(* ===== verification/Led_Driver.thy ===== *)
theory Led_Driver
  imports Kernel
begin

text \<open>
  team/pi2_led_driver.c: the character device that drives the inside LED of the second Pi.
  The state is the pair of static variables \<open>led_gpio\<close> (a module parameter) and
  \<open>led_state\<close>; each file operation is one definition returning its result, the new state
  and the trace of kernel calls. Shown: what a write and a read do on every branch, that
  the pin follows \<open>led_state\<close>, that the mutex is released on every path, and that loading
  and unloading the module, with every possible failure, leaves no resource behind.
\<close>

record led_dev =
  led_gpio :: int
  led_state :: int

definition DEFAULT_LED_GPIO :: int where "DEFAULT_LED_GPIO = 5"

text \<open>The static variables as they stand when the module is inserted without parameters.\<close>

definition pi2_led_static :: led_dev where
  "pi2_led_static = \<lparr>led_gpio = DEFAULT_LED_GPIO, led_state = 0\<rparr>"

subsection \<open>File operations\<close>

definition pi2_led_open :: "led_dev \<Rightarrow> int \<times> led_dev \<times> kcall list" where
  "pi2_led_open s = (0, s, [])"

definition pi2_led_release :: "led_dev \<Rightarrow> int \<times> led_dev \<times> kcall list" where
  "pi2_led_release s = (0, s, [])"

text \<open>
  A read with \<open>cnt\<close> bytes asked for, at file position \<open>ppos\<close>, into a user buffer with
  \<open>room\<close> writable bytes: the result, the new position, the bytes that reached the user,
  and the trace.
\<close>

definition pi2_led_read ::
  "led_dev \<Rightarrow> nat \<Rightarrow> nat \<Rightarrow> nat \<Rightarrow> int \<times> nat \<times> char list \<times> kcall list" where
  "pi2_led_read s cnt ppos room =
     (if ppos > 0 then (0, ppos, [], [])
      else
        let lock = [Take_lock ''led_lock'', Drop_lock ''led_lock''];
            kbuf = [if led_state s \<noteq> 0 then CHR ''1'' else CHR ''0'', NL]
        in if cnt < length kbuf then (- EINVAL, ppos, [], lock)
           else case copy_to_user kbuf room (length kbuf) of (data, left) \<Rightarrow>
             if left \<noteq> 0 then (- EFAULT, ppos, data, lock)
             else (int (length kbuf), ppos + length kbuf, data, lock))"

text \<open>A write of \<open>cnt\<close> bytes; \<open>ubuf\<close> holds the readable bytes at the user's address.\<close>

definition pi2_led_write :: "led_dev \<Rightarrow> char list \<Rightarrow> nat \<Rightarrow> int \<times> led_dev \<times> kcall list" where
  "pi2_led_write s ubuf cnt =
     (if cnt < 1 then (- EINVAL, s, [])
      else case copy_from_user [NUL] ubuf 1 of (cmd, left) \<Rightarrow>
        if left \<noteq> 0 then (- EFAULT, s, [])
        else if hd cmd = CHR ''1'' then
          (int cnt, s\<lparr>led_state := 1\<rparr>,
           [Take_lock ''led_lock'', Gpio_set_value (led_gpio s) 1, Drop_lock ''led_lock''])
        else if hd cmd = CHR ''0'' then
          (int cnt, s\<lparr>led_state := 0\<rparr>,
           [Take_lock ''led_lock'', Gpio_set_value (led_gpio s) 0, Drop_lock ''led_lock''])
        else (- EINVAL, s, [Take_lock ''led_lock'', Drop_lock ''led_lock'']))"

subsection \<open>Loading and unloading\<close>

definition pi2_led_init :: "kernel \<Rightarrow> led_dev \<Rightarrow> int \<times> led_dev \<times> kcall list" where
  "pi2_led_init k s =
     (let g = led_gpio s in
      if \<not> gpio_is_valid k g then (- EINVAL, s, [])
      else let ret = ret_gpio_request k g; t1 = [Gpio_request g ret] in
      if ret \<noteq> 0 then (ret, s, t1)
      else let ret = ret_gpio_output k g; t2 = t1 @ [Gpio_direction_output g 0 ret] in
      if ret \<noteq> 0 then (ret, s, t2 @ [Gpio_free g])
      else let s = s\<lparr>led_state := 0\<rparr>;
               ret = ret_alloc_chrdev k; t3 = t2 @ [Alloc_chrdev_region ret] in
      if ret < 0 then (ret, s, t3 @ [Gpio_free g])
      else let ret = ret_cdev_add k; t4 = t3 @ [Cdev_init, Cdev_add ret] in
      if ret < 0 then (ret, s, t4 @ [Unregister_chrdev_region, Gpio_free g])
      else let ret = ret_class_create k; t5 = t4 @ [Class_create ret] in
      if ret \<noteq> 0 then (ret, s, t5 @ [Cdev_del, Unregister_chrdev_region, Gpio_free g])
      else let ret = ret_device_create k; t6 = t5 @ [Device_create ret] in
      if ret \<noteq> 0 then
        (- EINVAL, s, t6 @ [Class_destroy, Cdev_del, Unregister_chrdev_region, Gpio_free g])
      else (0, s, t6))"

definition pi2_led_exit :: "led_dev \<Rightarrow> led_dev \<times> kcall list" where
  "pi2_led_exit s =
     (s\<lparr>led_state := 0\<rparr>,
      [Gpio_set_value (led_gpio s) 0, Device_destroy, Class_destroy, Cdev_del,
       Unregister_chrdev_region, Gpio_free (led_gpio s)])"

text \<open>The entries of \<open>pi2_led_fops\<close>, as the kernel calls them.\<close>

datatype led_request =
    Led_open
  | Led_release
  | Led_read nat nat nat
  | Led_write "char list" nat

fun pi2_led_fops :: "led_request \<Rightarrow> led_dev \<Rightarrow> led_dev \<times> kcall list" where
  "pi2_led_fops Led_open s = snd (pi2_led_open s)"
| "pi2_led_fops Led_release s = snd (pi2_led_release s)"
| "pi2_led_fops (Led_read cnt ppos room) s = (s, snd (snd (snd (pi2_led_read s cnt ppos room))))"
| "pi2_led_fops (Led_write ubuf cnt) s = snd (pi2_led_write s ubuf cnt)"

subsection \<open>Library lemmas\<close>

lemma copy_one_char:
  "copy_from_user [NUL] [] (Suc 0) = ([NUL], 1)"
  "copy_from_user [NUL] (c # u) (Suc 0) = ([c], 0)"
  by (simp_all add: copy_from_user_def overwrite_def)

definition led_owned :: "led_dev \<Rightarrow> kres multiset" where
  "led_owned s = {#Gpio (led_gpio s), Chrdev, Cdev, Dev_class, Device#}"

lemma led_owned_state [simp]: "led_owned (s\<lparr>led_state := x\<rparr>) = led_owned s"
  by (simp add: led_owned_def)

lemma led_write_cases:
  "pi2_led_write s ubuf cnt =
     (if cnt = 0 then (- EINVAL, s, [])
      else case ubuf of [] \<Rightarrow> (- EFAULT, s, [])
      | c # u \<Rightarrow>
          if c = CHR ''1'' \<or> c = CHR ''0'' then
            let v = (if c = CHR ''1'' then 1 else 0) in
            (int cnt, s\<lparr>led_state := v\<rparr>,
             [Take_lock ''led_lock'', Gpio_set_value (led_gpio s) v, Drop_lock ''led_lock''])
          else (- EINVAL, s, [Take_lock ''led_lock'', Drop_lock ''led_lock'']))"
  by (auto simp: pi2_led_write_def copy_one_char split: list.splits)

lemma led_fops_ledger:
  assumes "pi2_led_fops h s = (s', tr)"
  shows "ledger H tr = Some H \<and> led_gpio s' = led_gpio s"
proof (cases h)
  case (Led_write ubuf cnt)
  then show ?thesis
    using assms by (auto simp: led_write_cases Let_def split: if_splits list.splits)
next
  case (Led_read cnt ppos room)
  then show ?thesis
    using assms by (auto simp: pi2_led_read_def Let_def split: if_splits prod.splits)
qed (use assms in \<open>auto simp: pi2_led_open_def pi2_led_release_def\<close>)

lemma led_init_failure:
  assumes "kernel_ok k" and "pi2_led_init k s = (r, s', tr)" and "r \<noteq> 0"
  shows "ledger {#} tr = Some {#}"
  using assms
  by (auto simp: pi2_led_init_def Let_def kernel_ok_def split: if_splits)

lemma led_init_success:
  assumes "kernel_ok k" and "pi2_led_init k s = (0, s', tr)"
  shows "ledger {#} tr = Some (led_owned s') \<and> s' = s\<lparr>led_state := 0\<rparr>"
  using assms
  by (auto simp: pi2_led_init_def Let_def kernel_ok_def led_owned_def errno split: if_splits)

lemma led_exit_returns:
  "pi2_led_exit s = (s', tr) \<Longrightarrow> ledger (led_owned s) tr = Some {#}"
  by (auto simp: pi2_led_exit_def led_owned_def)

interpretation led_module: kmodule pi2_led_init pi2_led_fops pi2_led_exit led_owned
proof (unfold_locales, goal_cases)
  case (1 k s r s' tr)
  then show ?case by (rule led_init_failure)
next
  case (2 k s s' tr)
  then show ?case by (simp add: led_init_success)
next
  case (3 h s s' tr)
  then show ?case by (metis led_fops_ledger led_owned_def)
next
  case (4 s s' tr)
  then show ?case by (rule led_exit_returns)
qed

subsection \<open>The abstract lamp\<close>

text \<open>
  What the device promises: a lamp whose value is set by each accepted command and left
  alone by everything else.
\<close>

definition lamp_accepts :: "char list \<Rightarrow> nat \<Rightarrow> bool" where
  "lamp_accepts ubuf cnt \<longleftrightarrow> cnt \<noteq> 0 \<and> ubuf \<noteq> [] \<and> (hd ubuf = CHR ''0'' \<or> hd ubuf = CHR ''1'')"

fun lamp_step :: "int \<Rightarrow> led_request \<Rightarrow> int" where
  "lamp_step v (Led_write ubuf cnt) =
     (if lamp_accepts ubuf cnt then (if hd ubuf = CHR ''1'' then 1 else 0) else v)"
| "lamp_step v _ = v"

lemma led_fops_lamp:
  assumes "pi2_led_fops h s = (s', tr)"
  shows "led_state s' = lamp_step (led_state s) h \<and>
    pin_level (led_gpio s) (led_state s) tr = led_state s' \<and> led_gpio s' = led_gpio s"
proof (cases h)
  case (Led_write ubuf cnt)
  then show ?thesis
    using assms
    by (auto simp: led_write_cases lamp_accepts_def Let_def split: if_splits list.splits)
next
  case (Led_read cnt ppos room)
  then show ?thesis
    using assms by (auto simp: pi2_led_read_def Let_def split: if_splits prod.splits)
qed (use assms in \<open>auto simp: pi2_led_open_def pi2_led_release_def\<close>)

lemma led_handlers_lamp:
  "run_handlers pi2_led_fops hs s = (s', tr) \<Longrightarrow>
    led_state s' = foldl lamp_step (led_state s) hs \<and>
    pin_level (led_gpio s) (led_state s) tr = led_state s' \<and> led_gpio s' = led_gpio s"
proof (induction hs arbitrary: s tr)
  case Nil
  then show ?case by simp
next
  case (Cons h hs)
  obtain s1 t1 where h: "pi2_led_fops h s = (s1, t1)" by force
  obtain s2 t2 where r: "run_handlers pi2_led_fops hs s1 = (s2, t2)" by force
  have eq: "s' = s2" "tr = t1 @ t2" using Cons.prems h r by auto
  from Cons.IH [OF r [folded eq(1)]] led_fops_lamp [OF h] show ?case
    by (simp add: eq(2) pin_level_append)
qed

lemma led_init_pin:
  "pi2_led_init k s = (0, s', tr) \<Longrightarrow> pin_level (led_gpio s) v tr = 0 \<and> led_state s' = 0 \<and> led_gpio s' = led_gpio s"
  by (auto simp: pi2_led_init_def Let_def errno split: if_splits)

subsection \<open>Properties\<close>

text \<open>
  C15. The loaded driver is the abstract lamp: after a successful load and any sequence of
  file operations, \<open>led_state\<close> and the level of the LED pin are both what the accepted
  write commands say, starting from off.
\<close>

theorem led_refines_lamp:
  assumes "pi2_led_init k s = (0, s1, t1)"
    and "run_handlers pi2_led_fops hs s1 = (s2, t2)"
  shows "led_state s2 = foldl lamp_step 0 hs \<and>
    pin_level (led_gpio s) v (t1 @ t2) = foldl lamp_step 0 hs"
  using led_init_pin [OF assms(1), of v] led_handlers_lamp [OF assms(2)]
  by (simp add: pin_level_append)

theorem led_refines_lamp_witness:
  "\<exists>s1 t1 s2 t2. pi2_led_init all_ok pi2_led_static = (0, s1, t1) \<and>
     run_handlers pi2_led_fops [Led_write ''1'' 1, Led_write ''x'' 1, Led_read 2 0 2] s1 = (s2, t2) \<and>
     led_state s2 = 1 \<and> pin_level 5 0 (t1 @ t2) = 1"
proof -
  obtain s1 t1 where i: "pi2_led_init all_ok pi2_led_static = (0, s1, t1)"
    by (auto simp: pi2_led_init_def all_ok_def Let_def)
  obtain s2 t2 where h:
    "run_handlers pi2_led_fops [Led_write ''1'' 1, Led_write ''x'' 1, Led_read 2 0 2] s1 = (s2, t2)"
    by (metis surj_pair)
  show ?thesis
    using i h led_refines_lamp [OF i h, of 0]
    by (auto simp: pi2_led_static_def DEFAULT_LED_GPIO_def lamp_accepts_def)
qed

text \<open>
  A character written to the LED device is read back: after an accepted write of
  \<open>0\<close> or \<open>1\<close>, reading from the start with room for two bytes returns that character
  and a newline, and a second read at the position reached returns end of file.
\<close>

lemma led_write_then_read:
  assumes "lamp_accepts (c # u) n" and "2 \<le> cnt" and "2 \<le> room"
    and "pi2_led_write s (c # u) n = (r, s', tr)"
  shows "r = int n \<and> fst (pi2_led_read s' cnt 0 room) = 2 \<and>
    fst (snd (snd (pi2_led_read s' cnt 0 room))) = [c, NL] \<and>
    pi2_led_read s' cnt (fst (snd (pi2_led_read s' cnt 0 room))) room = (0, 2, [], [])"
  using assms
  by (auto simp: lamp_accepts_def led_write_cases pi2_led_read_def copy_to_user_def min_def
      Let_def split: if_splits)

lemma led_write_then_read_example:
  "\<exists>s' tr. pi2_led_write pi2_led_static ''1'' 1 = (1, s', tr) \<and>
     fst (snd (snd (pi2_led_read s' 100 0 100))) = [CHR ''1'', NL]"
proof -
  obtain r s' tr where w: "pi2_led_write pi2_led_static [CHR ''1''] 1 = (r, s', tr)"
    by (metis prod_cases3)
  have a: "lamp_accepts [CHR ''1''] 1" by (simp add: lamp_accepts_def)
  show ?thesis
    using w led_write_then_read [OF a _ _ w, of 100 100] by auto
qed

text \<open>
  A write the device does not accept (no byte, an unreadable buffer, a character
  other than \<open>0\<close> and \<open>1\<close>) returns an error, changes neither the state nor any pin, and
  leaves the mutex free; every other write returns the number of bytes asked for.
\<close>

lemma led_write_rejects:
  assumes "pi2_led_write s ubuf cnt = (r, s', tr)"
  shows "if lamp_accepts ubuf cnt then r = int cnt
    else (r = - EINVAL \<or> r = - EFAULT) \<and> s' = s \<and> pin_writes g tr = [] \<and>
      ledger {#} tr = Some {#}"
  using assms
  by (auto simp: lamp_accepts_def led_write_cases Let_def split: if_splits list.splits)

lemma led_write_rejects_example:
  "pi2_led_write pi2_led_static ''2'' 1 = (- EINVAL, pi2_led_static, [Take_lock ''led_lock'', Drop_lock ''led_lock'']) \<and>
   \<not> lamp_accepts ''2'' 1 \<and>
   ledger {#} [Take_lock ''led_lock'', Drop_lock ''led_lock''] = Some {#}"
proof -
  have w: "pi2_led_write pi2_led_static ''2'' 1 =
      (- EINVAL, pi2_led_static, [Take_lock ''led_lock'', Drop_lock ''led_lock''])"
    by (simp add: led_write_cases)
  show ?thesis
    using w led_write_rejects [OF w, of 5] by (auto simp: lamp_accepts_def)
qed

text \<open>
  Whatever the kernel calls return, any number of attempts to load the LED driver,
  each followed when it succeeds by any file operations and an unload, releases exactly
  what it acquired: nothing leaks, nothing is freed twice, the mutex ends free.
\<close>

lemma led_sessions_balanced:
  assumes "\<And>k hs. (k, hs) \<in> set ss \<Longrightarrow> kernel_ok k"
  shows "ledger {#} (module_sessions pi2_led_init pi2_led_fops pi2_led_exit ss s) = Some {#}"
  by (rule led_module.sessions_balanced) (rule assms)

lemma led_sessions_balanced_example:
  "ledger {#} (module_sessions pi2_led_init pi2_led_fops pi2_led_exit
      [(all_ok\<lparr>ret_class_create := - ENOMEM\<rparr>, []), (all_ok, [Led_write ''1'' 1, Led_write ''?'' 1])]
      pi2_led_static) = Some {#}"
  by (rule led_sessions_balanced) (auto simp: kernel_ok_def all_ok_def errno)

text \<open>
  The module parameter is writable at run time (mode 0644). If \<open>led_gpio\<close> is changed
  between a successful load and the unload, the unload frees a pin it never requested and
  the requested pin is lost.
\<close>

lemma led_gpio_changed_unload:
  assumes "kernel_ok k" and "pi2_led_init k s = (0, s1, t1)" and "g \<noteq> led_gpio s"
  shows "ledger {#} (t1 @ snd (pi2_led_exit (s1\<lparr>led_gpio := g\<rparr>))) = None"
  using led_init_success [OF assms(1,2)] assms(3)
  by (auto simp: ledger_append pi2_led_exit_def led_owned_def)

lemma led_gpio_changed_example:
  "\<exists>s1 t1. pi2_led_init all_ok pi2_led_static = (0, s1, t1) \<and>
     ledger {#} (t1 @ snd (pi2_led_exit (s1\<lparr>led_gpio := 6\<rparr>))) = None"
proof -
  obtain s1 t1 where i: "pi2_led_init all_ok pi2_led_static = (0, s1, t1)"
    by (auto simp: pi2_led_init_def all_ok_def Let_def)
  show ?thesis
    using i led_gpio_changed_unload [OF kernel_ok_all_ok i, of 6]
    by (auto simp: pi2_led_static_def DEFAULT_LED_GPIO_def)
qed

end
