(* ===== verification/Simulation.thy ===== *)
theory Simulation
  imports Prelude
begin

text \<open>
  Runs with visible events and forward simulation. A specification is a partial function
  from events and states to states; an implementation, a step relation labelled with the
  same events, refines it when a relation between the states is kept step by step. Then
  every run of the implementation is a run of the specification.
\<close>

subsection \<open>Runs of a specification\<close>

fun spec_run :: "('e \<Rightarrow> 'a \<Rightarrow> 'a option) \<Rightarrow> 'e list \<Rightarrow> 'a \<Rightarrow> 'a option" where
  "spec_run next [] a = Some a"
| "spec_run next (e # es) a = (case next e a of None \<Rightarrow> None | Some a' \<Rightarrow> spec_run next es a')"

lemma spec_run_append:
  "spec_run next (es @ fs) a = (case spec_run next es a of None \<Rightarrow> None | Some a' \<Rightarrow> spec_run next fs a')"
  by (induction es arbitrary: a) (auto split: option.split)

text \<open>A specification seen through another: states related by a function, step by step.\<close>

lemma spec_run_map:
  assumes "\<And>e a a'. next e a = Some a' \<Longrightarrow> next' e (f a) = Some (f a')"
  shows "spec_run next es a = Some a' \<Longrightarrow> spec_run next' es (f a) = Some (f a')"
  by (induction es arbitrary: a) (auto simp: assms split: option.splits)

subsection \<open>Runs of an implementation\<close>

inductive labelled :: "('s \<Rightarrow> bool) \<Rightarrow> ('e \<Rightarrow> 's \<Rightarrow> 's \<Rightarrow> bool) \<Rightarrow> 'e list \<Rightarrow> 's \<Rightarrow> bool"
  for start :: "'s \<Rightarrow> bool" and step :: "'e \<Rightarrow> 's \<Rightarrow> 's \<Rightarrow> bool" where
  lab_start: "start s \<Longrightarrow> labelled start step [] s"
| lab_step: "labelled start step es s \<Longrightarrow> step e s t \<Longrightarrow> labelled start step (es @ [e]) t"

lemma labelled_snoc: "labelled start step (es @ [e]) t \<Longrightarrow> \<exists>s. labelled start step es s \<and> step e s t"
  by (erule labelled.cases) auto

lemma labelled_reachable:
  "labelled start step es s \<Longrightarrow> (\<And>e s t. step e s t \<Longrightarrow> step' s t) \<Longrightarrow> reachable start step' s"
  by (induction rule: labelled.induct) (auto intro: reach_start reach_step)

lemma reachable_labelled:
  "reachable start step' s \<Longrightarrow> (\<And>s t. step' s t \<Longrightarrow> \<exists>e. step e s t) \<Longrightarrow> \<exists>es. labelled start step es s"
  by (induction rule: reachable.induct) (blast intro: labelled.intros)+

subsection \<open>Forward simulation\<close>

locale forward_simulation =
  fixes "next" :: "'e \<Rightarrow> 'a \<Rightarrow> 'a option"
    and init :: 'a
    and start :: "'s \<Rightarrow> bool"
    and step :: "'e \<Rightarrow> 's \<Rightarrow> 's \<Rightarrow> bool"
    and rel :: "'s \<Rightarrow> 'a \<Rightarrow> bool"
  assumes starts: "start s \<Longrightarrow> rel s init"
    and simulates: "step e s t \<Longrightarrow> rel s a \<Longrightarrow> \<exists>a'. next e a = Some a' \<and> rel t a'"
begin

lemma refines: "labelled start step es s \<Longrightarrow> \<exists>a. spec_run next es init = Some a \<and> rel s a"
proof (induction rule: labelled.induct)
  case (lab_start s)
  then show ?case by (simp add: starts)
next
  case (lab_step es s e t)
  then show ?case using simulates by (fastforce simp: spec_run_append)
qed

end

end
