(* ===== verification/Register.thy ===== *)
theory Register
  imports Simulation
begin

text \<open>
  What the two modules of lab9 promise: one value that writers replace and readers obtain.
  The specification is a register whose operations are atomic; an implementation refines
  it when every run, reduced to its visible events, is a run of the register. The contract
  \<open>register_impl\<close> asks for a simulation, one step at a time.
\<close>

text \<open>
  The visible events of a thread: it obtains the value, publishes a new one, prints what it
  obtained (twice, with a delay in between). Every other step is silent.
\<close>

datatype reg_event =
    Silent
  | Obtain nat
  | Publish nat nat
  | Show nat nat nat

record reg =
  reg_val :: nat
  reg_pend :: "nat \<rightharpoonup> nat" \<comment> \<open>what each thread has obtained and not printed yet\<close>

definition reg_zero :: reg where
  "reg_zero = \<lparr>reg_val = 0, reg_pend = Map.empty\<rparr>"

fun reg_next :: "reg_event \<Rightarrow> reg \<Rightarrow> reg option" where
  "reg_next Silent r = Some r"
| "reg_next (Obtain i) r = Some (r\<lparr>reg_pend := (reg_pend r)(i \<mapsto> reg_val r)\<rparr>)"
| "reg_next (Publish i v) r = Some (r\<lparr>reg_val := v\<rparr>)"
| "reg_next (Show i v v') r =
     (if v = v' \<and> reg_pend r i = Some v then Some (r\<lparr>reg_pend := (reg_pend r)(i := None)\<rparr>) else None)"

abbreviation reg_run :: "reg_event list \<Rightarrow> reg \<Rightarrow> reg option" where
  "reg_run \<equiv> spec_run reg_next"

text \<open>In a run of the register a value that is shown was the register's when it was obtained.\<close>

fun last_value :: "nat \<Rightarrow> reg_event list \<Rightarrow> nat" where
  "last_value v [] = v"
| "last_value v (Publish i w # es) = last_value w es"
| "last_value v (e # es) = last_value v es"

lemma reg_run_value: "reg_run es r = Some r' \<Longrightarrow> reg_val r' = last_value (reg_val r) es"
proof (induction es arbitrary: r)
  case (Cons e es)
  then show ?case by (cases e) (auto split: if_splits)
qed simp

lemma pend_kept:
  "reg_run es r = Some r' \<Longrightarrow> (\<And>v v'. Show i v v' \<notin> set es) \<Longrightarrow> Obtain i \<notin> set es \<Longrightarrow> reg_pend r' i = reg_pend r i"
proof (induction es arbitrary: r)
  case (Cons e es)
  then show ?case by (cases e) (auto split: if_splits)
qed simp

lemma shown_was_current:
  assumes "reg_run (es @ Obtain i # fs @ [Show i v v']) r \<noteq> None"
    and "\<And>w w'. Show i w w' \<notin> set fs" and "Obtain i \<notin> set fs"
  shows "v = v' \<and> v = last_value (reg_val r) es"
proof -
  obtain r1 where r1: "reg_run es r = Some r1"
    using assms(1) by (auto simp: spec_run_append split: option.splits)
  let ?r = "r1\<lparr>reg_pend := (reg_pend r1)(i \<mapsto> reg_val r1)\<rparr>"
  obtain r2 where r2: "reg_run fs ?r = Some r2" "v = v'" "reg_pend r2 i = Some v"
    using assms(1) by (auto simp: spec_run_append r1 split: option.splits if_splits)
  have "reg_pend r2 i = Some (reg_val r1)" using pend_kept [OF r2(1), of i] assms(2,3) by simp
  then show ?thesis using r2 reg_run_value [OF r1] by simp
qed

locale register_impl = forward_simulation reg_next reg_zero start step rel
  for start :: "'s \<Rightarrow> bool" and step :: "reg_event \<Rightarrow> 's \<Rightarrow> 's \<Rightarrow> bool" and rel :: "'s \<Rightarrow> reg \<Rightarrow> bool"
begin

lemma shown_was_obtained:
  assumes "labelled start step (es @ Obtain i # fs @ [Show i v v']) s"
    and "\<forall>w w'. Show i w w' \<notin> set fs" and "Obtain i \<notin> set fs"
  shows "v = v' \<and> v = last_value 0 es"
  using shown_was_current [of es i fs v v' reg_zero] refines [OF assms(1)] assms(2,3) by (auto simp: reg_zero_def)

end

text \<open>Stronger: nothing is published between obtaining a value and showing it.\<close>

locale register_current = register_impl +
  assumes shows_current: "step (Show i v v') s t \<Longrightarrow> rel s r \<Longrightarrow> v = reg_val r"
begin

lemma shown_is_current:
  assumes "labelled start step (es @ [Show i v v']) s"
  shows "v = v' \<and> v = last_value 0 es"
proof -
  obtain s0 where s0: "labelled start step es s0" "step (Show i v v') s0 s"
    using labelled_snoc [OF assms] by blast
  obtain r where r: "reg_run es reg_zero = Some r" "rel s0 r" using refines [OF s0(1)] by blast
  obtain r' where "reg_next (Show i v v') r = Some r'" using simulates [OF s0(2) r(2)] by blast
  then have "v = v'" by (simp split: if_splits)
  then show ?thesis using shows_current [OF s0(2) r(2)] reg_run_value [OF r(1)] by (simp add: reg_zero_def)
qed

end

end
