(* ===== verification/Locking.thy ===== *)
theory Locking
  imports Prelude
begin

text \<open>
  The discipline of a lock that threads take and drop: \<open>critical\<close> tells from a program
  counter whether the thread is between the two. The lock is held exactly while some thread
  is, and never two are. Below also the read-write lock and exclusion without a lock.
\<close>

definition lock_ok :: "('p \<Rightarrow> bool) \<Rightarrow> bool \<Rightarrow> (nat \<Rightarrow> 'p) \<Rightarrow> bool" where
  "lock_ok critical held pcs \<longleftrightarrow>
     (held \<longleftrightarrow> (\<exists>i. critical (pcs i))) \<and> (\<forall>i j. critical (pcs i) \<and> critical (pcs j) \<longrightarrow> i = j)"

lemma lock_ok_stay: "lock_ok critical h pcs \<Longrightarrow> critical x = critical (pcs i) \<Longrightarrow> lock_ok critical h (pcs(i := x))"
  unfolding lock_ok_def by (metis fun_upd_apply)

lemma lock_ok_enter: "lock_ok critical False pcs \<Longrightarrow> lock_ok critical True (pcs(i := x)) \<longleftrightarrow> critical x"
  unfolding lock_ok_def by (metis fun_upd_apply)

lemma lock_ok_leave:
  "lock_ok critical h pcs \<Longrightarrow> critical (pcs i) \<Longrightarrow> \<not> critical x \<Longrightarrow> lock_ok critical False (pcs(i := x))"
  unfolding lock_ok_def by (metis fun_upd_apply)

lemma lock_ok_start: "(\<And>i. \<not> critical (pcs i)) \<Longrightarrow> lock_ok critical False pcs"
  by (simp add: lock_ok_def)

lemma lock_ok_excludes: "lock_ok critical h pcs \<Longrightarrow> critical (pcs i) \<Longrightarrow> j \<noteq> i \<Longrightarrow> \<not> critical (pcs j)"
  unfolding lock_ok_def by metis

lemma lock_ok_held: "lock_ok critical h pcs \<Longrightarrow> critical (pcs i) \<Longrightarrow> h"
  by (auto simp: lock_ok_def)

text \<open>A property of program counters inside: in its critical section a thread alone can have it.\<close>

lemma lock_ok_alone:
  assumes "lock_ok critical h pcs" and "critical (pcs i)" and "\<And>y. P y \<Longrightarrow> critical y"
  shows "(\<exists>j. P ((pcs(i := x)) j)) \<longleftrightarrow> P x" "(\<exists>j. P (pcs j)) \<longleftrightarrow> P (pcs i)"
  using assms unfolding lock_ok_def by (metis fun_upd_apply)+

text \<open>
  The discipline of a lock that many may hold to read or one to write: \<open>n\<close> counts the readers,
  \<open>w\<close> tells whether a writer holds it, \<open>rd\<close> and \<open>wr\<close> whether a thread does.
\<close>

definition rwlock_ok :: "('p \<Rightarrow> bool) \<Rightarrow> ('p \<Rightarrow> bool) \<Rightarrow> nat \<Rightarrow> bool \<Rightarrow> (nat \<Rightarrow> 'p) \<Rightarrow> bool" where
  "rwlock_ok rd wr n w pcs \<longleftrightarrow>
     finite {i. rd (pcs i)} \<and> n = card {i. rd (pcs i)} \<and> lock_ok wr w pcs \<and> (w \<longrightarrow> (\<forall>i. \<not> rd (pcs i)))"

lemma rwlock_okI:
  "finite {i. rd (pcs i)} \<Longrightarrow> n = card {i. rd (pcs i)} \<Longrightarrow> lock_ok wr w pcs \<Longrightarrow> (\<And>i. w \<Longrightarrow> \<not> rd (pcs i)) \<Longrightarrow>
    rwlock_ok rd wr n w pcs"
  unfolding rwlock_ok_def by blast

lemma rwlock_okD:
  assumes "rwlock_ok rd wr n w pcs"
  shows "finite {i. rd (pcs i)}" "n = card {i. rd (pcs i)}" "lock_ok wr w pcs" "w \<Longrightarrow> \<not> rd (pcs i)"
    "wr (pcs i) \<Longrightarrow> w" "wr (pcs i) \<Longrightarrow> \<not> rd (pcs j)"
  using assms unfolding rwlock_ok_def lock_ok_def by blast+

lemma readers_upd: "{j. rd ((pcs(i := x)) j)} = (if rd x then insert i {j. rd (pcs j)} else {j. rd (pcs j)} - {i})"
  by auto

lemma rwlock_ok_stay:
  assumes "rwlock_ok rd wr n w pcs" and "rd x = rd (pcs i)" and "wr x = wr (pcs i)"
  shows "rwlock_ok rd wr n w (pcs(i := x))"
proof -
  have "{j. rd ((pcs(i := x)) j)} = {j. rd (pcs j)}" using assms(2) by auto
  then show ?thesis
    using rwlock_okD [OF assms(1)] assms(2) lock_ok_stay [of wr w pcs x i] assms(3)
    by (intro rwlock_okI) (simp_all only:, simp)
qed

lemma rwlock_ok_read:
  assumes "rwlock_ok rd wr n False pcs" and "\<not> rd (pcs i)" and "rd x" and "\<not> wr x"
  shows "rwlock_ok rd wr (Suc n) False (pcs(i := x))"
proof (rule rwlock_okI)
  note d = rwlock_okD [OF assms(1)]
  show "finite {j. rd ((pcs(i := x)) j)}" "Suc n = card {j. rd ((pcs(i := x)) j)}"
    unfolding readers_upd using d(1,2) assms(2,3) by simp_all
  have "\<not> wr (pcs i)" using d(5) by blast
  then show "lock_ok wr False (pcs(i := x))" using d(3) assms(4) by (intro lock_ok_stay) simp_all
qed simp

lemma rwlock_ok_unread:
  assumes "rwlock_ok rd wr n w pcs" and "rd (pcs i)" and "\<not> rd x" and "\<not> wr x"
  shows "rwlock_ok rd wr (n - 1) w (pcs(i := x))"
proof (rule rwlock_okI)
  note d = rwlock_okD [OF assms(1)]
  show "finite {j. rd ((pcs(i := x)) j)}" "n - 1 = card {j. rd ((pcs(i := x)) j)}"
    unfolding readers_upd using d(1,2) assms(2,3) by simp_all
  have "\<not> wr (pcs i)" "\<not> w" using d(4,6) assms(2) by blast+
  then show "lock_ok wr w (pcs(i := x))" "w \<Longrightarrow> \<not> rd ((pcs(i := x)) j)" for j
    using d(3) assms(4) lock_ok_stay [of wr w pcs x i] by simp_all
qed

lemma rwlock_ok_write:
  assumes "rwlock_ok rd wr 0 False pcs" and "wr x" and "\<not> rd x"
  shows "rwlock_ok rd wr 0 True (pcs(i := x))"
proof (rule rwlock_okI)
  note d = rwlock_okD [OF assms(1)]
  have none: "{j. rd ((pcs(i := x)) j)} = {}" unfolding readers_upd using d(1,2) assms(3) by simp
  then show "finite {j. rd ((pcs(i := x)) j)}" "0 = card {j. rd ((pcs(i := x)) j)}" by simp_all
  show "\<not> rd ((pcs(i := x)) j)" for j using none by blast
  show "lock_ok wr True (pcs(i := x))" using d(3) assms(2) by (simp add: lock_ok_enter)
qed

lemma rwlock_ok_unwrite:
  assumes "rwlock_ok rd wr n w pcs" and "wr (pcs i)" and "\<not> rd x" and "\<not> wr x"
  shows "rwlock_ok rd wr n False (pcs(i := x))"
proof (rule rwlock_okI)
  note d = rwlock_okD [OF assms(1)]
  have "{j. rd ((pcs(i := x)) j)} = {j. rd (pcs j)}" using d(6) [OF assms(2)] assms(3) by auto
  then show "finite {j. rd ((pcs(i := x)) j)}" "n = card {j. rd ((pcs(i := x)) j)}" using d(1,2) by simp_all
  show "lock_ok wr False (pcs(i := x))" using d(3) assms(2,4) by (rule lock_ok_leave)
qed simp

text \<open>A writer is alone; who finds the lock taken finds somebody who holds it.\<close>

lemma rwlock_ok_alone:
  "rwlock_ok rd wr n w pcs \<Longrightarrow> wr (pcs i) \<Longrightarrow> rd (pcs j) \<or> wr (pcs j) \<Longrightarrow> i = j"
  unfolding rwlock_ok_def lock_ok_def by blast

lemma rwlock_ok_held:
  assumes "rwlock_ok rd wr n w pcs"
  shows "w \<Longrightarrow> \<exists>i. wr (pcs i)" "0 < n \<Longrightarrow> \<exists>i. rd (pcs i)"
  using rwlock_okD(2,3) [OF assms] unfolding lock_ok_def by (blast, metis card.empty empty_Collect_eq less_irrefl)

text \<open>At most one thread at a time, without a lock: the handler of an interrupt line.\<close>

definition exclusive :: "('p \<Rightarrow> bool) \<Rightarrow> (nat \<Rightarrow> 'p) \<Rightarrow> bool" where
  "exclusive P pcs \<longleftrightarrow> (\<forall>i j. P (pcs i) \<and> P (pcs j) \<longrightarrow> i = j)"

lemma exclusive_go: "exclusive P pcs \<Longrightarrow> P x \<longrightarrow> P (pcs i) \<Longrightarrow> exclusive P (pcs(i := x))"
  unfolding exclusive_def by (metis fun_upd_apply)

lemma exclusive_enter: "\<forall>j. \<not> P (pcs j) \<Longrightarrow> exclusive P (pcs(i := x))"
  unfolding exclusive_def by (metis fun_upd_apply)

lemma exclusive_alone: "exclusive P pcs \<Longrightarrow> P (pcs i) \<Longrightarrow> j \<noteq> i \<Longrightarrow> \<not> P (pcs j)"
  by (auto simp: exclusive_def)

end
