(* ===== verification/Draining.thy ===== *)
theory Draining
  imports Prelude
begin

text \<open>
  When do the calls that were started return? A contract for handlers written as the steps
  of a thread: every step of a call under way brings it nearer its end, leaves the others as
  far from theirs, and while some call is under way one of them can move. Then no schedule
  keeps the calls from returning.
\<close>

locale draining =
  fixes act :: "nat \<Rightarrow> 's \<Rightarrow> 's \<Rightarrow> bool" \<comment> \<open>a step of a thread\<close>
    and rank :: "'s \<Rightarrow> nat \<Rightarrow> nat" \<comment> \<open>how far the thread is from the end of its call, 0 outside\<close>
    and inv :: "'s \<Rightarrow> bool"
    and most :: "'s \<Rightarrow> nat" \<comment> \<open>the longest a call under way can be\<close>
  assumes keeps: "inv s \<Longrightarrow> act i s t \<Longrightarrow> 0 < rank s i \<Longrightarrow> inv t"
    and nearer: "inv s \<Longrightarrow> act i s t \<Longrightarrow> 0 < rank s i \<Longrightarrow> rank t i < rank s i"
    and others: "inv s \<Longrightarrow> act i s t \<Longrightarrow> 0 < rank s i \<Longrightarrow> j \<noteq> i \<Longrightarrow> rank t j = rank s j"
    and moves: "inv s \<Longrightarrow> 0 < rank s i \<Longrightarrow> \<exists>j t. act j s t \<and> 0 < rank s j"
    and bounded: "inv s \<Longrightarrow> rank s i \<le> most s"
    and few: "inv s \<Longrightarrow> finite {i. 0 < rank s i}"
begin

lemma step_nearer:
  assumes "inv s" and "act i s t" and "0 < rank s i" and "finite A" and "{j. 0 < rank s j} \<subseteq> A"
  shows "sum (rank t) A < sum (rank s) A \<and> {j. 0 < rank t j} \<subseteq> A"
proof
  have i: "i \<in> A" using assms(3,5) by auto
  have "sum (rank t) (A - {i}) = sum (rank s) (A - {i})"
    using others [OF assms(1-3)] by (intro sum.cong) auto
  then show "sum (rank t) A < sum (rank s) A"
    using nearer [OF assms(1-3)] by (simp add: sum.remove [OF assms(4) i])
  show "{j. 0 < rank t j} \<subseteq> A"
    using others [OF assms(1-3)] i assms(5) by (metis (mono_tags, lifting) mem_Collect_eq subset_iff)
qed

lemma run_nearer:
  assumes "((\<lambda>s t. \<exists>i. act i s t \<and> 0 < rank s i) ^^ m) s t" and "inv s"
    and "finite A" and "{j. 0 < rank s j} \<subseteq> A"
  shows "inv t \<and> m + sum (rank t) A \<le> sum (rank s) A \<and> {j. 0 < rank t j} \<subseteq> A"
  using assms(1)
proof (induction m arbitrary: t)
  case (Suc m)
  then obtain u i where u: "((\<lambda>s t. \<exists>i. act i s t \<and> 0 < rank s i) ^^ m) s u" "act i u t" "0 < rank u i"
    by auto
  show ?case
    using Suc.IH [OF u(1)] step_nearer [of u i t A, OF _ u(2,3) assms(3)] keeps [of u i t] u by force
qed (use assms in auto)

lemma calls_return:
  assumes "((\<lambda>s t. \<exists>i. act i s t \<and> 0 < rank s i) ^^ m) s t" and "inv s"
  shows "m \<le> most s * card {i. 0 < rank s i} \<and>
    ((\<exists>i. 0 < rank t i) \<longrightarrow> (\<exists>u i. act i t u \<and> 0 < rank t i))"
proof -
  have "inv t" "m + sum (rank t) {i. 0 < rank s i} \<le> sum (rank s) {i. 0 < rank s i}"
    using run_nearer [OF assms few [OF assms(2)]] by auto
  moreover have "sum (rank s) {i. 0 < rank s i} \<le> of_nat (card {i. 0 < rank s i}) * most s"
    by (rule sum_bounded_above) (rule bounded [OF assms(2)])
  moreover have "(\<exists>i. 0 < rank t i) \<longrightarrow> (\<exists>u i. act i t u \<and> 0 < rank t i)"
    using moves [of t] \<open>inv t\<close> by blast
  ultimately show ?thesis by (simp add: mult.commute)
qed

end

end
