(* ===== verification/Led_Threads.thy ===== *)
theory Led_Threads
  imports Led_Driver Register Locking Draining
begin

text \<open>
  team/pi2_led_driver.c with any number of threads inside its file operations: one step per
  access to shared data, the mutex explicit (mutex_lock waits until it is free). Shown, for
  every interleaving: the driver is an atomic register for the last accepted command, the
  pin agrees with \<open>led_state\<close> whenever the mutex is free, what a reader is handed is the
  state at the moment it looked, every call returns, and an undisturbed call is the function
  of Led_Driver.
\<close>

subsection \<open>Threads and steps\<close>

datatype led_pc =
    Outside
  | R_lock nat nat \<comment> \<open>bytes asked for, writable bytes at the user's address\<close>
  | R_state nat nat
  | R_unlock nat nat nat \<comment> \<open>and \<open>kbuf[0]\<close>, 1 for the character 1\<close>
  | R_copy nat nat nat
  | W_lock "char list" char nat \<comment> \<open>what the caller passes, \<open>cmd\<close> and the bytes given\<close>
  | W_test "char list" char nat
  | W_pin "char list" int nat
  | W_state "char list" int nat
  | W_unlock nat
  | W_reject
  | Done int

record led_threads = led_dev +
  lt_locked :: bool \<comment> \<open>\<open>led_lock\<close>\<close>
  lt_pin :: int \<comment> \<open>the level of the pin \<open>led_gpio\<close>\<close>
  lt_pc :: "nat \<Rightarrow> led_pc"
  lt_out :: "(nat \<times> char list) list" \<comment> \<open>ghost: what the successful reads handed over\<close>

definition lt_goto :: "led_threads \<Rightarrow> nat \<Rightarrow> led_pc \<Rightarrow> led_threads" where
  "lt_goto s i x = s\<lparr>lt_pc := (lt_pc s)(i := x)\<rparr>"

text \<open>The start: a successful load, from any level \<open>v\<close> of the pin.\<close>

definition lt_start :: "led_threads \<Rightarrow> bool" where
  "lt_start s \<longleftrightarrow> (\<exists>k s0 tr v. pi2_led_init k s0 = (0, led_dev.truncate s, tr) \<and> lt_pin s = pin_level (led_gpio s0) v tr) \<and>
     \<not> lt_locked s \<and> lt_pc s = (\<lambda>_. Outside) \<and> lt_out s = []"

definition lamp_char :: "nat \<Rightarrow> char" where
  "lamp_char c = (if c = 0 then CHR ''0'' else CHR ''1'')"

inductive led_step :: "nat \<Rightarrow> led_threads \<Rightarrow> led_threads \<Rightarrow> bool" for i :: nat where
  call_open: "lt_pc s i = Outside \<Longrightarrow> pi2_led_open (led_dev.truncate s) = (r, led_dev.truncate s, []) \<Longrightarrow>
    led_step i s (lt_goto s i (Done r))"
| call_release: "lt_pc s i = Outside \<Longrightarrow> pi2_led_release (led_dev.truncate s) = (r, led_dev.truncate s, []) \<Longrightarrow>
    led_step i s (lt_goto s i (Done r))"
| read_end: "lt_pc s i = Outside \<Longrightarrow> ppos > (0 :: nat) \<Longrightarrow> led_step i s (lt_goto s i (Done 0))"
| call_read: "lt_pc s i = Outside \<Longrightarrow> ppos = (0 :: nat) \<Longrightarrow> led_step i s (lt_goto s i (R_lock cnt room))"
| read_lock: "lt_pc s i = R_lock cnt room \<Longrightarrow> \<not> lt_locked s \<Longrightarrow>
    led_step i s ((lt_goto s i (R_state cnt room))\<lparr>lt_locked := True\<rparr>)"
| read_state: "lt_pc s i = R_state cnt room \<Longrightarrow>
    led_step i s (lt_goto s i (R_unlock cnt room (if led_state s \<noteq> 0 then 1 else 0)))"
| read_unlock: "lt_pc s i = R_unlock cnt room c \<Longrightarrow>
    led_step i s ((lt_goto s i (R_copy cnt room c))\<lparr>lt_locked := False\<rparr>)"
| read_short: "lt_pc s i = R_copy cnt room c \<Longrightarrow> cnt < 2 \<Longrightarrow> led_step i s (lt_goto s i (Done (- EINVAL)))"
| read_fault: "lt_pc s i = R_copy cnt room c \<Longrightarrow> \<not> cnt < 2 \<Longrightarrow>
    copy_to_user [lamp_char c, NL] room 2 = (data, left) \<Longrightarrow> left \<noteq> 0 \<Longrightarrow>
    led_step i s (lt_goto s i (Done (- EFAULT)))"
| read_copy: "lt_pc s i = R_copy cnt room c \<Longrightarrow> \<not> cnt < 2 \<Longrightarrow>
    copy_to_user [lamp_char c, NL] room 2 = (data, 0) \<Longrightarrow>
    led_step i s ((lt_goto s i (Done 2))\<lparr>lt_out := lt_out s @ [(i, data)]\<rparr>)"
| write_none: "lt_pc s i = Outside \<Longrightarrow> cnt < (1 :: nat) \<Longrightarrow> led_step i s (lt_goto s i (Done (- EINVAL)))"
| write_fault: "lt_pc s i = Outside \<Longrightarrow> \<not> cnt < (1 :: nat) \<Longrightarrow> copy_from_user [NUL] ubuf 1 = (cmd, left) \<Longrightarrow> left \<noteq> 0 \<Longrightarrow>
    led_step i s (lt_goto s i (Done (- EFAULT)))"
| call_write: "lt_pc s i = Outside \<Longrightarrow> \<not> cnt < (1 :: nat) \<Longrightarrow> copy_from_user [NUL] ubuf 1 = (cmd, 0) \<Longrightarrow>
    led_step i s (lt_goto s i (W_lock ubuf (hd cmd) cnt))"
| write_lock: "lt_pc s i = W_lock ubuf cmd cnt \<Longrightarrow> \<not> lt_locked s \<Longrightarrow>
    led_step i s ((lt_goto s i (W_test ubuf cmd cnt))\<lparr>lt_locked := True\<rparr>)"
| test_on: "lt_pc s i = W_test ubuf cmd cnt \<Longrightarrow> cmd = CHR ''1'' \<Longrightarrow> led_step i s (lt_goto s i (W_pin ubuf 1 cnt))"
| test_off: "lt_pc s i = W_test ubuf cmd cnt \<Longrightarrow> cmd = CHR ''0'' \<Longrightarrow> led_step i s (lt_goto s i (W_pin ubuf 0 cnt))"
| test_other: "lt_pc s i = W_test ubuf cmd cnt \<Longrightarrow> cmd \<noteq> CHR ''1'' \<Longrightarrow> cmd \<noteq> CHR ''0'' \<Longrightarrow>
    led_step i s (lt_goto s i W_reject)"
| reject: "lt_pc s i = W_reject \<Longrightarrow> led_step i s ((lt_goto s i (Done (- EINVAL)))\<lparr>lt_locked := False\<rparr>)"
| set_pin: "lt_pc s i = W_pin ubuf v cnt \<Longrightarrow> led_step i s ((lt_goto s i (W_state ubuf v cnt))\<lparr>lt_pin := v\<rparr>)"
| set_state: "lt_pc s i = W_state ubuf v cnt \<Longrightarrow> led_step i s ((lt_goto s i (W_unlock cnt))\<lparr>led_state := v\<rparr>)"
| write_unlock: "lt_pc s i = W_unlock cnt \<Longrightarrow> led_step i s ((lt_goto s i (Done (int cnt)))\<lparr>lt_locked := False\<rparr>)"
| return: "lt_pc s i = Done r \<Longrightarrow> led_step i s (lt_goto s i Outside)"

inductive_cases led_stepE: "led_step i s t"

lemma lt_goto_simps [simp]:
  "led_gpio (lt_goto s i x) = led_gpio s" "led_state (lt_goto s i x) = led_state s"
  "lt_locked (lt_goto s i x) = lt_locked s" "lt_pin (lt_goto s i x) = lt_pin s"
  "lt_pc (lt_goto s i x) = (lt_pc s)(i := x)" "lt_out (lt_goto s i x) = lt_out s"
  by (simp_all add: lt_goto_def)

subsection \<open>The invariant\<close>

fun critical :: "led_pc \<Rightarrow> bool" where
  "critical (R_state cnt room) = True"
| "critical (R_unlock cnt room c) = True"
| "critical (W_test ubuf cmd cnt) = True"
| "critical (W_pin ubuf v cnt) = True"
| "critical (W_state ubuf v cnt) = True"
| "critical (W_unlock cnt) = True"
| "critical W_reject = True"
| "critical _ = False"

text \<open>The level a writer has given the pin and not yet the state.\<close>

fun pin_ahead :: "led_pc \<Rightarrow> int option" where
  "pin_ahead (W_state ubuf v cnt) = Some v"
| "pin_ahead _ = None"

text \<open>
  The command in the bytes a caller passes, and that a writer on its way acts on it:
  \<open>cmd\<close> is its first byte, and the level it is about to give is the one that byte orders.
\<close>

definition command :: "char list \<Rightarrow> nat option" where
  "command ubuf = (if ubuf = [] then None else if hd ubuf = CHR ''1'' then Some 1 else if hd ubuf = CHR ''0'' then Some 0 else None)"

fun obeys :: "led_pc \<Rightarrow> bool" where
  "obeys (W_lock ubuf cmd cnt) = (ubuf \<noteq> [] \<and> cmd = hd ubuf)"
| "obeys (W_test ubuf cmd cnt) = (ubuf \<noteq> [] \<and> cmd = hd ubuf)"
| "obeys (W_pin ubuf v cnt) = (0 \<le> v \<and> command ubuf = Some (nat v))"
| "obeys (W_state ubuf v cnt) = (0 \<le> v \<and> command ubuf = Some (nat v))"
| "obeys _ = True"

definition pin_ok :: "int \<Rightarrow> int \<Rightarrow> (nat \<Rightarrow> led_pc) \<Rightarrow> bool" where
  "pin_ok pin st pcs \<longleftrightarrow> (\<forall>i v. pin_ahead (pcs i) = Some v \<longrightarrow> pin = v) \<and>
     ((\<forall>i. pin_ahead (pcs i) = None) \<longrightarrow> pin = st)"

definition lt_inv :: "led_threads \<Rightarrow> bool" where
  "lt_inv s \<longleftrightarrow> lock_ok critical (lt_locked s) (lt_pc s) \<and> pin_ok (lt_pin s) (led_state s) (lt_pc s) \<and>
     led_state s \<in> {0, 1} \<and> (\<forall>i. obeys (lt_pc s i))"

lemma command_cases: "command ubuf = Some n \<Longrightarrow> n \<in> {0, 1}"
  by (auto simp: command_def split: if_splits)

lemma copied_byte: "copy_from_user [NUL] ubuf 1 = (cmd, 0) \<Longrightarrow> ubuf \<noteq> [] \<and> hd cmd = hd ubuf"
  by (cases ubuf) (auto simp: copy_from_user_def overwrite_def)

lemma ahead_critical: "pin_ahead x = Some v \<Longrightarrow> critical x"
  by (cases x) auto

lemma pin_ok_stay: "pin_ok p v pcs \<Longrightarrow> pin_ahead x = pin_ahead (pcs i) \<Longrightarrow> pin_ok p v (pcs(i := x))"
  unfolding pin_ok_def by (metis fun_upd_apply)

lemma pin_ok_one:
  assumes "\<And>j. j \<noteq> i \<Longrightarrow> pin_ahead (pcs j) = None"
  shows "pin_ok p st pcs \<longleftrightarrow> (case pin_ahead (pcs i) of None \<Rightarrow> p = st | Some v \<Rightarrow> p = v)"
proof (cases "pin_ahead (pcs i)")
  case None
  then have "pin_ahead (pcs j) = None" for j using assms by (cases "j = i") simp_all
  then show ?thesis by (simp add: pin_ok_def)
next
  case (Some v)
  have "j = i" if "pin_ahead (pcs j) = Some w" for j w using assms [of j] that by auto
  then have "(\<forall>j w. pin_ahead (pcs j) = Some w \<longrightarrow> p = w) \<longleftrightarrow> p = v" using Some by (metis option.inject)
  moreover have "\<not> (\<forall>j. pin_ahead (pcs j) = None)" using Some by (metis option.distinct(1))
  ultimately show ?thesis unfolding pin_ok_def Some option.case by blast
qed

lemma pin_ok_alone:
  assumes "lock_ok critical h pcs" and "critical (pcs i)"
  shows "pin_ok p st (pcs(i := x)) \<longleftrightarrow> (case pin_ahead x of None \<Rightarrow> p = st | Some v \<Rightarrow> p = v)"
    and "pin_ok p st pcs \<longleftrightarrow> (case pin_ahead (pcs i) of None \<Rightarrow> p = st | Some v \<Rightarrow> p = v)"
proof -
  have none: "pin_ahead (pcs j) = None" if "j \<noteq> i" for j
    using lock_ok_excludes [OF assms that] ahead_critical [of "pcs j"] by (cases "pin_ahead (pcs j)") auto
  then show "pin_ok p st (pcs(i := x)) \<longleftrightarrow> (case pin_ahead x of None \<Rightarrow> p = st | Some v \<Rightarrow> p = v)"
    using pin_ok_one [of i "pcs(i := x)" p st] by simp
  show "pin_ok p st pcs \<longleftrightarrow> (case pin_ahead (pcs i) of None \<Rightarrow> p = st | Some v \<Rightarrow> p = v)"
    by (rule pin_ok_one) (rule none)
qed

lemma lt_inv_simps:
  assumes "lt_inv s"
  shows "lock_ok critical (lt_locked s) (lt_pc s)" "pin_ok (lt_pin s) (led_state s) (lt_pc s)" "led_state s \<in> {0, 1}"
    "obeys (lt_pc s i)"
  using assms by (auto simp: lt_inv_def)

lemma lt_inv_step: "led_step i s t \<Longrightarrow> lt_inv s \<Longrightarrow> lt_inv t"
proof (induction rule: led_step.induct)
  case (set_pin s ubuf v cnt)
  note l = lt_inv_simps(1) [OF set_pin(2)]
  have "pin_ok v (led_state s) ((lt_pc s)(i := W_state ubuf v cnt))"
    using set_pin(1) by (simp add: pin_ok_alone(1) [OF l])
  moreover have "obeys (W_state ubuf v cnt)" using lt_inv_simps(4) [OF set_pin(2), of i] set_pin(1) by simp
  ultimately show ?case using set_pin by (auto simp: lt_inv_def intro!: lock_ok_stay)
next
  case (set_state s ubuf v cnt)
  note l = lt_inv_simps(1) [OF set_state(2)]
  have "lt_pin s = v" using lt_inv_simps(2) [OF set_state(2)] set_state(1) by (simp add: pin_ok_alone(2) [OF l, of i])
  then have "pin_ok (lt_pin s) v ((lt_pc s)(i := W_unlock cnt))"
    using set_state(1) by (simp add: pin_ok_alone(1) [OF l])
  moreover have "v \<in> {0, 1}" using lt_inv_simps(4) [OF set_state(2), of i] command_cases [of ubuf "nat v"] set_state(1) by auto
  ultimately show ?case using set_state by (auto simp: lt_inv_def intro!: lock_ok_stay)
next
  case (read_unlock s cnt room c)
  then show ?case by (auto simp: lt_inv_def intro!: pin_ok_stay lock_ok_leave)
next
  case (reject s)
  then show ?case by (auto simp: lt_inv_def intro!: pin_ok_stay lock_ok_leave)
next
  case (write_unlock s cnt)
  then show ?case by (auto simp: lt_inv_def intro!: pin_ok_stay lock_ok_leave)
next
  case (call_write s cnt ubuf cmd)
  then show ?case using copied_byte [OF call_write(3)] by (auto simp: lt_inv_def intro!: pin_ok_stay lock_ok_stay)
next
  case (write_lock s ubuf cmd cnt)
  then show ?case using lt_inv_simps(4) [OF write_lock(3), of i] by (auto simp: lt_inv_def lock_ok_enter intro!: pin_ok_stay)
next
  case (test_on s ubuf cmd cnt)
  then show ?case using lt_inv_simps(4) [OF test_on(3), of i] by (auto simp: lt_inv_def command_def intro!: pin_ok_stay lock_ok_stay)
next
  case (test_off s ubuf cmd cnt)
  then show ?case using lt_inv_simps(4) [OF test_off(3), of i] by (auto simp: lt_inv_def command_def intro!: pin_ok_stay lock_ok_stay)
qed (auto simp: lt_inv_def lock_ok_enter intro!: pin_ok_stay lock_ok_stay)

lemma lt_inv_start: "lt_start s \<Longrightarrow> lt_inv s"
proof -
  assume s: "lt_start s"
  then obtain k s0 tr v where i: "pi2_led_init k s0 = (0, led_dev.truncate s, tr)" "lt_pin s = pin_level (led_gpio s0) v tr"
    by (auto simp: lt_start_def)
  from led_init_pin [OF i(1), of v] have "lt_pin s = 0" "led_state s = 0"
    by (simp_all add: i(2) led_dev.truncate_def)
  then show ?thesis using s by (simp add: lt_inv_def lt_start_def lock_ok_def pin_ok_def)
qed

subsection \<open>An atomic register\<close>

text \<open>What a write makes visible is the command its caller passed.\<close>

definition led_event :: "nat \<Rightarrow> led_pc \<Rightarrow> led_pc \<Rightarrow> reg_event" where
  "led_event i x y =
     (case x of
        W_state ubuf v cnt \<Rightarrow> if y = W_unlock cnt then (case command ubuf of Some n \<Rightarrow> Publish i n | None \<Rightarrow> Silent) else Silent
      | R_state cnt room \<Rightarrow> if y \<noteq> x then Obtain i else Silent
      | R_copy cnt room c \<Rightarrow> if y = Done 2 then Show i c c else Silent
      | _ \<Rightarrow> Silent)"

definition led_emits :: "reg_event \<Rightarrow> led_threads \<Rightarrow> led_threads \<Rightarrow> bool" where
  "led_emits e s t \<longleftrightarrow> (\<exists>i. led_step i s t \<and> e = led_event i (lt_pc s i) (lt_pc t i))"

fun looked :: "led_pc \<Rightarrow> nat option" where
  "looked (R_unlock cnt room c) = Some c"
| "looked (R_copy cnt room c) = Some c"
| "looked _ = None"

definition lt_rel :: "led_threads \<Rightarrow> reg \<Rightarrow> bool" where
  "lt_rel s r \<longleftrightarrow> lt_inv s \<and> int (reg_val r) = led_state s \<and>
     (\<forall>i c. looked (lt_pc s i) = Some c \<longrightarrow> reg_pend r i = Some c)"

lemma led_simulates:
  assumes "led_emits e s t" and "lt_rel s r"
  shows "\<exists>r'. reg_next e r = Some r' \<and> lt_rel t r'"
proof -
  obtain i where i: "led_step i s t" and e: "e = led_event i (lt_pc s i) (lt_pc t i)"
    using assms(1) by (auto simp: led_emits_def)
  have inv: "lt_inv s" using assms(2) by (simp add: lt_rel_def)
  have inv': "lt_inv t" by (rule lt_inv_step [OF i inv])
  have v: "led_state s \<in> {0, 1}" by (rule lt_inv_simps(3) [OF inv])
  show ?thesis
    using i
  proof cases
    case (read_state cnt room)
    let ?r = "r\<lparr>reg_pend := (reg_pend r)(i \<mapsto> reg_val r)\<rparr>"
    have "reg_next e r = Some ?r" using e read_state by (simp add: led_event_def)
    moreover have "reg_val r = (if led_state s \<noteq> 0 then 1 else 0)" using v assms(2) by (auto simp: lt_rel_def)
    then have "lt_rel t ?r" using assms(2) inv' read_state by (auto simp: lt_rel_def)
    ultimately show ?thesis by blast
  next
    case (read_copy cnt room c data)
    let ?r = "r\<lparr>reg_pend := (reg_pend r)(i := None)\<rparr>"
    have "reg_pend r i = Some c" using assms(2) read_copy(2) by (simp add: lt_rel_def)
    then have "reg_next e r = Some ?r" using e read_copy by (simp add: led_event_def)
    moreover have "lt_rel t ?r" using assms(2) inv' read_copy by (auto simp: lt_rel_def)
    ultimately show ?thesis by blast
  next
    case (set_state ubuf v cnt)
    have "0 \<le> v" "command ubuf = Some (nat v)" using lt_inv_simps(4) [OF inv, of i] set_state(2) by simp_all
    then show ?thesis using assms(2) inv' e set_state by (auto simp: lt_rel_def led_event_def)
  qed (use assms(2) inv' e in \<open>auto simp: lt_rel_def led_event_def errno\<close>)
qed

interpretation led_register: register_impl lt_start led_emits lt_rel
proof
  fix s
  assume s: "lt_start s"
  then obtain k s0 tr where "pi2_led_init k s0 = (0, led_dev.truncate s, tr)" by (auto simp: lt_start_def)
  from led_init_pin [OF this] have "led_state s = 0" by (simp add: led_dev.truncate_def)
  then show "lt_rel s reg_zero"
    using lt_inv_start [OF s] s by (simp add: lt_rel_def reg_zero_def lt_start_def)
qed (rule led_simulates)

text \<open>What the readers are handed, by the history.\<close>

fun readings :: "reg_event list \<Rightarrow> (nat \<times> char list) list" where
  "readings [] = []"
| "readings (Show i v v' # es) = (i, [lamp_char v, NL]) # readings es"
| "readings (e # es) = readings es"

lemma readings_append [simp]: "readings (es @ fs) = readings es @ readings fs"
  by (induction es rule: readings.induct) auto

lemma led_readings: "labelled lt_start led_emits es s \<Longrightarrow> readings es = lt_out s"
proof (induction rule: labelled.induct)
  case (lab_start s)
  then show ?case by (simp add: lt_start_def)
next
  case (lab_step es s e t)
  then obtain i where i: "led_step i s t" "e = led_event i (lt_pc s i) (lt_pc t i)"
    by (auto simp: led_emits_def)
  from i(1) have "lt_out s @ readings [e] = lt_out t"
    by cases (auto simp: i(2) led_event_def errno copy_to_user_def min_def split: if_splits option.splits)
  then show ?case using lab_step.IH by simp
qed

subsection \<open>An undisturbed call\<close>

text \<open>The steps of a call during which nobody else moves are the function of Led_Driver.\<close>

lemma led_read_undisturbed:
  assumes "lt_pc s i = Outside" and "\<not> lt_locked s"
    and "pi2_led_read (led_dev.truncate s) cnt ppos room = (r, ppos', data, tr)"
  shows "\<exists>t. (led_step i)\<^sup>*\<^sup>* s t \<and> lt_pc t i = Done r \<and> led_state t = led_state s \<and> \<not> lt_locked t \<and>
    lt_out t = (if r = 2 then lt_out s @ [(i, data)] else lt_out s)"
proof (cases "ppos > 0")
  case True
  then have "led_step i s (lt_goto s i (Done 0))" using assms(1) read_end by blast
  moreover have "r = 0" using assms(3) True by (simp add: pi2_led_read_def)
  ultimately show ?thesis using assms(2) by (intro exI [of _ "lt_goto s i (Done 0)"]) simp
next
  case False
  let ?c = "if led_state s \<noteq> 0 then 1 else 0"
  let ?s1 = "lt_goto s i (R_lock cnt room)"
  let ?s2 = "(lt_goto ?s1 i (R_state cnt room))\<lparr>lt_locked := True\<rparr>"
  let ?s3 = "lt_goto ?s2 i (R_unlock cnt room ?c)"
  let ?s4 = "(lt_goto ?s3 i (R_copy cnt room ?c))\<lparr>lt_locked := False\<rparr>"
  have "led_step i s ?s1" using assms(1) by (intro call_read [of s i 0]) simp_all
  moreover have "led_step i ?s1 ?s2" by (rule read_lock) (use assms(2) in simp_all)
  moreover have "led_step i ?s2 ?s3" using read_state [of ?s2 i cnt room] by simp
  moreover have "led_step i ?s3 ?s4" by (rule read_unlock) simp
  ultimately have go: "(led_step i)\<^sup>*\<^sup>* s ?s4" by (meson converse_rtranclp_into_rtranclp rtranclp.rtrancl_refl)
  obtain d l where c: "copy_to_user [lamp_char ?c, NL] room 2 = (d, l)" by force
  have k: "[lamp_char ?c, NL] = [if led_state s \<noteq> 0 then CHR ''1'' else CHR ''0'', NL]" by (simp add: lamp_char_def)
  consider "cnt < 2" "r = - EINVAL" | "\<not> cnt < 2" "l \<noteq> 0" "r = - EFAULT" | "\<not> cnt < 2" "l = 0" "r = 2" "data = d"
    using assms(3) False c unfolding k
    by (auto simp: pi2_led_read_def led_dev.truncate_def numeral_2_eq_2 Let_def split: if_splits)
  then show ?thesis
  proof cases
    case 1
    then have "led_step i ?s4 (lt_goto ?s4 i (Done r))" using read_short [of ?s4 i cnt room ?c] by simp
    with go show ?thesis using 1 by (intro exI [of _ "lt_goto ?s4 i (Done r)"]) (simp add: errno)
  next
    case 2
    then have "led_step i ?s4 (lt_goto ?s4 i (Done r))" using read_fault [of ?s4 i cnt room ?c d l] c by simp
    with go show ?thesis using 2 by (intro exI [of _ "lt_goto ?s4 i (Done r)"]) (simp add: errno)
  next
    case 3
    let ?t = "(lt_goto ?s4 i (Done 2))\<lparr>lt_out := lt_out ?s4 @ [(i, d)]\<rparr>"
    have "led_step i ?s4 ?t" by (rule read_copy [of _ _ cnt room ?c]) (use 3 c in simp_all)
    with go show ?thesis using 3 by (intro exI [of _ ?t]) simp
  qed
qed

lemma led_write_undisturbed:
  assumes "lt_pc s i = Outside" and "\<not> lt_locked s"
    and "pi2_led_write (led_dev.truncate s) ubuf cnt = (r, d, tr)"
  shows "\<exists>t. (led_step i)\<^sup>*\<^sup>* s t \<and> lt_pc t i = Done r \<and> led_dev.truncate t = d \<and>
    lt_pin t = pin_level (led_gpio s) (lt_pin s) tr \<and> \<not> lt_locked t \<and> lt_out t = lt_out s"
proof -
  obtain cmd l where c: "copy_from_user [NUL] ubuf 1 = (cmd, l)" by force
  note w = assms(3) [unfolded pi2_led_write_def c case_prod_conv]
  consider "cnt < 1" | "\<not> cnt < 1" "l \<noteq> 0" | "\<not> cnt < 1" "l = 0" by blast
  then show ?thesis
  proof cases
    case 1
    have "led_step i s (lt_goto s i (Done (- EINVAL)))" using assms(1) 1 by (rule write_none)
    then show ?thesis using w 1 assms(2)
      by (intro exI [of _ "lt_goto s i (Done (- EINVAL))"]) (auto simp: led_dev.truncate_def)
  next
    case 2
    have "led_step i s (lt_goto s i (Done (- EFAULT)))" using assms(1) 2(1) c 2(2) by (rule write_fault)
    then show ?thesis using w 2 assms(2)
      by (intro exI [of _ "lt_goto s i (Done (- EFAULT))"]) (auto simp: led_dev.truncate_def)
  next
    case 3
    let ?s1 = "lt_goto s i (W_lock ubuf (hd cmd) cnt)"
    let ?s2 = "(lt_goto ?s1 i (W_test ubuf (hd cmd) cnt))\<lparr>lt_locked := True\<rparr>"
    have a: "led_step i s ?s1" using assms(1) 3 c by (intro call_write) simp_all
    have b: "led_step i ?s1 ?s2" by (rule write_lock) (use assms(2) in simp_all)
    have go: "(led_step i)\<^sup>*\<^sup>* s ?s2" using a b by (meson converse_rtranclp_into_rtranclp rtranclp.rtrancl_refl)
    show ?thesis
    proof (cases "hd cmd = CHR ''1'' \<or> hd cmd = CHR ''0''")
      case True
      let ?v = "if hd cmd = CHR ''1'' then 1 else 0 :: int"
      let ?s3 = "lt_goto ?s2 i (W_pin ubuf ?v cnt)"
      let ?s4 = "(lt_goto ?s3 i (W_state ubuf ?v cnt))\<lparr>lt_pin := ?v\<rparr>"
      let ?s5 = "(lt_goto ?s4 i (W_unlock cnt))\<lparr>led_state := ?v\<rparr>"
      let ?s6 = "(lt_goto ?s5 i (Done (int cnt)))\<lparr>lt_locked := False\<rparr>"
      have "led_step i ?s2 ?s3"
        using True test_on [of ?s2 i ubuf "hd cmd" cnt] test_off [of ?s2 i ubuf "hd cmd" cnt] by auto
      moreover have "led_step i ?s3 ?s4" by (rule set_pin) simp
      moreover have "led_step i ?s4 ?s5" by (rule set_state) simp
      moreover have "led_step i ?s5 ?s6" by (rule write_unlock) simp
      ultimately have "(led_step i)\<^sup>*\<^sup>* s ?s6" using go by (meson rtranclp.rtrancl_into_rtrancl)
      then show ?thesis
        using w 3 True by (intro exI [of _ ?s6]) (auto simp: led_dev.truncate_def)
    next
      case False
      let ?s3 = "lt_goto ?s2 i W_reject"
      let ?s4 = "(lt_goto ?s3 i (Done (- EINVAL)))\<lparr>lt_locked := False\<rparr>"
      have "led_step i ?s2 ?s3" using False by (intro test_other [of _ _ ubuf "hd cmd" cnt]) simp_all
      moreover have "led_step i ?s3 ?s4" by (rule reject) simp
      ultimately have "(led_step i)\<^sup>*\<^sup>* s ?s4" using go by (meson rtranclp.rtrancl_into_rtrancl)
      then show ?thesis
        using w 3 False by (intro exI [of _ ?s4]) (auto simp: led_dev.truncate_def)
    qed
  qed
qed

subsection \<open>Every call returns\<close>

fun led_rank :: "led_pc \<Rightarrow> nat" where
  "led_rank Outside = 0"
| "led_rank (Done r) = 1"
| "led_rank (R_copy cnt room c) = 2"
| "led_rank (R_unlock cnt room c) = 3"
| "led_rank (R_state cnt room) = 4"
| "led_rank (R_lock cnt room) = 5"
| "led_rank W_reject = 2"
| "led_rank (W_unlock cnt) = 2"
| "led_rank (W_state ubuf v cnt) = 3"
| "led_rank (W_pin ubuf v cnt) = 4"
| "led_rank (W_test ubuf cmd cnt) = 5"
| "led_rank (W_lock ubuf cmd cnt) = 6"

lemma led_rank_0 [simp]: "0 < led_rank x \<longleftrightarrow> x \<noteq> Outside"
  by (cases x) auto

definition lt_live :: "led_threads \<Rightarrow> bool" where
  "lt_live s \<longleftrightarrow> lt_inv s \<and> finite {i. lt_pc s i \<noteq> Outside}"

lemma lt_live_step: "led_step i s t \<Longrightarrow> lt_live s \<Longrightarrow> lt_live t"
  using lt_inv_step [of i s t]
  by (auto simp: lt_live_def simp del: fun_upd_apply elim!: led_stepE)

lemma led_nearer:
  assumes "led_step i s t" and "lt_pc s i \<noteq> Outside"
  shows "led_rank (lt_pc t i) < led_rank (lt_pc s i)"
  using assms(1) by cases (use assms(2) in auto)

lemma led_can_move_inside:
  assumes "lt_pc s j \<noteq> Outside" and "critical (lt_pc s j) \<or> \<not> lt_locked s"
  shows "\<exists>t. led_step j s t"
proof (cases "lt_pc s j")
  case (R_copy cnt room c)
  obtain d l where d: "copy_to_user [lamp_char c, NL] room 2 = (d, l)" by force
  show ?thesis
    using read_short [OF R_copy] read_fault [OF R_copy _ d] read_copy [OF R_copy, of d] d by (cases "cnt < 2"; cases l) auto
next
  case (R_lock cnt room)
  then show ?thesis using read_lock [OF R_lock] assms(2) by auto
next
  case (W_lock ubuf cmd cnt)
  then show ?thesis using write_lock [OF W_lock] assms(2) by auto
next
  case (W_test ubuf cmd cnt)
  then show ?thesis using test_on [OF W_test] test_off [OF W_test] test_other [OF W_test] by blast
qed (use assms(1) in simp, (rule exI, rule read_state read_unlock set_pin set_state write_unlock reject return, assumption)+)

lemma led_can_move:
  assumes "lt_inv s" and "lt_pc s i \<noteq> Outside"
  shows "\<exists>j t. led_step j s t \<and> lt_pc s j \<noteq> Outside"
proof (cases "lt_locked s")
  case True
  then obtain j where "critical (lt_pc s j)" using lt_inv_simps(1) [OF assms(1)] by (auto simp: lock_ok_def)
  moreover from this have "lt_pc s j \<noteq> Outside" by auto
  ultimately show ?thesis using led_can_move_inside by blast
qed (use assms(2) led_can_move_inside in blast)

interpretation led_calls: draining led_step "\<lambda>s i. led_rank (lt_pc s i)" lt_live "\<lambda>_. 6"
proof
  fix s t i j
  assume "lt_live s" "led_step i s t"
  then show "0 < led_rank (lt_pc s i) \<Longrightarrow> lt_live t"
    and "0 < led_rank (lt_pc s i) \<Longrightarrow> led_rank (lt_pc t i) < led_rank (lt_pc s i)"
    using lt_live_step led_nearer by auto
  show "j \<noteq> i \<Longrightarrow> led_rank (lt_pc t j) = led_rank (lt_pc s j)"
    using \<open>led_step i s t\<close> by cases auto
next
  fix s i
  show "led_rank (lt_pc s i) \<le> 6" by (cases "lt_pc s i") auto
next
  fix s i
  assume "lt_live s" "0 < led_rank (lt_pc s i)"
  then show "\<exists>j t. led_step j s t \<and> 0 < led_rank (lt_pc s j)"
    using led_can_move [of s i] by (auto simp: lt_live_def)
qed (simp add: lt_live_def)

lemma led_labelled_live: "labelled lt_start led_emits es s \<Longrightarrow> lt_live s"
proof (induction rule: labelled.induct)
  case (lab_start s)
  then show ?case using lt_inv_start by (auto simp: lt_live_def lt_start_def)
next
  case (lab_step es s e t)
  then show ?case using lt_live_step by (auto simp: led_emits_def)
qed

subsection \<open>A sample run\<close>

lemma led_log:
  "labelled lt_start led_emits es s \<Longrightarrow> led_step i s t \<Longrightarrow>
    es' = es @ [led_event i (lt_pc s i) (lt_pc t i)] \<Longrightarrow> labelled lt_start led_emits es' t"
  by (simp, rule lab_step) (auto simp: led_emits_def)

definition lt_two :: "int \<Rightarrow> int \<Rightarrow> bool \<Rightarrow> led_pc \<Rightarrow> led_pc \<Rightarrow> (nat \<times> char list) list \<Rightarrow> led_threads" where
  "lt_two p v l x y g = \<lparr>led_gpio = 5, led_state = v, lt_locked = l, lt_pin = p, lt_pc = (\<lambda>_. Outside)(0 := x, 1 := y), lt_out = g\<rparr>"

lemma lt_two_simps [simp]:
  "led_state (lt_two p v l x y g) = v" "lt_locked (lt_two p v l x y g) = l" "lt_pin (lt_two p v l x y g) = p"
  "lt_pc (lt_two p v l x y g) 0 = x" "lt_pc (lt_two p v l x y g) (Suc 0) = y" "lt_out (lt_two p v l x y g) = g"
  "lt_goto (lt_two p v l x y g) 0 z = lt_two p v l z y g" "lt_goto (lt_two p v l x y g) (Suc 0) z = lt_two p v l x z g"
  "(lt_two p v l x y g)\<lparr>led_state := v'\<rparr> = lt_two p v' l x y g" "(lt_two p v l x y g)\<lparr>lt_locked := l'\<rparr> = lt_two p v l' x y g"
  "(lt_two p v l x y g)\<lparr>lt_pin := p'\<rparr> = lt_two p' v l x y g" "(lt_two p v l x y g)\<lparr>lt_out := g'\<rparr> = lt_two p v l x y g'"
  by (simp_all add: lt_two_def lt_goto_def fun_upd_twist)

text \<open>Thread 1 asks while thread 0 switches the LED on, waits for the mutex, and reads that it is on.\<close>

lemma led_switched_on:
  "labelled lt_start led_emits
      [Silent, Silent, Silent, Silent, Silent, Publish 0 1, Silent, Silent, Obtain 1, Silent, Show 1 1 1]
    (lt_two 1 1 False (Done 1) (Done 2) [(1, [CHR ''1'', NL])])"
proof -
  let ?R = "labelled lt_start led_emits"
  note step = led_log
  have i: "pi2_led_init all_ok pi2_led_static = (0, \<lparr>led_gpio = 5, led_state = 0\<rparr>,
      [Gpio_request 5 0, Gpio_direction_output 5 0 0, Alloc_chrdev_region 0, Cdev_init, Cdev_add 0, Class_create 0, Device_create 0])"
    by (simp add: pi2_led_init_def all_ok_def pi2_led_static_def DEFAULT_LED_GPIO_def Let_def)
  have "?R [] (lt_two 0 0 False Outside Outside [])"
    by (rule lab_start)
      (use i in \<open>auto simp: lt_start_def lt_two_def led_dev.truncate_def pi2_led_static_def DEFAULT_LED_GPIO_def intro!: exI [of _ all_ok] exI [of _ pi2_led_static]\<close>)
  then have "?R [Silent] (lt_two 0 0 False (W_lock ''1'' (CHR ''1'') 1) Outside [])"
    by (rule step [where i = 0]) (use call_write [of "lt_two 0 0 False Outside Outside []" 0 1 "''1''"] in \<open>simp add: copy_one_char\<close>, simp add: led_event_def)
  then have "?R [Silent, Silent] (lt_two 0 0 True (W_test ''1'' (CHR ''1'') 1) Outside [])"
    by (rule step [where i = 0]) (use write_lock [of "lt_two 0 0 False (W_lock ''1'' (CHR ''1'') 1) Outside []" 0] in simp, simp add: led_event_def)
  then have "?R [Silent, Silent, Silent] (lt_two 0 0 True (W_test ''1'' (CHR ''1'') 1) (R_lock 2 2) [])"
    by (rule step [where i = 1]) (use call_read [of "lt_two 0 0 True (W_test ''1'' (CHR ''1'') 1) Outside []" 1 0 2 2] in simp, simp add: led_event_def)
  then have "?R [Silent, Silent, Silent, Silent] (lt_two 0 0 True (W_pin ''1'' 1 1) (R_lock 2 2) [])"
    by (rule step [where i = 0]) (use test_on [of "lt_two 0 0 True (W_test ''1'' (CHR ''1'') 1) (R_lock 2 2) []" 0] in simp, simp add: led_event_def)
  then have "?R [Silent, Silent, Silent, Silent, Silent] (lt_two 1 0 True (W_state ''1'' 1 1) (R_lock 2 2) [])"
    by (rule step [where i = 0]) (use set_pin [of "lt_two 0 0 True (W_pin ''1'' 1 1) (R_lock 2 2) []" 0] in simp, simp add: led_event_def)
  then have "?R [Silent, Silent, Silent, Silent, Silent, Publish 0 1] (lt_two 1 1 True (W_unlock 1) (R_lock 2 2) [])"
    by (rule step [where i = 0]) (use set_state [of "lt_two 1 0 True (W_state ''1'' 1 1) (R_lock 2 2) []" 0] in simp, simp add: led_event_def command_def)
  then have "?R [Silent, Silent, Silent, Silent, Silent, Publish 0 1, Silent] (lt_two 1 1 False (Done 1) (R_lock 2 2) [])"
    by (rule step [where i = 0]) (use write_unlock [of "lt_two 1 1 True (W_unlock 1) (R_lock 2 2) []" 0] in simp, simp add: led_event_def)
  then have "?R [Silent, Silent, Silent, Silent, Silent, Publish 0 1, Silent, Silent] (lt_two 1 1 True (Done 1) (R_state 2 2) [])"
    by (rule step [where i = 1]) (use read_lock [of "lt_two 1 1 False (Done 1) (R_lock 2 2) []" 1] in simp, simp add: led_event_def)
  then have "?R [Silent, Silent, Silent, Silent, Silent, Publish 0 1, Silent, Silent, Obtain 1] (lt_two 1 1 True (Done 1) (R_unlock 2 2 1) [])"
    by (rule step [where i = 1]) (use read_state [of "lt_two 1 1 True (Done 1) (R_state 2 2) []" 1] in simp, simp add: led_event_def)
  then have "?R [Silent, Silent, Silent, Silent, Silent, Publish 0 1, Silent, Silent, Obtain 1, Silent] (lt_two 1 1 False (Done 1) (R_copy 2 2 1) [])"
    by (rule step [where i = 1]) (use read_unlock [of "lt_two 1 1 True (Done 1) (R_unlock 2 2 1) []" 1] in simp, simp add: led_event_def)
  then show ?thesis
    by (rule step [where i = 1])
      (use read_copy [of "lt_two 1 1 False (Done 1) (R_copy 2 2 1) []" 1 2 2 1 "[CHR ''1'', NL]"] in \<open>simp add: copy_to_user_def lamp_char_def\<close>, simp add: led_event_def)
qed

definition led_sample_log :: "reg_event list" where
  "led_sample_log = [Silent, Silent, Silent, Silent, Silent, Publish 0 1, Silent, Silent, Obtain 1, Silent, Show 1 1 1]"

text \<open>No schedule keeps a call of the LED device from returning.\<close>

lemma led_calls_return:
  assumes "labelled lt_start led_emits es s"
    and "((\<lambda>s t. \<exists>i. led_step i s t \<and> lt_pc s i \<noteq> Outside) ^^ m) s t"
  shows "m \<le> 6 * card {i. lt_pc s i \<noteq> Outside} \<and>
    ((\<exists>i. lt_pc t i \<noteq> Outside) \<longrightarrow> (\<exists>u i. led_step i t u \<and> lt_pc t i \<noteq> Outside))"
  using led_calls.calls_return [of m s t] led_labelled_live [OF assms(1)] assms(2) by simp

text \<open>In a history of a register a value that is shown was the register's when its reader looked.\<close>

lemma shown_in_history:
  assumes "reg_run es reg_zero = Some r" and "es = es1 @ Obtain i # es2 @ Show i v v' # es3"
    and "\<forall>w w'. Show i w w' \<notin> set es2" and "Obtain i \<notin> set es2"
  shows "v = last_value 0 es1"
proof -
  have "reg_run (es1 @ Obtain i # es2 @ [Show i v v']) reg_zero \<noteq> None"
    using assms(1) spec_run_append [of reg_next "es1 @ Obtain i # es2 @ [Show i v v']" es3 reg_zero]
    by (auto simp: assms(2) split: option.splits)
  then show ?thesis using shown_was_current [of es1 i es2 v v' reg_zero] assms(3,4) by (simp add: reg_zero_def)
qed

lemma lt_pin_free: "lt_inv s \<Longrightarrow> \<not> lt_locked s \<Longrightarrow> lt_pin s = led_state s"
proof -
  assume s: "lt_inv s" "\<not> lt_locked s"
  have "pin_ahead (lt_pc s i) = None" for i
    using s lt_inv_simps(1) [OF s(1)] ahead_critical by (cases "pin_ahead (lt_pc s i)") (auto simp: lock_ok_def)
  then show ?thesis using lt_inv_simps(2) [OF s(1)] by (simp add: pin_ok_def)
qed

subsection \<open>Properties\<close>

text \<open>
  C5. The LED device under concurrency, from a successful load: whatever threads are inside
  its file operations and however their steps interleave, the run is a history of an atomic
  register, set by each accepted write to what the first byte its caller passed orders, 1
  for \<open>1\<close> and 0 for \<open>0\<close>, and by nothing else. \<open>led_state\<close> is the last command, the pin has
  it whenever the mutex is free, and the readers are handed, in order, the character of the
  state each of them found.
\<close>

theorem led_linearizable:
  assumes "labelled lt_start led_emits es s"
  shows "reg_run es reg_zero \<noteq> None \<and> led_state s = int (last_value 0 es) \<and>
    (\<not> lt_locked s \<longrightarrow> lt_pin s = led_state s) \<and> lt_out s = readings es \<and>
    (\<forall>es1 i es2 v es3. es = es1 @ Obtain i # es2 @ Show i v v # es3 \<longrightarrow>
       (\<forall>w w'. Show i w w' \<notin> set es2) \<longrightarrow> Obtain i \<notin> set es2 \<longrightarrow> v = last_value 0 es1)"
proof -
  obtain r where r: "reg_run es reg_zero = Some r" "lt_rel s r"
    using led_register.refines [OF assms] by blast
  have "led_state s = int (last_value 0 es)"
    using r(2) reg_run_value [OF r(1)] by (simp add: lt_rel_def reg_zero_def)
  moreover have "lt_inv s" using r(2) by (simp add: lt_rel_def)
  ultimately show ?thesis
    using r(1) lt_pin_free [of s] led_readings [OF assms] shown_in_history [OF r(1)] by simp
qed

theorem led_linearizable_witness:
  "\<exists>s :: led_threads. labelled lt_start led_emits led_sample_log s \<and> led_state s = 1 \<and>
     led_state s = int (last_value 0 led_sample_log) \<and> lt_pin s = 1 \<and> lt_out s = readings led_sample_log \<and>
     (1, [CHR ''1'', NL]) \<in> set (lt_out s) \<and> 1 = last_value 0 (take 8 led_sample_log)"
proof -
  let ?s = "lt_two 1 1 False (Done 1) (Done 2) [(1, [CHR ''1'', NL])]"
  note l = led_switched_on [folded led_sample_log_def]
  note p = led_linearizable [OF l]
  have "1 = last_value 0 (take 8 led_sample_log)"
    using p [THEN conjunct2, THEN conjunct2, THEN conjunct2, THEN conjunct2, rule_format,
      of "take 8 led_sample_log" 1 "[Silent]" 1 "[]"]
    by (simp add: led_sample_log_def)
  moreover have "led_state ?s = int (last_value 0 led_sample_log)" "lt_pin ?s = led_state ?s"
      "lt_out ?s = readings led_sample_log"
    using p by simp_all
  moreover have "led_state ?s = 1" "lt_pin ?s = 1" "(1, [CHR ''1'', NL]) \<in> set (lt_out ?s)" by simp_all
  ultimately show ?thesis using l by blast
qed

end
