(* ===== verification/Gate_Server.thy ===== *)
theory Gate_Server
  imports Led_Driver
begin

text \<open>
  team/server_pi_app.c: the occupancy server of the second Pi. It counts the people inside
  (at most \<open>MAX_COUNT\<close>), answers entry and exit requests that arrive over MQTT and keeps the
  inside LED on while somebody is inside. The static variables are the record \<open>server\<close>;
  every call that leaves the program (the MQTT library, the terminal, the mutex) is an
  element of the action list a function returns; the LED device is reached through
  \<open>write\<close>, which is a parameter \<open>wr\<close> here and becomes the driver's own write in
  the theorems. The MQTT library is not under src/: what its calls return and
  which messages it delivers are inputs.
\<close>

definition MAX_COUNT :: int where "MAX_COUNT = 5"
definition LED_DEV_PATH :: string where "LED_DEV_PATH = ''/dev/pi2_led_dev''"
definition TOPIC_ENTRY_REQUEST :: string where "TOPIC_ENTRY_REQUEST = ''entry/request''"
definition TOPIC_EXIT_REQUEST :: string where "TOPIC_EXIT_REQUEST = ''exit/request''"
definition TOPIC_ENTRY_RESPONSE :: string where "TOPIC_ENTRY_RESPONSE = ''entry/response''"
definition TOPIC_EXIT_RESPONSE :: string where "TOPIC_EXIT_RESPONSE = ''exit/response''"
definition TOPIC_SYSTEM_STATUS :: string where "TOPIC_SYSTEM_STATUS = ''system/status''"

lemmas topics = TOPIC_ENTRY_REQUEST_def TOPIC_EXIT_REQUEST_def TOPIC_ENTRY_RESPONSE_def
  TOPIC_EXIT_RESPONSE_def TOPIC_SYSTEM_STATUS_def

record server =
  running :: bool
  current_count :: int
  led_fd :: int

definition server_static :: server where
  "server_static = \<lparr>running = True, current_count = 0, led_fd = - 1\<rparr>"

text \<open>
  A message as the library hands it over: the payload pointer may be null. A line on the
  terminal is \<open>Say\<close>, one on the error output \<open>Complain\<close>; \<open>Complain_why\<close> is the latter with
  the reason that the system or the library words after it.
\<close>

record mosq_message =
  topic :: string
  payload :: "char list option"
  payloadlen :: int

datatype action =
    Publish string int string
  | Subscribe string
  | Count_lock
  | Count_unlock
  | Open_led int
  | Close_led
  | Lib_init
  | Lib_cleanup
  | Mosq_new bool
  | Mosq_connect int
  | Mosq_loop int
  | Mosq_reconnect
  | Mosq_disconnect
  | Mosq_destroy
  | Sleep_one
  | Catch string
  | Say string
  | Complain string
  | Complain_why string

subsection \<open>Helpers\<close>

definition handle_signal :: "server \<Rightarrow> server" where
  "handle_signal s = s\<lparr>running := False\<rparr>"

text \<open>The comparison is of the first \<open>strlen(s)\<close> bytes, after the lengths agreed.\<close>

definition payload_equals :: "mosq_message \<Rightarrow> string \<Rightarrow> bool" where
  "payload_equals msg str =
     (let len = int (length str) in
      case payload msg of
        None \<Rightarrow> False
      | Some p \<Rightarrow> if payloadlen msg \<noteq> len then False else take (length str) p = str)"

text \<open>What the format \<open>%.*s\<close> prints of a payload: at most \<open>payloadlen\<close> bytes, up to the first NUL.\<close>

definition payload_text :: "mosq_message \<Rightarrow> string" where
  "payload_text msg =
     (case payload msg of
        None \<Rightarrow> []
      | Some p \<Rightarrow> if payloadlen msg < 0 then cstring p else cstring (take (nat (payloadlen msg)) p))"

text \<open>\<open>wr d u n\<close> is write(led_fd, u, n) on the device state \<open>d\<close>: its result and the new state.\<close>

definition set_inside_led ::
  "('d \<Rightarrow> char list \<Rightarrow> nat \<Rightarrow> int \<times> 'd) \<Rightarrow> bool \<Rightarrow> server \<Rightarrow> 'd \<Rightarrow> 'd \<times> action list" where
  "set_inside_led wr on s d =
     (let value = (if on then CHR ''1'' else CHR ''0'') in
      if led_fd s < 0 then (d, [Complain (''[LED] device is not open'' @ [NL])])
      else let (ret, d1) = wr d [value] 1 in
        (d1, if ret < 0 then [Complain_why ''write LED device''] else []))"

definition update_inside_led ::
  "('d \<Rightarrow> char list \<Rightarrow> nat \<Rightarrow> int \<times> 'd) \<Rightarrow> server \<Rightarrow> 'd \<Rightarrow> 'd \<times> action list" where
  "update_inside_led wr s d = set_inside_led wr (current_count s > 0) s d"

text \<open>snprintf into a buffer of 128 bytes keeps at most 127 characters.\<close>

definition status_text :: "int \<Rightarrow> string" where
  "status_text c =
     (let full = (if c \<ge> MAX_COUNT then 1 else 0) in
      take 127 (''count='' @ dec_int c @ '',max='' @ dec_int MAX_COUNT @ '',full='' @ dec_int full))"

definition publish_status :: "server \<Rightarrow> action list" where
  "publish_status s =
     (let status = status_text (current_count s) in
      [Publish TOPIC_SYSTEM_STATUS (int (length status)) status, Say (''[STATUS] '' @ status @ [NL])])"

subsection \<open>Request handlers and callbacks\<close>

definition handle_entry_request :: "server \<Rightarrow> server \<times> action list" where
  "handle_entry_request s =
     (if current_count s < MAX_COUNT then
        let s1 = s\<lparr>current_count := current_count s + 1\<rparr> in
        (s1, [Publish TOPIC_ENTRY_RESPONSE 5 ''ALLOW'',
              Say (''[ENTRY] ALLOW, current_count='' @ dec_int (current_count s1) @ [NL])])
      else
        (s, [Publish TOPIC_ENTRY_RESPONSE 4 ''DENY'',
             Say (''[ENTRY] DENY, full, current_count='' @ dec_int (current_count s) @ [NL])]))"

definition handle_exit_request :: "server \<Rightarrow> server \<times> action list" where
  "handle_exit_request s =
     (if current_count s > 0 then
        let s1 = s\<lparr>current_count := current_count s - 1\<rparr> in
        (s1, [Publish TOPIC_EXIT_RESPONSE 5 ''ALLOW'',
              Say (''[EXIT] ALLOW, current_count='' @ dec_int (current_count s1) @ [NL])])
      else
        (s, [Publish TOPIC_EXIT_RESPONSE 4 ''DENY'', Say (''[EXIT] DENY, current_count=0'' @ [NL])]))"

definition on_connect :: "int \<Rightarrow> action list" where
  "on_connect rc =
     (if rc = 0 then
        [Say (''[MQTT] connected to broker'' @ [NL]), Subscribe TOPIC_ENTRY_REQUEST, Subscribe TOPIC_EXIT_REQUEST,
         Say (''[MQTT] subscribed: '' @ TOPIC_ENTRY_REQUEST @ '', '' @ TOPIC_EXIT_REQUEST @ [NL])]
      else [Complain (''[MQTT] connection failed rc='' @ dec_int rc @ [NL])])"

text \<open>The chain of comparisons of on_message, and on_message around it.\<close>

definition answer_message :: "mosq_message \<Rightarrow> server \<Rightarrow> server \<times> action list" where
  "answer_message msg s =
     (if topic msg = TOPIC_EXIT_REQUEST \<and> payload_equals msg ''EXIT'' then handle_exit_request s
      else if topic msg = TOPIC_ENTRY_REQUEST \<and> payload_equals msg ''ENTER'' then handle_entry_request s
      else (s, [Say (''[WARN] unknown message ignored'' @ [NL])]))"

definition on_message ::
  "('d \<Rightarrow> char list \<Rightarrow> nat \<Rightarrow> int \<times> 'd) \<Rightarrow> mosq_message \<Rightarrow> server \<Rightarrow> 'd \<Rightarrow> server \<times> 'd \<times> action list" where
  "on_message wr msg s d =
     (let recv = Say (''[MQTT] recv topic='' @ topic msg @ '' payload='' @ payload_text msg @ [NL]);
          (s1, acts) = answer_message msg s;
          (d1, led) = update_inside_led wr s1 d
      in (s1, d1, [recv, Count_lock] @ acts @ led @ publish_status s1 @ [Count_unlock]))"

subsection \<open>The main program\<close>

text \<open>
  One call of mosquitto_loop runs the callbacks for what arrived and returns a code; a
  signal may arrive during it. What happens in each iteration is the script the
  environment chooses.
\<close>

datatype callback =
    Connected int
  | Message mosq_message
  | Signal

fun run_callback ::
  "('d \<Rightarrow> char list \<Rightarrow> nat \<Rightarrow> int \<times> 'd) \<Rightarrow> callback \<Rightarrow> server \<Rightarrow> 'd \<Rightarrow> server \<times> 'd \<times> action list" where
  "run_callback wr (Connected rc) s d = (s, d, on_connect rc)"
| "run_callback wr (Message m) s d = on_message wr m s d"
| "run_callback wr Signal s d = (handle_signal s, d, [])"

fun run_callbacks ::
  "('d \<Rightarrow> char list \<Rightarrow> nat \<Rightarrow> int \<times> 'd) \<Rightarrow> callback list \<Rightarrow> server \<Rightarrow> 'd \<Rightarrow> server \<times> 'd \<times> action list" where
  "run_callbacks wr [] s d = (s, d, [])"
| "run_callbacks wr (c # cs) s d =
     (let (s1, d1, a1) = run_callback wr c s d; (s2, d2, a2) = run_callbacks wr cs s1 d1
      in (s2, d2, a1 @ a2))"

text \<open>
  The while loop over a script of iterations (callbacks run, code returned); None when
  the script ends while the loop is still running.
\<close>

fun main_loop ::
  "('d \<Rightarrow> char list \<Rightarrow> nat \<Rightarrow> int \<times> 'd) \<Rightarrow> (callback list \<times> int) list \<Rightarrow> server \<Rightarrow> 'd \<Rightarrow>
     (server \<times> 'd \<times> action list) option" where
  "main_loop wr script s d =
     (if \<not> running s then Some (s, d, [])
      else case script of
        [] \<Rightarrow> None
      | (cs, rc) # script' \<Rightarrow>
          let (s1, d1, a1) = run_callbacks wr cs s d;
              a2 = (if rc \<noteq> 0 then [Complain_why ''mosquitto_loop error'', Sleep_one, Mosq_reconnect] else [])
          in case main_loop wr script' s1 d1 of
               None \<Rightarrow> None
             | Some (s2, d2, a3) \<Rightarrow> Some (s2, d2, Mosq_loop rc # a1 @ a2 @ a3))"

declare main_loop.simps [simp del]

text \<open>
  \<open>main\<close>: \<open>fd\<close> is what open returns, \<open>new_ok\<close> whether mosquitto_new succeeds, \<open>rc\<close> the code
  of mosquitto_connect, \<open>early\<close> whether a signal arrives once its handler is installed and
  before the loop tests \<open>running\<close> for the first time (nothing else reads it, so it does not
  matter when). The result is the exit status, the final state and the actions.
\<close>

definition server_main ::
  "('d \<Rightarrow> char list \<Rightarrow> nat \<Rightarrow> int \<times> 'd) \<Rightarrow> int \<Rightarrow> bool \<Rightarrow> int \<Rightarrow> bool \<Rightarrow> (callback list \<times> int) list \<Rightarrow>
     server \<Rightarrow> 'd \<Rightarrow> (int \<times> server \<times> 'd \<times> action list) option" where
  "server_main wr fd new_ok rc early script s d =
     (let s = (if early then handle_signal s else s)\<lparr>led_fd := fd\<rparr>; t1 = [Catch ''SIGINT'', Catch ''SIGTERM'', Open_led fd] in
      if led_fd s < 0 then
        Some (1, s, d, t1 @ [Complain_why (''failed to open '' @ LED_DEV_PATH),
          Complain (''check: sudo insmod pi2_led_driver.ko && sudo sh mknod.sh'' @ [NL])])
      else let (d1, l1) = set_inside_led wr False s d; t2 = t1 @ l1 @ [Lib_init, Mosq_new new_ok] in
      if \<not> new_ok then Some (1, s, d1, t2 @ [Complain (''mosquitto_new failed'' @ [NL]), Close_led, Lib_cleanup])
      else let t3 = t2 @ [Mosq_connect rc] in
      if rc \<noteq> 0 then
        Some (1, s, d1, t3 @ [Complain_why ''mosquitto_connect failed'', Mosq_destroy, Close_led, Lib_cleanup])
      else case main_loop wr script s d1 of
        None \<Rightarrow> None
      | Some (s1, d2, a) \<Rightarrow>
          let (d3, l2) = set_inside_led wr False s1 d2 in
          Some (0, s1, d3,
            t3 @ [Say (''Pi2 server application started. MAX_COUNT='' @ dec_int MAX_COUNT @ [NL])] @ a @
            [Say (''Pi2 server application stopping...'' @ [NL])] @ l2 @
            [Mosq_disconnect, Mosq_destroy, Lib_cleanup, Close_led]))"

subsection \<open>The LED device as the server sees it\<close>

text \<open>
  The contract between the server and the device it writes to: after a one-byte write of
  \<open>1\<close> the lamp is lit, after one of \<open>0\<close> it is dark, and the device stays usable.
\<close>

definition led_in_step :: "('d \<Rightarrow> bool) \<Rightarrow> ('d \<Rightarrow> bool) \<Rightarrow> server \<Rightarrow> 'd \<Rightarrow> bool" where
  "led_in_step usable lit s d \<longleftrightarrow> usable d \<and> 0 \<le> led_fd s \<and> (lit d \<longleftrightarrow> 0 < current_count s)"

lemma answer_message_keeps [simp]:
  "led_fd (fst (answer_message m s)) = led_fd s" "running (fst (answer_message m s)) = running s"
  by (simp_all add: answer_message_def handle_exit_request_def handle_entry_request_def Let_def)

lemma on_message_device:
  assumes "on_message wr m s d = (s', d', a)"
  shows "d' = fst (set_inside_led wr (0 < current_count s') s' d)" and "led_fd s' = led_fd s"
    and "running s' = running s"
  using assms
  by (auto simp: on_message_def update_inside_led_def Let_def case_prod_beta)

locale led_port =
  fixes wr :: "'d \<Rightarrow> char list \<Rightarrow> nat \<Rightarrow> int \<times> 'd"
    and usable :: "'d \<Rightarrow> bool"
    and lit :: "'d \<Rightarrow> bool"
  assumes write_on: "usable d \<Longrightarrow> usable (snd (wr d ''1'' 1)) \<and> lit (snd (wr d ''1'' 1))"
    and write_off: "usable d \<Longrightarrow> usable (snd (wr d ''0'' 1)) \<and> \<not> lit (snd (wr d ''0'' 1))"
begin

lemma set_led:
  "usable d \<Longrightarrow> usable (fst (set_inside_led wr on s d)) \<and>
     (0 \<le> led_fd s \<longrightarrow> lit (fst (set_inside_led wr on s d)) = on)"
  using write_on [of d] write_off [of d] by (auto simp: set_inside_led_def Let_def split: prod.splits)

lemma on_message_led:
  assumes "on_message wr m s d = (s', d', a)" and "usable d" and "0 \<le> led_fd s"
  shows "usable d' \<and> (lit d' \<longleftrightarrow> 0 < current_count s') \<and> led_fd s' = led_fd s"
  using set_led [OF assms(2), of "0 < current_count s'" s'] assms(3) on_message_device [OF assms(1)] by simp

lemma run_callback_led:
  "run_callback wr c s d = (s', d', a) \<Longrightarrow> led_in_step usable lit s d \<Longrightarrow> led_in_step usable lit s' d'"
  using on_message_led by (cases c) (auto simp: led_in_step_def handle_signal_def)

lemma run_callbacks_led:
  "run_callbacks wr cs s d = (s', d', a) \<Longrightarrow> led_in_step usable lit s d \<Longrightarrow> led_in_step usable lit s' d'"
proof (induction cs arbitrary: s d a)
  case (Cons c cs)
  obtain s1 d1 a1 where c: "run_callback wr c s d = (s1, d1, a1)" by (metis prod_cases3)
  obtain s2 d2 a2 where r: "run_callbacks wr cs s1 d1 = (s2, d2, a2)" by (metis prod_cases3)
  show ?case
    using Cons.IH [of s1 d1 a2] Cons.prems c r run_callback_led [OF c] by simp
qed simp

lemma main_loop_led:
  "main_loop wr script s d = Some (s', d', a) \<Longrightarrow> led_in_step usable lit s d \<Longrightarrow>
    led_in_step usable lit s' d' \<and> \<not> running s'"
proof (induction script arbitrary: s d a)
  case Nil
  then show ?case by (subst (asm) main_loop.simps) (auto split: if_splits)
next
  case (Cons it script)
  obtain cs rc where it: "it = (cs, rc)" by force
  obtain s1 d1 a1 where r: "run_callbacks wr cs s d = (s1, d1, a1)" by (metis prod_cases3)
  show ?case
    using Cons.prems Cons.IH [of s1 d1] run_callbacks_led [OF r]
    by (subst (asm) main_loop.simps) (auto simp: it r split: if_splits option.splits)
qed

end

subsection \<open>The LED device of this system\<close>

text \<open>The driver of theory \<open>Led_Driver\<close> together with the level of its pin.\<close>

definition led_device_write :: "led_dev \<times> int \<Rightarrow> char list \<Rightarrow> nat \<Rightarrow> int \<times> (led_dev \<times> int)" where
  "led_device_write d u n =
     (let (r, s', tr) = pi2_led_write (fst d) u n in (r, (s', pin_level (led_gpio (fst d)) (snd d) tr)))"

definition pin_lit :: "led_dev \<times> int \<Rightarrow> bool" where
  "pin_lit d \<longleftrightarrow> snd d = 1"

interpretation inside_led: led_port led_device_write "\<lambda>_. True" pin_lit
  by unfold_locales (auto simp: led_device_write_def pin_lit_def led_write_cases)

subsection \<open>The abstract gate\<close>

text \<open>
  The specification: a room for at most five people. Entering is allowed while there is
  room, leaving while somebody is inside; every request is answered on its own topic.
\<close>

datatype gate_request = Enter | Leave | Unknown

type_synonym reply = "string \<times> string"

fun gate_step :: "nat \<Rightarrow> gate_request \<Rightarrow> nat \<times> reply list" where
  "gate_step n Enter =
     (if n < 5 then (Suc n, [(''entry/response'', ''ALLOW'')]) else (n, [(''entry/response'', ''DENY'')]))"
| "gate_step n Leave =
     (if 0 < n then (n - 1, [(''exit/response'', ''ALLOW'')]) else (n, [(''exit/response'', ''DENY'')]))"
| "gate_step n Unknown = (n, [])"

fun gate_run :: "nat \<Rightarrow> gate_request list \<Rightarrow> nat \<times> reply list" where
  "gate_run n [] = (n, [])"
| "gate_run n (q # qs) =
     (let (n1, r1) = gate_step n q; (n2, r2) = gate_run n1 qs in (n2, r1 @ r2))"

text \<open>The counts after each request.\<close>

fun gate_counts :: "nat \<Rightarrow> gate_request list \<Rightarrow> nat list" where
  "gate_counts n [] = []"
| "gate_counts n (q # qs) = fst (gate_step n q) # gate_counts (fst (gate_step n q)) qs"

lemma gate_counts_le: "n \<le> 5 \<Longrightarrow> c \<in> set (gate_counts n qs) \<Longrightarrow> c \<le> 5"
proof (induction qs arbitrary: n)
  case (Cons q qs)
  have "fst (gate_step n q) \<le> 5" using Cons.prems(1) by (cases q) auto
  then show ?case using Cons by auto
qed simp

lemma gate_counts_append: "gate_counts n (qs @ qs') = gate_counts n qs @ gate_counts (fst (gate_run n qs)) qs'"
  by (induction qs arbitrary: n) (auto simp: Let_def split: prod.splits)

text \<open>What a message asks for, when its payload has the length it says.\<close>

definition well_formed :: "mosq_message \<Rightarrow> bool" where
  "well_formed m \<longleftrightarrow> (case payload m of None \<Rightarrow> True | Some p \<Rightarrow> payloadlen m = int (length p))"

definition request_of :: "mosq_message \<Rightarrow> gate_request" where
  "request_of m =
     (if topic m = ''exit/request'' \<and> payload m = Some ''EXIT'' then Leave
      else if topic m = ''entry/request'' \<and> payload m = Some ''ENTER'' then Enter
      else Unknown)"

fun requests :: "callback list \<Rightarrow> gate_request list" where
  "requests [] = []"
| "requests (Message m # cs) = request_of m # requests cs"
| "requests (_ # cs) = requests cs"

fun messages :: "callback list \<Rightarrow> mosq_message list" where
  "messages [] = []"
| "messages (Message m # cs) = m # messages cs"
| "messages (_ # cs) = messages cs"

text \<open>The replies and the status reports among the published messages, and the reports on the terminal.\<close>

fun replies :: "action list \<Rightarrow> reply list" where
  "replies [] = []"
| "replies (Publish t n p # as) =
     (if t = TOPIC_SYSTEM_STATUS then replies as else (t, take (nat n) p) # replies as)"
| "replies (_ # as) = replies as"

fun statuses :: "action list \<Rightarrow> string list" where
  "statuses [] = []"
| "statuses (Publish t n p # as) =
     (if t = TOPIC_SYSTEM_STATUS then take (nat n) p # statuses as else statuses as)"
| "statuses (_ # as) = statuses as"

fun shown_statuses :: "action list \<Rightarrow> string list" where
  "shown_statuses [] = []"
| "shown_statuses (Say t # as) =
     (if take 9 t = ''[STATUS] '' then drop 9 (butlast t) # shown_statuses as else shown_statuses as)"
| "shown_statuses (_ # as) = shown_statuses as"

lemma replies_append [simp]: "replies (xs @ ys) = replies xs @ replies ys"
  by (induction xs rule: replies.induct) auto

lemma statuses_append [simp]: "statuses (xs @ ys) = statuses xs @ statuses ys"
  by (induction xs rule: statuses.induct) auto

lemma shown_statuses_append [simp]: "shown_statuses (xs @ ys) = shown_statuses xs @ shown_statuses ys"
  by (induction xs rule: shown_statuses.induct) auto

lemma set_inside_led_quiet [simp]:
  "replies (snd (set_inside_led wr on s d)) = []" "statuses (snd (set_inside_led wr on s d)) = []"
  "shown_statuses (snd (set_inside_led wr on s d)) = []"
  by (simp_all add: set_inside_led_def split: prod.split)

lemma payload_equals_iff: "well_formed m \<Longrightarrow> payload_equals m str \<longleftrightarrow> payload m = Some str"
  by (auto simp: payload_equals_def well_formed_def split: option.splits)

lemma on_connect_quiet [simp]:
  "replies (on_connect rc) = []" "statuses (on_connect rc) = []" "shown_statuses (on_connect rc) = []"
  by (simp_all add: on_connect_def)

lemma publish_status_quiet [simp]:
  "replies (publish_status s) = []" "statuses (publish_status s) = [status_text (current_count s)]"
  "shown_statuses (publish_status s) = [status_text (current_count s)]"
  by (simp_all add: publish_status_def Let_def butlast_append)

definition count_ok :: "server \<Rightarrow> bool" where
  "count_ok s \<longleftrightarrow> 0 \<le> current_count s \<and> current_count s \<le> MAX_COUNT"

lemma handle_exit_gate:
  assumes "handle_exit_request s = (s1, acts)" and "count_ok s"
  shows "count_ok s1 \<and> statuses acts = [] \<and> shown_statuses acts = [] \<and>
    (nat (current_count s1), replies acts) = gate_step (nat (current_count s)) Leave"
  using assms by (auto simp: handle_exit_request_def count_ok_def topics nat_diff_distrib Let_def split: if_splits)

lemma handle_entry_gate:
  assumes "handle_entry_request s = (s1, acts)" and "count_ok s"
  shows "count_ok s1 \<and> statuses acts = [] \<and> shown_statuses acts = [] \<and>
    (nat (current_count s1), replies acts) = gate_step (nat (current_count s)) Enter"
  using assms
  by (auto simp: handle_entry_request_def count_ok_def topics MAX_COUNT_def nat_add_distrib Let_def split: if_splits)

lemma answer_message_gate:
  assumes "answer_message m s = (s1, acts)" and "count_ok s"
  shows "count_ok s1 \<and> statuses acts = [] \<and> shown_statuses acts = [] \<and>
    (well_formed m \<longrightarrow>
       (nat (current_count s1), replies acts) = gate_step (nat (current_count s)) (request_of m))"
proof -
  consider (exit) "topic m = ''exit/request''" "payload_equals m ''EXIT''" "handle_exit_request s = (s1, acts)"
    | (entry) "topic m = ''entry/request''" "payload_equals m ''ENTER''" "handle_entry_request s = (s1, acts)"
    | (other) "\<not> (topic m = ''exit/request'' \<and> payload_equals m ''EXIT'')"
        "\<not> (topic m = ''entry/request'' \<and> payload_equals m ''ENTER'')" "s1 = s"
        "acts = [Say (''[WARN] unknown message ignored'' @ [NL])]"
    using assms(1) by (auto simp: answer_message_def topics split: if_splits)
  then show ?thesis
  proof cases
    case exit
    then show ?thesis using handle_exit_gate [OF exit(3) assms(2)] by (auto simp: request_of_def payload_equals_iff)
  next
    case entry
    then show ?thesis using handle_entry_gate [OF entry(3) assms(2)] by (auto simp: request_of_def payload_equals_iff)
  next
    case other
    then show ?thesis using assms(2) by (auto simp: request_of_def payload_equals_iff)
  qed
qed

lemma on_message_gate:
  assumes "on_message wr m s d = (s', d', a)" and "count_ok s"
  shows "count_ok s' \<and> statuses a = [status_text (current_count s')] \<and> shown_statuses a = statuses a \<and>
    (well_formed m \<longrightarrow>
       (nat (current_count s'), replies a) = gate_step (nat (current_count s)) (request_of m))"
  using assms answer_message_gate [of m s "fst (answer_message m s)" "snd (answer_message m s)"]
  by (auto simp: on_message_def update_inside_led_def Let_def case_prod_beta)

lemma run_callback_gate:
  assumes "run_callback wr c s d = (s', d', a)" and "count_ok s"
  shows "count_ok s' \<and> length (statuses a) = length (messages [c]) \<and> shown_statuses a = statuses a \<and>
    (\<forall>t \<in> set (statuses a). t = status_text (current_count s')) \<and>
    ((\<forall>m \<in> set (messages [c]). well_formed m) \<longrightarrow>
       (nat (current_count s'), replies a) = gate_run (nat (current_count s)) (requests [c]))"
proof (cases c)
  case (Message m)
  then show ?thesis
    using assms on_message_gate [of wr m s d s' d' a]
    by (auto split: prod.splits)
qed (use assms in \<open>auto simp: count_ok_def handle_signal_def\<close>)

lemma gate_run_append:
  "gate_run n (qs @ qs') =
    (let (n1, r1) = gate_run n qs; (n2, r2) = gate_run n1 qs' in (n2, r1 @ r2))"
  by (induction qs arbitrary: n) (auto simp: Let_def split: prod.splits)

lemma requests_Cons: "requests (c # cs) = requests [c] @ requests cs"
  by (cases c) auto

lemma messages_Cons: "messages (c # cs) = messages [c] @ messages cs"
  by (cases c) auto

lemma run_callbacks_gate:
  assumes "run_callbacks wr cs s d = (s', d', a)" and "count_ok s"
  shows "count_ok s' \<and> length (statuses a) = length (messages cs) \<and> shown_statuses a = statuses a \<and>
    (\<forall>t \<in> set (statuses a). \<exists>c. 0 \<le> c \<and> c \<le> MAX_COUNT \<and> t = status_text c) \<and>
    ((\<forall>m \<in> set (messages cs). well_formed m) \<longrightarrow>
       (nat (current_count s'), replies a) = gate_run (nat (current_count s)) (requests cs))"
  using assms
proof (induction cs arbitrary: s d a)
  case Nil
  then show ?case by simp
next
  case (Cons c cs)
  obtain s1 d1 a1 where c: "run_callback wr c s d = (s1, d1, a1)" by (metis prod_cases3)
  obtain s2 d2 a2 where r: "run_callbacks wr cs s1 d1 = (s2, d2, a2)" by (metis prod_cases3)
  have eq: "s' = s2" "d' = d2" "a = a1 @ a2" using Cons.prems(1) c r by auto
  note one = run_callback_gate [OF c Cons.prems(2)]
  note rest = Cons.IH [OF r [folded eq(1,2)] conjunct1 [OF one]]
  have "\<forall>t \<in> set (statuses a1). \<exists>c. 0 \<le> c \<and> c \<le> MAX_COUNT \<and> t = status_text c"
    using one by (auto simp: count_ok_def)
  moreover have "(nat (current_count s'), replies a) = gate_run (nat (current_count s)) (requests (c # cs))"
    if "\<forall>m \<in> set (messages (c # cs)). well_formed m"
  proof -
    have w: "\<forall>m \<in> set (messages [c]). well_formed m" "\<forall>m \<in> set (messages cs). well_formed m"
      using that by (simp_all add: messages_Cons [of c cs])
    have "gate_run (nat (current_count s)) (requests [c]) = (nat (current_count s1), replies a1)"
      using one w(1) by simp
    moreover have "gate_run (nat (current_count s1)) (requests cs) = (nat (current_count s'), replies a2)"
      using rest w(2) by simp
    ultimately show ?thesis
      by (simp add: requests_Cons [of c cs] gate_run_append eq(3))
  qed
  ultimately show ?case
    using one rest by (auto simp: eq(3) messages_Cons [of c cs])
qed

text \<open>Each report is the count after the request it follows.\<close>

lemma run_callback_reports:
  assumes "run_callback wr c s d = (s', d', a)" and "count_ok s" and "\<forall>m \<in> set (messages [c]). well_formed m"
  shows "statuses a = map (status_text \<circ> int) (gate_counts (nat (current_count s)) (requests [c]))"
proof (cases c)
  case (Message m)
  then have "count_ok s'" "statuses a = [status_text (current_count s')]"
      "nat (current_count s') = fst (gate_step (nat (current_count s)) (request_of m))"
    using assms on_message_gate [of wr m s d s' d' a] by (auto dest: arg_cong [of _ _ fst])
  then show ?thesis using Message by (simp add: count_ok_def flip: \<open>nat (current_count s') = _\<close>)
qed (use assms in auto)

lemma run_callbacks_reports:
  assumes "run_callbacks wr cs s d = (s', d', a)" and "count_ok s" and "\<forall>m \<in> set (messages cs). well_formed m"
  shows "statuses a = map (status_text \<circ> int) (gate_counts (nat (current_count s)) (requests cs))"
  using assms
proof (induction cs arbitrary: s d a)
  case (Cons c cs)
  obtain s1 d1 a1 where c: "run_callback wr c s d = (s1, d1, a1)" by (metis prod_cases3)
  obtain s2 d2 a2 where r: "run_callbacks wr cs s1 d1 = (s2, d2, a2)" by (metis prod_cases3)
  have eq: "s' = s2" "d' = d2" "a = a1 @ a2" using Cons.prems(1) c r by auto
  have w: "\<forall>m \<in> set (messages [c]). well_formed m" "\<forall>m \<in> set (messages cs). well_formed m"
    using Cons.prems(3) by (simp_all add: messages_Cons [of c cs])
  note one = run_callback_gate [OF c Cons.prems(2)]
  then have "gate_run (nat (current_count s)) (requests [c]) = (nat (current_count s1), replies a1)" using w(1) by simp
  then show ?case
    using run_callback_reports [OF c Cons.prems(2) w(1)] Cons.IH [OF r [folded eq(1,2)] conjunct1 [OF one] w(2)]
    by (simp add: requests_Cons [of c cs] gate_counts_append eq(3))
qed simp

lemma gate_run_counts:
  assumes "gate_run n qs = (n', rs)" and "n \<le> 5"
  shows "n' \<le> 5 \<and>
    n' + count_list rs (''exit/response'', ''ALLOW'') = n + count_list rs (''entry/response'', ''ALLOW'')"
  using assms
proof (induction qs arbitrary: n rs)
  case Nil
  then show ?case by simp
next
  case (Cons q qs)
  obtain n1 r1 where q: "gate_step n q = (n1, r1)" by force
  obtain n2 r2 where r: "gate_run n1 qs = (n2, r2)" by force
  have eq: "n' = n2" "rs = r1 @ r2" using Cons.prems(1) q r by auto
  have "n1 \<le> 5 \<and>
      n1 + count_list r1 (''exit/response'', ''ALLOW'') = n + count_list r1 (''entry/response'', ''ALLOW'')"
    using q Cons.prems(2) by (cases q) (auto split: if_splits)
  then show ?case
    using Cons.IH [OF r [folded eq(1)]] by (auto simp: eq(2))
qed

lemma status_text_small:
  assumes "0 \<le> c" and "c \<le> MAX_COUNT"
  shows "status_text c =
    ''count='' @ [digit (nat c)] @ '',max=5,full='' @ [if c = 5 then CHR ''1'' else CHR ''0'']"
  using assms by (auto simp: status_text_def dec_int_def MAX_COUNT_def)

subsection \<open>What the main program holds\<close>

datatype server_resource = Led_fd | Mosq_lib | Mosq_client | Count_mutex

fun server_acquires :: "action \<Rightarrow> server_resource multiset" where
  "server_acquires (Open_led fd) = (if fd \<ge> 0 then {#Led_fd#} else {#})"
| "server_acquires Lib_init = {#Mosq_lib#}"
| "server_acquires (Mosq_new ok) = (if ok then {#Mosq_client#} else {#})"
| "server_acquires Count_lock = {#Count_mutex#}"
| "server_acquires _ = {#}"

fun server_releases :: "action \<Rightarrow> server_resource option" where
  "server_releases Close_led = Some Led_fd"
| "server_releases Lib_cleanup = Some Mosq_lib"
| "server_releases Mosq_destroy = Some Mosq_client"
| "server_releases Count_unlock = Some Count_mutex"
| "server_releases _ = None"

abbreviation server_ledger :: "server_resource multiset \<Rightarrow> action list \<Rightarrow> server_resource multiset option" where
  "server_ledger \<equiv> ledger_of server_acquires server_releases"

lemma set_inside_led_ledger [simp]: "server_ledger H (snd (set_inside_led wr on s d)) = Some H"
  by (simp add: set_inside_led_def split: prod.split)

lemma answer_message_ledger [simp]: "server_ledger H (snd (answer_message m s)) = Some H"
  by (simp add: answer_message_def handle_exit_request_def handle_entry_request_def Let_def)

lemma run_callback_ledger:
  "run_callback wr c s d = (s', d', a) \<Longrightarrow> server_ledger H a = Some H"
  by (cases c) (auto simp: on_message_def update_inside_led_def on_connect_def publish_status_def
      Let_def ledger_append case_prod_beta split: if_splits)

lemma run_callbacks_ledger:
  "run_callbacks wr cs s d = (s', d', a) \<Longrightarrow> server_ledger H a = Some H"
proof (induction cs arbitrary: s d a)
  case (Cons c cs)
  obtain s1 d1 a1 where c: "run_callback wr c s d = (s1, d1, a1)" by (metis prod_cases3)
  obtain s2 d2 a2 where r: "run_callbacks wr cs s1 d1 = (s2, d2, a2)" by (metis prod_cases3)
  have eq: "s' = s2" "d' = d2" "a = a1 @ a2" using Cons.prems(1) c r by auto
  show ?case
    using run_callback_ledger [OF c] Cons.IH [OF r [folded eq(1,2)]] by (simp add: eq(3) ledger_append)
qed simp

lemma main_loop_ledger:
  "main_loop wr script s d = Some (s', d', a) \<Longrightarrow> server_ledger H a = Some H"
proof (induction script arbitrary: s d a)
  case Nil
  then show ?case by (subst (asm) main_loop.simps) (auto split: if_splits)
next
  case (Cons it script)
  obtain cs rc where it: "it = (cs, rc)" by force
  obtain s1 d1 a1 where r: "run_callbacks wr cs s d = (s1, d1, a1)" by (metis prod_cases3)
  show ?case
    using Cons.prems Cons.IH [of s1 d1] run_callbacks_ledger [OF r]
    by (subst (asm) main_loop.simps) (auto simp: it r ledger_append split: if_splits option.splits)
qed

lemma run_callbacks_running:
  "run_callbacks wr cs s d = (s', d', a) \<Longrightarrow> running s' \<longleftrightarrow> running s \<and> Signal \<notin> set cs"
proof (induction cs arbitrary: s d a)
  case (Cons c cs)
  obtain s1 d1 a1 where c: "run_callback wr c s d = (s1, d1, a1)" by (metis prod_cases3)
  obtain s2 d2 a2 where r: "run_callbacks wr cs s1 d1 = (s2, d2, a2)" by (metis prod_cases3)
  have eq: "s' = s2" "d' = d2" "a = a1 @ a2" using Cons.prems(1) c r by auto
  have "running s1 \<longleftrightarrow> running s \<and> c \<noteq> Signal"
    using c by (cases c) (auto simp: handle_signal_def dest: on_message_device(3))
  then show ?case
    using Cons.IH [OF r [folded eq(1,2)]] by auto
qed simp

lemma main_loop_returns:
  "main_loop wr script s d \<noteq> None \<longleftrightarrow> \<not> running s \<or> (\<exists>it \<in> set script. Signal \<in> set (fst it))"
proof (induction script arbitrary: s d)
  case Nil
  then show ?case by (subst main_loop.simps) simp
next
  case (Cons it script)
  obtain cs rc where it: "it = (cs, rc)" by force
  obtain s1 d1 a1 where r: "run_callbacks wr cs s d = (s1, d1, a1)" by (metis prod_cases3)
  show ?case
    using Cons.IH [of s1 d1] run_callbacks_running [OF r]
    by (subst main_loop.simps) (auto simp: it r split: option.splits)
qed

text \<open>How many times an action list calls mosquitto_loop.\<close>

fun loop_calls :: "action list \<Rightarrow> nat" where
  "loop_calls [] = 0"
| "loop_calls (Mosq_loop rc # as) = Suc (loop_calls as)"
| "loop_calls (_ # as) = loop_calls as"

lemma loop_calls_append [simp]: "loop_calls (xs @ ys) = loop_calls xs + loop_calls ys"
  by (induction xs rule: loop_calls.induct) auto

lemma set_inside_led_no_loop [simp]: "loop_calls (snd (set_inside_led wr on s d)) = 0"
  by (simp add: set_inside_led_def split: prod.split)

lemma answer_message_no_loop [simp]: "loop_calls (snd (answer_message m s)) = 0"
  by (simp add: answer_message_def handle_exit_request_def handle_entry_request_def Let_def)

lemma run_callback_no_loop: "run_callback wr c s d = (s', d', a) \<Longrightarrow> loop_calls a = 0"
  by (cases c) (auto simp: on_message_def update_inside_led_def on_connect_def publish_status_def
      Let_def case_prod_beta split: if_splits)

lemma run_callbacks_no_loop: "run_callbacks wr cs s d = (s', d', a) \<Longrightarrow> loop_calls a = 0"
proof (induction cs arbitrary: s d a)
  case (Cons c cs)
  obtain s1 d1 a1 where c: "run_callback wr c s d = (s1, d1, a1)" by (metis prod_cases3)
  obtain s2 d2 a2 where r: "run_callbacks wr cs s1 d1 = (s2, d2, a2)" by (metis prod_cases3)
  have eq: "s' = s2" "d' = d2" "a = a1 @ a2" using Cons.prems(1) c r by auto
  show ?case using run_callback_no_loop [OF c] Cons.IH [OF r [folded eq(1,2)]] by (simp add: eq(3))
qed simp

lemma main_loop_calls:
  "map_option (\<lambda>(s', d', a). loop_calls a) (main_loop wr script s d) =
    (if \<not> running s then Some 0
     else if \<exists>it \<in> set script. Signal \<in> set (fst it)
     then Some (Suc (length (takeWhile (\<lambda>it. Signal \<notin> set (fst it)) script)))
     else None)"
proof (induction script arbitrary: s d)
  case Nil
  then show ?case by (subst main_loop.simps) simp
next
  case (Cons it script)
  obtain cs rc where it: "it = (cs, rc)" by force
  obtain s1 d1 a1 where r: "run_callbacks wr cs s d = (s1, d1, a1)" by (metis prod_cases3)
  note no = run_callbacks_no_loop [OF r]
  have "map_option (\<lambda>(s', d', a). loop_calls a) (main_loop wr (it # script) s d) =
      (if \<not> running s then Some 0 else map_option (\<lambda>(s', d', a). Suc (loop_calls a)) (main_loop wr script s1 d1))"
    by (subst main_loop.simps) (auto simp: it r no split: option.splits)
  also have "map_option (\<lambda>(s', d', a). Suc (loop_calls a)) (main_loop wr script s1 d1) =
      map_option Suc (map_option (\<lambda>(s', d', a). loop_calls a) (main_loop wr script s1 d1))"
    by (cases "main_loop wr script s1 d1") auto
  finally show ?case using run_callbacks_running [OF r] by (auto simp: Cons.IH it)
qed

text \<open>Every path through main that ends releases what it acquired.\<close>

lemma server_main_balanced:
  assumes "server_main wr fd new_ok rc early script s d = Some (status, s', d', a)"
  shows "server_ledger {#} a = Some {#}"
proof (cases "0 \<le> fd \<and> new_ok \<and> rc = 0")
  case False
  then show ?thesis
    using assms by (auto simp: server_main_def Let_def ledger_append case_prod_beta split: if_splits)
next
  case True
  let ?s = "(if early then handle_signal s else s)\<lparr>led_fd := fd\<rparr>"
  obtain s1 d2 a1 where m: "main_loop wr script ?s (fst (set_inside_led wr False ?s d)) = Some (s1, d2, a1)"
    using True assms by (auto simp: server_main_def Let_def case_prod_beta split: if_splits option.splits)
  show ?thesis
    using True assms main_loop_ledger [OF m, of "{#Led_fd, Mosq_lib, Mosq_client#}"]
    by (auto simp: server_main_def Let_def m ledger_append case_prod_beta add_mset_commute split: if_splits)
qed

subsection \<open>Properties\<close>

text \<open>
  C1. The server implements the abstract gate: from any count in range and for any
  sequence of library callbacks whose messages are well formed, the new count and the
  responses published are exactly those of the gate run on the requests received.
\<close>

theorem server_refines_gate:
  assumes "run_callbacks wr cs s d = (s', d', a)" and "0 \<le> current_count s" and "current_count s \<le> MAX_COUNT"
    and "\<And>m. m \<in> set (messages cs) \<Longrightarrow> well_formed m"
  shows "(nat (current_count s'), replies a) = gate_run (nat (current_count s)) (requests cs)"
  using run_callbacks_gate [OF assms(1)] assms(2-4) by (auto simp: count_ok_def)

definition enter_message :: mosq_message where
  "enter_message = \<lparr>topic = ''entry/request'', payload = Some ''ENTER'', payloadlen = 5\<rparr>"

definition exit_message :: mosq_message where
  "exit_message = \<lparr>topic = ''exit/request'', payload = Some ''EXIT'', payloadlen = 4\<rparr>"

theorem server_refines_gate_witness:
  "\<exists>s' d' a. run_callbacks led_device_write [Message enter_message, Message exit_message, Message exit_message]
      server_static (pi2_led_static, 0) = (s', d', a) \<and>
    (nat (current_count s'), replies a) =
      (0, [(''entry/response'', ''ALLOW''), (''exit/response'', ''ALLOW''), (''exit/response'', ''DENY'')])"
proof -
  let ?cs = "[Message enter_message, Message exit_message, Message exit_message]"
  obtain s' d' a where r: "run_callbacks led_device_write ?cs server_static (pi2_led_static, 0) = (s', d', a)"
    by (metis prod_cases3)
  have "(nat (current_count s'), replies a) = gate_run (nat (current_count server_static)) (requests ?cs)"
    by (rule server_refines_gate [OF r])
      (auto simp: server_static_def MAX_COUNT_def well_formed_def enter_message_def exit_message_def)
  then show ?thesis
    using r by (simp add: server_static_def request_of_def enter_message_def exit_message_def)
qed

text \<open>
  C2. Nobody is lost and the room never overfills: after any callbacks, the count is
  between 0 and \<open>MAX_COUNT\<close>, and it is the old count plus the entries allowed minus the
  exits allowed in the responses actually published.
\<close>

theorem occupancy_conserved:
  assumes "run_callbacks wr cs s d = (s', d', a)" and "0 \<le> current_count s" and "current_count s \<le> MAX_COUNT"
    and "\<And>m. m \<in> set (messages cs) \<Longrightarrow> well_formed m"
  shows "0 \<le> current_count s' \<and> current_count s' \<le> MAX_COUNT \<and>
    current_count s' = current_count s
      + int (count_list (replies a) (''entry/response'', ''ALLOW''))
      - int (count_list (replies a) (''exit/response'', ''ALLOW''))"
proof -
  have ok: "count_ok s" using assms(2,3) by (simp add: count_ok_def)
  note g = run_callbacks_gate [OF assms(1) ok]
  then have r: "gate_run (nat (current_count s)) (requests cs) = (nat (current_count s'), replies a)"
    using assms(4) by simp
  have "nat (current_count s') + count_list (replies a) (''exit/response'', ''ALLOW'') =
      nat (current_count s) + count_list (replies a) (''entry/response'', ''ALLOW'')"
    using gate_run_counts [OF r] assms(2,3) by (simp add: MAX_COUNT_def)
  moreover have "0 \<le> current_count s'" "current_count s' \<le> MAX_COUNT"
    using g by (simp_all add: count_ok_def)
  ultimately show ?thesis
    using assms(2) by linarith
qed

theorem occupancy_conserved_witness:
  "\<exists>s' d' a. run_callbacks led_device_write (replicate 6 (Message enter_message)) server_static (pi2_led_static, 0) = (s', d', a) \<and>
    current_count s' \<le> 5 \<and>
    current_count s' = int (count_list (replies a) (''entry/response'', ''ALLOW''))
      - int (count_list (replies a) (''exit/response'', ''ALLOW''))"
proof -
  let ?cs = "replicate 6 (Message enter_message)"
  obtain s' d' a where r: "run_callbacks led_device_write ?cs server_static (pi2_led_static, 0) = (s', d', a)"
    by (metis prod_cases3)
  have m: "messages ?cs = replicate 6 enter_message" by (simp add: eval_nat_numeral)
  have w: "\<And>m. m \<in> set (messages ?cs) \<Longrightarrow> well_formed m"
    unfolding m by (simp add: well_formed_def enter_message_def)
  have s: "current_count server_static = 0" by (simp add: server_static_def)
  show ?thesis
    using r occupancy_conserved [OF r _ _ w] by (auto simp: s MAX_COUNT_def)
qed

text \<open>
  C34. Every message is followed by exactly one status report, and the reports are, in order,
  the counts of the abstract gate after each request, each as one digit with the maximum 5
  and whether the room is full; the 127-byte buffer never truncates one, and the terminal
  shows the reports that are published.
\<close>

theorem status_reports:
  assumes "run_callbacks wr cs s d = (s', d', a)" and "0 \<le> current_count s" and "current_count s \<le> MAX_COUNT"
    and "\<And>m. m \<in> set (messages cs) \<Longrightarrow> well_formed m"
  shows "statuses a =
      map (\<lambda>c. ''count='' @ [digit c] @ '',max=5,full='' @ [if c = 5 then CHR ''1'' else CHR ''0''])
        (gate_counts (nat (current_count s)) (requests cs)) \<and>
    length (statuses a) = length (messages cs) \<and> shown_statuses a = statuses a"
proof -
  have ok: "count_ok s" using assms(2,3) by (simp add: count_ok_def)
  have n: "nat (current_count s) \<le> 5" using assms(3) by (simp add: MAX_COUNT_def)
  have "status_text (int c) = ''count='' @ [digit c] @ '',max=5,full='' @ [if c = 5 then CHR ''1'' else CHR ''0'']"
    if "c \<in> set (gate_counts (nat (current_count s)) (requests cs))" for c
    using status_text_small [of "int c"] gate_counts_le [OF n that] by (simp add: MAX_COUNT_def)
  then have "map (status_text \<circ> int) (gate_counts (nat (current_count s)) (requests cs)) =
      map (\<lambda>c. ''count='' @ [digit c] @ '',max=5,full='' @ [if c = 5 then CHR ''1'' else CHR ''0''])
        (gate_counts (nat (current_count s)) (requests cs))"
    by (intro map_cong) simp_all
  moreover have "statuses a = map (status_text \<circ> int) (gate_counts (nat (current_count s)) (requests cs))"
    using run_callbacks_reports [OF assms(1) ok] assms(4) by blast
  moreover have "length (statuses a) = length (messages cs)" "shown_statuses a = statuses a"
    using run_callbacks_gate [OF assms(1) ok] by blast+
  ultimately show ?thesis by simp
qed

theorem status_reports_witness:
  "\<exists>s' d' a. run_callbacks led_device_write [Connected 0, Message enter_message, Message exit_message, Message exit_message]
      server_static (pi2_led_static, 0) = (s', d', a) \<and>
    statuses a = [''count=1,max=5,full=0'', ''count=0,max=5,full=0'', ''count=0,max=5,full=0''] \<and>
    shown_statuses a = statuses a"
proof -
  let ?cs = "[Connected 0, Message enter_message, Message exit_message, Message exit_message]"
  obtain s' d' a where r: "run_callbacks led_device_write ?cs server_static (pi2_led_static, 0) = (s', d', a)"
    by (metis prod_cases3)
  have w: "\<And>m. m \<in> set (messages ?cs) \<Longrightarrow> well_formed m"
    by (auto simp: well_formed_def enter_message_def exit_message_def)
  have "requests ?cs = [Enter, Leave, Leave]" by (simp add: request_of_def enter_message_def exit_message_def)
  then show ?thesis
    using r status_reports [OF r _ _ w] by (simp add: server_static_def MAX_COUNT_def)
qed

text \<open>
  C31. Server and driver together: once the LED device is open and has been switched off
  at start, after any callbacks the pin of the real driver is high exactly when somebody
  is inside.
\<close>

theorem led_follows_occupancy:
  assumes "0 \<le> fd"
    and "run_callbacks led_device_write cs (server_static\<lparr>led_fd := fd\<rparr>)
      (fst (set_inside_led led_device_write False (server_static\<lparr>led_fd := fd\<rparr>) d)) = (s', d', a)"
  shows "pin_lit d' \<longleftrightarrow> 0 < current_count s'"
proof -
  let ?s = "server_static\<lparr>led_fd := fd\<rparr>"
  have "led_in_step (\<lambda>_. True) pin_lit ?s (fst (set_inside_led led_device_write False ?s d))"
    using inside_led.set_led [where d = d and on = False and s = ?s] assms(1) by (simp add: led_in_step_def server_static_def)
  from inside_led.run_callbacks_led [OF assms(2) this] show ?thesis
    by (simp add: led_in_step_def)
qed

theorem led_follows_occupancy_witness:
  "\<exists>s' d' a. run_callbacks led_device_write [Message enter_message] (server_static\<lparr>led_fd := 3\<rparr>)
      (fst (set_inside_led led_device_write False (server_static\<lparr>led_fd := 3\<rparr>) (pi2_led_static, 1))) = (s', d', a) \<and>
    (pin_lit d' \<longleftrightarrow> 0 < current_count s')"
proof -
  obtain s' d' a where r: "run_callbacks led_device_write [Message enter_message] (server_static\<lparr>led_fd := 3\<rparr>)
      (fst (set_inside_led led_device_write False (server_static\<lparr>led_fd := 3\<rparr>) (pi2_led_static, 1))) = (s', d', a)"
    by (metis prod_cases3)
  show ?thesis using r led_follows_occupancy [OF _ r] by simp
qed

text \<open>
  C23. On every path through \<open>main\<close> that ends (the device cannot be opened, the client
  cannot be created, the broker cannot be reached, or the loop was stopped) everything
  acquired is released once, the exit status is 0 exactly on the last of these paths, and
  if the device was opened the LED is off.
\<close>

theorem server_main_cleans_up:
  assumes "server_main led_device_write fd new_ok rc early script server_static d = Some (status, s', d', a)"
  shows "server_ledger {#} a = Some {#} \<and>
    (status = 0 \<longleftrightarrow> 0 \<le> fd \<and> new_ok \<and> rc = 0) \<and> (pin_lit d' \<longrightarrow> fd < 0)"
proof -
  let ?s = "(if early then handle_signal server_static else server_static)\<lparr>led_fd := fd\<rparr>"
  let ?d = "fst (set_inside_led led_device_write False ?s d)"
  show ?thesis
  proof (cases "0 \<le> fd \<and> new_ok \<and> rc = 0")
    case False
    then show ?thesis
      using assms inside_led.set_led [where d = d and on = False and s = ?s]
      by (auto simp: server_main_def Let_def ledger_append case_prod_beta split: if_splits)
  next
    case True
    then obtain s1 d2 a1 where m: "main_loop led_device_write script ?s ?d = Some (s1, d2, a1)"
      and r: "status = 0" "d' = fst (set_inside_led led_device_write False s1 d2)"
      using assms by (auto simp: server_main_def Let_def case_prod_beta split: if_splits option.splits)
    have "led_in_step (\<lambda>_. True) pin_lit ?s ?d"
      using inside_led.set_led [where d = d and on = False and s = ?s] True
      by (simp add: led_in_step_def server_static_def handle_signal_def)
    then have "0 \<le> led_fd s1"
      using inside_led.main_loop_led [OF m] by (simp add: led_in_step_def)
    then have "\<not> pin_lit d'"
      using inside_led.set_led [where d = d2 and on = False and s = s1] r(2) by simp
    then show ?thesis
      using True r(1) server_main_balanced [OF assms] by simp
  qed
qed

theorem server_main_cleans_up_witness:
  "\<exists>status s' d' a. server_main led_device_write 3 True 0 False
      [([Connected 0, Message enter_message], 0), ([Signal], 7)] server_static (pi2_led_static, 0) =
      Some (status, s', d', a) \<and>
    status = 0 \<and> server_ledger {#} a = Some {#} \<and> \<not> pin_lit d'"
proof -
  let ?script = "[([Connected 0, Message enter_message], 0), ([Signal], 7)]"
  have "main_loop led_device_write ?script (server_static\<lparr>led_fd := 3\<rparr>)
      (fst (set_inside_led led_device_write False (server_static\<lparr>led_fd := 3\<rparr>) (pi2_led_static, 0))) \<noteq> None"
    by (subst main_loop_returns) simp
  then have "server_main led_device_write 3 True 0 False ?script server_static (pi2_led_static, 0) \<noteq> None"
    by (auto simp: server_main_def Let_def case_prod_beta split: option.splits)
  then obtain status s' d' a where m:
    "server_main led_device_write 3 True 0 False ?script server_static (pi2_led_static, 0) = Some (status, s', d', a)"
    by (metis not_None_eq prod_cases4)
  show ?thesis using m server_main_cleans_up [OF m] by auto
qed

text \<open>
  C24. The server ends when it should: if one of the three start-up steps fails, or a signal
  has arrived before the loop begins, \<open>main\<close> ends without a call of mosquitto_loop;
  otherwise it ends after the first iteration in which a signal arrives, having called
  mosquitto_loop once for each up to that one, and runs on as long as none does: broker
  errors alone never end it.
\<close>

theorem server_main_returns:
  "map_option (\<lambda>(status, s', d', a). loop_calls a) (server_main wr fd new_ok rc early script server_static d) =
    (if fd < 0 \<or> new_ok = False \<or> rc \<noteq> 0 \<or> early then Some 0
     else if \<exists>it \<in> set script. Signal \<in> set (fst it)
     then Some (Suc (length (takeWhile (\<lambda>it. Signal \<notin> set (fst it)) script)))
     else None)"
proof -
  let ?s = "(if early then handle_signal server_static else server_static)\<lparr>led_fd := fd\<rparr>"
  let ?d = "fst (set_inside_led wr False ?s d)"
  have run: "running ?s = (\<not> early)" by (simp add: server_static_def handle_signal_def)
  show ?thesis
  proof (cases "fd < 0 \<or> new_ok = False \<or> rc \<noteq> 0")
    case True
    then show ?thesis by (auto simp: server_main_def Let_def case_prod_beta)
  next
    case False
    then have "map_option (\<lambda>(status, s', d', a). loop_calls a) (server_main wr fd new_ok rc early script server_static d) =
        map_option (\<lambda>(s', d', a). loop_calls a) (main_loop wr script ?s ?d)"
      by (auto simp: server_main_def Let_def case_prod_beta split: option.splits)
    then show ?thesis using False by (simp add: main_loop_calls run)
  qed
qed

theorem server_main_returns_witness:
  "map_option (\<lambda>(status, s', d', a). loop_calls a)
     (server_main led_device_write 3 True 0 False [([], 0), ([Signal], 7), ([], 0)] server_static (pi2_led_static, 0)) = Some 2 \<and>
   map_option (\<lambda>(status, s', d', a). loop_calls a)
     (server_main led_device_write 3 True 0 True [] server_static (pi2_led_static, 0)) = Some 0"
  by (subst server_main_returns, subst server_main_returns) simp

end
