(* ===== verification/Msg_Store.thy ===== *)
theory Msg_Store
  imports Kernel
begin

text \<open>
  The data the two message-queue modules (lab4/ch3, lab5/ch4) have in common: the message
  structure and its byte-wise copies across the user boundary, the linked nodes with the
  messages they point to, the checked heap operations on them, and the contract of a
  queue that hands every message on exactly once, in order.
\<close>

type_synonym addr = nat

subsection \<open>struct msg_st\<close>

record msg_st =
  msg_len :: "32 word"
  msg_str :: "char list" \<comment> \<open>128 bytes\<close>

definition msg_ok :: "msg_st \<Rightarrow> bool" where
  "msg_ok m \<longleftrightarrow> length (msg_str m) = 128"

text \<open>memset(m, 0, sizeof(struct msg_st)).\<close>

definition zero_msg :: msg_st where
  "zero_msg = \<lparr>msg_len = 0, msg_str = replicate 128 NUL\<rparr>"

text \<open>
  \<open>struct_copy old m u\<close>: the structure \<open>old\<close> after all but the last \<open>u\<close> of the 132 bytes of
  \<open>m\<close> were copied over it. The length field comes first and is stored with its low byte first.
\<close>

definition struct_copy :: "msg_st \<Rightarrow> msg_st \<Rightarrow> nat \<Rightarrow> msg_st" where
  "struct_copy old m u =
     \<lparr>msg_len = take_bit (8 * (132 - u)) (msg_len m) +
        push_bit (8 * (132 - u)) (drop_bit (8 * (132 - u)) (msg_len old)),
      msg_str = take (128 - u) (msg_str m) @ drop (128 - u) (msg_str old)\<rparr>"

lemma struct_copy_all: "msg_ok m \<Longrightarrow> msg_ok old \<Longrightarrow> struct_copy old m 0 = m"
proof -
  assume "msg_ok m" "msg_ok old"
  moreover have "take_bit 1056 w + push_bit 1056 (drop_bit 1056 v) = w" for w v :: "32 word"
  proof -
    have "take_bit 1056 w = w" by (rule bit_word_eqI) (simp add: bit_simps)
    moreover have "push_bit 1056 (drop_bit 1056 v) = (0 :: 32 word)"
      by (rule bit_word_eqI) (simp add: bit_simps)
    ultimately show ?thesis by simp
  qed
  ultimately show ?thesis by (simp add: struct_copy_def msg_ok_def)
qed

lemma struct_copy_ok [simp, intro]: "msg_ok m \<Longrightarrow> msg_ok old \<Longrightarrow> msg_ok (struct_copy old m u)"
  by (simp add: msg_ok_def struct_copy_def)

lemma zero_msg_ok [simp]: "msg_ok zero_msg"
  by (simp add: msg_ok_def zero_msg_def)

subsection \<open>Nodes, messages and the list\<close>

text \<open>
  \<open>mq_node\<close>: the allocated \<open>struct msg_list\<close> nodes with their \<open>msg\<close> pointer (None when
  null); \<open>mq_msg\<close>: the allocated messages; \<open>mq_list\<close>: the nodes linked behind the list head,
  in order; \<open>mq_lock\<close>: whether the spin lock is held.
\<close>

record mq =
  mq_node :: "addr \<rightharpoonup> addr option"
  mq_msg :: "addr \<rightharpoonup> msg_st"
  mq_list :: "addr list"
  mq_lock :: bool

text \<open>What the two kmalloc calls of a write return (None for the null pointer).\<close>

record alloc_env =
  new_node_at :: "addr option"
  new_msg_at :: "addr option"

text \<open>The documented behaviour of kmalloc: what it returns was free.\<close>

definition alloc_fresh :: "alloc_env \<Rightarrow> mq \<Rightarrow> bool" where
  "alloc_fresh e s \<longleftrightarrow>
     (\<exists>n p. new_node_at e = Some n \<and> n \<notin> dom (mq_node s) \<and>
            new_msg_at e = Some p \<and> p \<notin> dom (mq_msg s))"

definition spin_lock :: "mq \<Rightarrow> mq result" where
  "spin_lock s = (if mq_lock s then Inl Self_deadlock else Inr (s\<lparr>mq_lock := True\<rparr>))"

definition spin_unlock :: "mq \<Rightarrow> mq" where
  "spin_unlock s = s\<lparr>mq_lock := False\<rparr>"

text \<open>Reading through a node pointer and through its message pointer.\<close>

definition load_msg :: "mq \<Rightarrow> addr \<Rightarrow> (addr \<times> msg_st) result" where
  "load_msg s n =
     (case mq_node s n of
        None \<Rightarrow> Inl Use_after_free
      | Some None \<Rightarrow> Inl Null_deref
      | Some (Some p) \<Rightarrow> (case mq_msg s p of None \<Rightarrow> Inl Use_after_free | Some m \<Rightarrow> Inr (p, m)))"

text \<open>kfree(n->msg); kfree(n);\<close>

definition free_node :: "mq \<Rightarrow> addr \<Rightarrow> mq result" where
  "free_node s n =
     (case mq_node s n of
        None \<Rightarrow> Inl Use_after_free
      | Some None \<Rightarrow> Inr (s\<lparr>mq_node := (mq_node s)(n := None)\<rparr>)
      | Some (Some p) \<Rightarrow>
          if p \<notin> dom (mq_msg s) then Inl Double_free
          else Inr (s\<lparr>mq_msg := (mq_msg s)(p := None), mq_node := (mq_node s)(n := None)\<rparr>))"

subsection \<open>Shape and contents\<close>

definition mptr :: "mq \<Rightarrow> addr \<Rightarrow> addr" where
  "mptr s n = the (the (mq_node s n))"

text \<open>
  The nodes of the list and nothing else are allocated, each with a message of its own,
  and the lock is free.
\<close>

definition mq_inv :: "mq \<Rightarrow> bool" where
  "mq_inv s \<longleftrightarrow>
     \<not> mq_lock s \<and> distinct (mq_list s) \<and> dom (mq_node s) = set (mq_list s) \<and>
     (\<forall>n \<in> set (mq_list s). mq_node s n = Some (Some (mptr s n))) \<and>
     inj_on (mptr s) (set (mq_list s)) \<and> dom (mq_msg s) = mptr s ` set (mq_list s) \<and>
     (\<forall>m \<in> ran (mq_msg s). msg_ok m)"

definition contents :: "mq \<Rightarrow> msg_st list" where
  "contents s = map (\<lambda>n. the (mq_msg s (mptr s n))) (mq_list s)"

definition mq_empty :: mq where
  "mq_empty = \<lparr>mq_node = Map.empty, mq_msg = Map.empty, mq_list = [], mq_lock = False\<rparr>"

lemma mptr_frame:
  "mptr (M\<lparr>mq_list := ns\<rparr>) = mptr M"
  "mptr (M\<lparr>mq_msg := f\<rparr>) = mptr M"
  by (simp_all add: mptr_def fun_eq_iff)

lemma mq_empty_inv [simp]: "mq_inv mq_empty" "contents mq_empty = []"
  by (simp_all add: mq_inv_def mq_empty_def contents_def)

text \<open>Linking a fresh node with a fresh message at the end of the list.\<close>

lemma link_tail:
  assumes "mq_inv s" and "n \<notin> dom (mq_node s)" and "p \<notin> dom (mq_msg s)" and "msg_ok m"
    and s': "s' = s\<lparr>mq_node := (mq_node s)(n \<mapsto> Some p), mq_msg := (mq_msg s)(p \<mapsto> m),
      mq_list := mq_list s @ [n]\<rparr>"
  shows "mq_inv s' \<and> contents s' = contents s @ [m]"
proof -
  have n: "n \<notin> set (mq_list s)" using assms(1,2) by (auto simp: mq_inv_def)
  have p: "p \<notin> mptr s ` set (mq_list s)" using assms(1,3) by (auto simp: mq_inv_def)
  have old: "mptr s' x = mptr s x" if "x \<in> set (mq_list s)" for x
    using that n by (auto simp: s' mptr_def)
  have new: "mptr s' n = p" by (simp add: s' mptr_def)
  have img: "mptr s' ` set (mq_list s) = mptr s ` set (mq_list s)"
    using old by (auto intro!: image_cong)
  have "inj_on (mptr s') (set (mq_list s'))"
  proof -
    have "inj_on (mptr s') (set (mq_list s))"
      using assms(1) by (subst inj_on_cong [of _ _ "mptr s"]) (auto simp: old mq_inv_def)
    then show ?thesis using n p new by (simp add: s' img [unfolded s'])
  qed
  moreover have "\<forall>x \<in> set (mq_list s'). mq_node s' x = Some (Some (mptr s' x))"
    using assms(1) n old new by (auto simp: s' mq_inv_def)
  moreover have "dom (mq_msg s') = mptr s' ` set (mq_list s')"
    using assms(1) new img by (auto simp: s' mq_inv_def)
  moreover have "\<forall>m \<in> ran (mq_msg s'). msg_ok m"
    using assms(1,4) by (auto simp: s' mq_inv_def ran_def)
  moreover have "\<not> mq_lock s'" "distinct (mq_list s')" "dom (mq_node s') = set (mq_list s')"
    using assms(1) n by (auto simp: s' mq_inv_def)
  ultimately have "mq_inv s'"
    by (simp add: mq_inv_def)
  moreover have "contents s' = contents s @ [m]"
    using old new p by (auto simp: s' contents_def)
  ultimately show ?thesis by simp
qed

text \<open>Unlinking the first node and freeing it.\<close>

lemma unlink_head:
  assumes "mq_inv s" and "mq_list s = n # ns"
    and s': "s' = s\<lparr>mq_list := ns, mq_msg := (mq_msg s)(mptr s n := None), mq_node := (mq_node s)(n := None)\<rparr>"
  shows "mq_inv s' \<and> contents s = the (mq_msg s (mptr s n)) # contents s'"
proof -
  have n: "n \<notin> set ns" using assms(1,2) by (auto simp: mq_inv_def)
  have old: "mptr s' x = mptr s x" if "x \<in> set ns" for x
    using that n by (auto simp: s' mptr_def)
  have inj: "inj_on (mptr s) (insert n (set ns))"
    using assms(1,2) unfolding mq_inv_def by (metis list.simps(15))
  have p: "mptr s n \<notin> mptr s ` set ns" using inj n by (auto simp: inj_on_def)
  have img: "mptr s' ` set ns = mptr s ` set ns" using old by (auto intro!: image_cong)
  have "inj_on (mptr s') (set ns)"
    using inj by (subst inj_on_cong [of _ _ "mptr s"]) (auto simp: old)
  moreover have "dom (mq_msg s') = mptr s' ` set ns"
    using assms(1,2) p by (auto simp: s' img [unfolded s'] mq_inv_def)
  moreover have "\<forall>x \<in> set ns. mq_node s' x = Some (Some (mptr s' x))"
    using assms(1,2) n old by (auto simp: s' mq_inv_def)
  moreover have "\<forall>m \<in> ran (mq_msg s'). msg_ok m"
    using assms(1) by (auto simp: s' mq_inv_def ran_def split: if_splits)
  moreover have "mq_list s' = ns" "\<not> mq_lock s'" "distinct ns" "dom (mq_node s') = set ns"
    using assms(1,2) n by (auto simp: s' mq_inv_def)
  ultimately have "mq_inv s'"
    by (simp add: mq_inv_def)
  moreover have "contents s = the (mq_msg s (mptr s n)) # contents s'"
  proof -
    have "mptr s x \<noteq> mptr s n" if "x \<in> set ns" for x
      using that p by (metis image_eqI)
    then show ?thesis
      using assms(2) old by (auto simp: s' contents_def)
  qed
  ultimately show ?thesis by simp
qed

lemma head_loads:
  assumes "mq_inv s" and "mq_list s = n # ns"
  shows "load_msg s n = Inr (mptr s n, the (mq_msg s (mptr s n)))"
    and "msg_ok (the (mq_msg s (mptr s n)))"
    and "mptr s n \<in> dom (mq_msg s)"
proof -
  have d: "mptr s n \<in> dom (mq_msg s)" and o: "mq_node s n = Some (Some (mptr s n))"
    using assms by (auto simp: mq_inv_def)
  then show "load_msg s n = Inr (mptr s n, the (mq_msg s (mptr s n)))"
    by (auto simp: load_msg_def)
  from d obtain m where "mq_msg s (mptr s n) = Some m" by auto
  then show "msg_ok (the (mq_msg s (mptr s n)))"
    using assms(1) by (auto simp: mq_inv_def intro: ranI)
  show "mptr s n \<in> dom (mq_msg s)" by (rule d)
qed

subsection \<open>Heaps in use by several threads\<close>

text \<open>Every allocated message has its 132 bytes.\<close>

definition msgs_ok :: "mq \<Rightarrow> bool" where
  "msgs_ok M \<longleftrightarrow> (\<forall>p m. mq_msg M p = Some m \<longrightarrow> msg_ok m)"

lemma msgs_ok_load: "msgs_ok M \<Longrightarrow> load_msg M n = Inr (p, m) \<Longrightarrow> msg_ok m"
  by (auto simp: msgs_ok_def load_msg_def split: option.splits)

lemma msgs_ok_free: "msgs_ok M \<Longrightarrow> free_node M n = Inr M' \<Longrightarrow> msgs_ok M'"
  by (auto simp: msgs_ok_def free_node_def split: option.splits if_splits)

lemma msgs_ok_frame [simp]:
  "msgs_ok (M\<lparr>mq_node := f\<rparr>) = msgs_ok M" "msgs_ok (M\<lparr>mq_list := ns\<rparr>) = msgs_ok M" "msgs_ok (M\<lparr>mq_lock := b\<rparr>) = msgs_ok M"
  by (simp_all add: msgs_ok_def)

lemma msgs_ok_upd [intro]: "msgs_ok M \<Longrightarrow> msg_ok m \<Longrightarrow> msgs_ok (M\<lparr>mq_msg := (mq_msg M)(p \<mapsto> m)\<rparr>)"
  by (auto simp: msgs_ok_def)

lemma msgs_ok_upd2 [intro]:
  "msgs_ok M \<Longrightarrow> msg_ok m \<Longrightarrow> msgs_ok (M\<lparr>mq_node := f, mq_msg := (mq_msg M)(p \<mapsto> m)\<rparr>)"
  by (auto simp: msgs_ok_def)

lemma msgs_ok_empty [simp]: "msgs_ok mq_empty"
  by (simp add: msgs_ok_def mq_empty_def)

text \<open>
  \<open>heap_ok M N H\<close>: the allocated nodes are those in \<open>N\<close>, each with a message of its own,
  and those in \<open>H\<close>, whose message pointer is null; no other message is allocated.
\<close>

definition heap_ok :: "mq \<Rightarrow> addr set \<Rightarrow> addr set \<Rightarrow> bool" where
  "heap_ok M N H \<longleftrightarrow>
     dom (mq_node M) = N \<union> H \<and> N \<inter> H = {} \<and> (\<forall>n \<in> H. mq_node M n = Some None) \<and>
     (\<forall>n \<in> N. mq_node M n = Some (Some (mptr M n))) \<and> inj_on (mptr M) N \<and>
     dom (mq_msg M) = mptr M ` N"

lemma heap_ok_list [simp]: "heap_ok (M\<lparr>mq_list := ns\<rparr>) N H = heap_ok M N H"
  by (simp add: heap_ok_def mptr_frame)

lemma heap_load:
  assumes "heap_ok M N H" and "n \<in> N"
  shows "\<exists>m. load_msg M n = Inr (mptr M n, m) \<and> mq_msg M (mptr M n) = Some m"
proof -
  have "mptr M n \<in> dom (mq_msg M)" "mq_node M n = Some (Some (mptr M n))"
    using assms by (auto simp: heap_ok_def)
  then show ?thesis by (auto simp: load_msg_def)
qed

lemma heap_free:
  assumes "heap_ok M N H" and "n \<in> N"
  shows "free_node M n = Inr (M\<lparr>mq_msg := (mq_msg M)(mptr M n := None), mq_node := (mq_node M)(n := None)\<rparr>)"
proof -
  have "mptr M n \<in> dom (mq_msg M)" "mq_node M n = Some (Some (mptr M n))"
    using assms by (auto simp: heap_ok_def)
  then show ?thesis by (auto simp: free_node_def)
qed

lemma heap_free_half:
  "heap_ok M N H \<Longrightarrow> n \<in> H \<Longrightarrow> free_node M n = Inr (M\<lparr>mq_node := (mq_node M)(n := None)\<rparr>)"
  by (simp add: free_node_def heap_ok_def)

lemma heap_after_free:
  assumes "heap_ok M N H" and "n \<in> N"
  shows "heap_ok (M\<lparr>mq_msg := (mq_msg M)(mptr M n := None), mq_node := (mq_node M)(n := None)\<rparr>) (N - {n}) H"
    (is "heap_ok ?M' _ _")
proof -
  have old: "mptr ?M' x = mptr M x" if "x \<noteq> n" for x using that by (simp add: mptr_def)
  have img: "mptr ?M' ` (N - {n}) = mptr M ` (N - {n})" using old by (auto intro!: image_cong)
  have inj: "inj_on (mptr M) N" using assms(1) by (simp add: heap_ok_def)
  have "inj_on (mptr ?M') (N - {n})"
    using inj by (subst inj_on_cong [of _ _ "mptr M"]) (auto simp: old intro: inj_on_subset)
  moreover have "mptr M ` N - {mptr M n} = mptr M ` (N - {n})"
    using inj assms(2) by (auto simp: inj_on_def)
  moreover have "dom (mq_msg ?M') = mptr M ` N - {mptr M n}"
    using assms(1) by (auto simp: heap_ok_def)
  moreover have "dom (mq_node ?M') = N - {n} \<union> H" "\<forall>x \<in> H. mq_node ?M' x = Some None"
    using assms by (auto simp: heap_ok_def)
  moreover have "\<forall>x \<in> N - {n}. mq_node ?M' x = Some (Some (mptr ?M' x))"
    using assms old by (auto simp: heap_ok_def)
  ultimately show ?thesis
    using assms(1) img unfolding heap_ok_def by auto
qed

lemma heap_after_free_half:
  assumes "heap_ok M N H" and "n \<in> H"
  shows "heap_ok (M\<lparr>mq_node := (mq_node M)(n := None)\<rparr>) N (H - {n})" (is "heap_ok ?M' _ _")
proof -
  have old: "mptr ?M' x = mptr M x" if "x \<in> N" for x
    using that assms by (auto simp: mptr_def heap_ok_def)
  have "mptr ?M' ` N = mptr M ` N" using old by (auto intro!: image_cong)
  moreover have "inj_on (mptr ?M') N"
    using assms(1) by (subst inj_on_cong [of _ _ "mptr M"]) (auto simp: old heap_ok_def)
  moreover have "dom (mq_node ?M') = N \<union> (H - {n})" "\<forall>x \<in> H - {n}. mq_node ?M' x = Some None"
    using assms by (auto simp: heap_ok_def)
  moreover have "\<forall>x \<in> N. mq_node ?M' x = Some (Some (mptr ?M' x))"
    using assms old by (auto simp: heap_ok_def)
  ultimately show ?thesis
    using assms(1) unfolding heap_ok_def by auto
qed

lemma heap_alloc_node:
  assumes "heap_ok M N H" and "n \<notin> dom (mq_node M)"
  shows "heap_ok (M\<lparr>mq_node := (mq_node M)(n \<mapsto> None)\<rparr>) N (insert n H)" (is "heap_ok ?M' _ _")
proof -
  have n: "n \<notin> N" "n \<notin> H" using assms by (auto simp: heap_ok_def)
  have old: "mptr ?M' x = mptr M x" if "x \<in> N" for x using that n by (auto simp: mptr_def)
  have "mptr ?M' ` N = mptr M ` N" using old by (auto intro!: image_cong)
  moreover have "inj_on (mptr ?M') N"
    using assms(1) by (subst inj_on_cong [of _ _ "mptr M"]) (auto simp: old heap_ok_def)
  moreover have "\<forall>x \<in> N. mq_node ?M' x = Some (Some (mptr ?M' x))"
    using assms old n by (auto simp: heap_ok_def)
  ultimately show ?thesis
    using assms(1) n unfolding heap_ok_def by auto
qed

lemma heap_alloc_msg:
  assumes "heap_ok M N H" and "n \<in> H" and "p \<notin> dom (mq_msg M)"
  shows "heap_ok (M\<lparr>mq_node := (mq_node M)(n \<mapsto> Some p), mq_msg := (mq_msg M)(p \<mapsto> m)\<rparr>) (insert n N) (H - {n})"
    (is "heap_ok ?M' _ _")
proof -
  have n: "n \<notin> N" using assms by (auto simp: heap_ok_def)
  have p: "p \<notin> mptr M ` N" using assms by (auto simp: heap_ok_def)
  have old: "mptr ?M' x = mptr M x" if "x \<in> N" for x using that n by (auto simp: mptr_def)
  have new: "mptr ?M' n = p" by (simp add: mptr_def)
  have img: "mptr ?M' ` N = mptr M ` N" using old by (auto intro!: image_cong)
  have "inj_on (mptr ?M') N"
    using assms(1) by (subst inj_on_cong [of _ _ "mptr M"]) (auto simp: old heap_ok_def)
  then have "inj_on (mptr ?M') (insert n N)"
    using n p new img by simp
  moreover have "dom (mq_msg ?M') = mptr ?M' ` insert n N"
    using assms(1) new img by (auto simp: heap_ok_def)
  moreover have "\<forall>x \<in> insert n N. mq_node ?M' x = Some (Some (mptr ?M' x))"
    using assms old new n by (auto simp: heap_ok_def)
  moreover have "dom (mq_node ?M') = insert n N \<union> (H - {n})" "\<forall>x \<in> H - {n}. mq_node ?M' x = Some None"
    using assms by (auto simp: heap_ok_def)
  ultimately show ?thesis
    using assms(1) n unfolding heap_ok_def by auto
qed

lemma heap_store:
  "heap_ok M N H \<Longrightarrow> n \<in> N \<Longrightarrow> heap_ok (M\<lparr>mq_msg := (mq_msg M)(mptr M n \<mapsto> m)\<rparr>) N H"
  by (auto simp: heap_ok_def mptr_frame)

text \<open>The message a node points to.\<close>

definition msg_at :: "mq \<Rightarrow> addr \<Rightarrow> msg_st option" where
  "msg_at M n = (case mq_node M n of Some (Some p) \<Rightarrow> mq_msg M p | _ \<Rightarrow> None)"

lemma msg_at_list [simp]: "msg_at (M\<lparr>mq_list := ns\<rparr>) n = msg_at M n"
  by (simp add: msg_at_def split: option.splits)

lemma msg_at_mptr: "heap_ok M N H \<Longrightarrow> n \<in> N \<Longrightarrow> msg_at M n = mq_msg M (mptr M n)"
  by (simp add: msg_at_def heap_ok_def)

lemma mptr_neq: "heap_ok M N H \<Longrightarrow> n \<in> N \<Longrightarrow> x \<in> N \<Longrightarrow> x \<noteq> n \<Longrightarrow> mptr M x \<noteq> mptr M n"
  by (auto simp: heap_ok_def inj_on_def)

lemma heap_node: "heap_ok M N H \<Longrightarrow> n \<in> N \<Longrightarrow> mq_node M n = Some (Some (mptr M n))"
  by (simp add: heap_ok_def)

text \<open>
  The unload loop of both modules, over the nodes as list_for_each_safe meets them: each is
  unlinked and freed with its message. Run on the whole list it frees the whole heap.
\<close>

locale drain_loop =
  fixes drain :: "addr list \<Rightarrow> mq \<Rightarrow> mq result"
  assumes stops: "drain [] s = Inr s"
    and frees_next: "drain (pos # q) s = bindr (free_node (s\<lparr>mq_list := remove1 pos (mq_list s)\<rparr>) pos) (drain q)"
begin

lemma frees_all:
  "heap_ok M (set ns) {} \<Longrightarrow> distinct ns \<Longrightarrow> mq_list M = ns \<Longrightarrow>
    \<exists>M'. drain ns M = Inr M' \<and> heap_ok M' {} {} \<and> mq_list M' = []"
proof (induction ns arbitrary: M)
  case Nil
  then show ?case by (simp add: stops)
next
  case (Cons n ns)
  let ?M = "M\<lparr>mq_list := ns\<rparr>"
  let ?M' = "?M\<lparr>mq_msg := (mq_msg ?M)(mptr ?M n := None), mq_node := (mq_node ?M)(n := None)\<rparr>"
  have ok: "heap_ok ?M (set (n # ns)) {}" using Cons.prems(1) by simp
  have n: "n \<in> set (n # ns)" by simp
  have "heap_ok ?M' (set ns) {}"
    using heap_after_free [OF ok n] Cons.prems(2) by simp
  then obtain M'' where "drain ns ?M' = Inr M''" "heap_ok M'' {} {}" "mq_list M'' = []"
    using Cons.IH [of ?M'] Cons.prems by auto
  then show ?case
    using heap_free [OF ok n] Cons.prems(3) by (simp add: frees_next)
qed

end

subsection \<open>The contract of a queue\<close>

datatype ('e, 'm, 'g) qop =
    Put 'e 'm \<comment> \<open>in an environment, a message\<close>
  | Get 'g \<comment> \<open>into a buffer\<close>

fun fifo_run ::
  "('e \<Rightarrow> 'm \<Rightarrow> 's \<Rightarrow> (int \<times> 's) result) \<Rightarrow> ('g \<Rightarrow> 's \<Rightarrow> ('m option \<times> 's) result) \<Rightarrow>
     ('e, 'm, 'g) qop list \<Rightarrow> 's \<Rightarrow> ('s \<times> 'm list) result" where
  "fifo_run put get [] s = Inr (s, [])"
| "fifo_run put get (Put e m # ops) s = bindr (put e m s) (\<lambda>(r, s1). fifo_run put get ops s1)"
| "fifo_run put get (Get g # ops) s =
     bindr (get g s) (\<lambda>(x, s1). bindr (fifo_run put get ops s1) (\<lambda>(s2, out).
       Inr (s2, (case x of None \<Rightarrow> out | Some m \<Rightarrow> m # out))))"

fun puts :: "('e, 'm, 'g) qop list \<Rightarrow> 'm list" where
  "puts [] = []"
| "puts (Put e m # ops) = m # puts ops"
| "puts (Get g # ops) = puts ops"

text \<open>Every call of the script meets an environment, a message and a buffer it is specified for.\<close>

fun fifo_admissible ::
  "('e \<Rightarrow> 'm \<Rightarrow> 's \<Rightarrow> (int \<times> 's) result) \<Rightarrow> ('g \<Rightarrow> 's \<Rightarrow> ('m option \<times> 's) result) \<Rightarrow>
     ('e \<Rightarrow> 's \<Rightarrow> bool) \<Rightarrow> ('m \<Rightarrow> bool) \<Rightarrow> ('g \<Rightarrow> bool) \<Rightarrow> ('e, 'm, 'g) qop list \<Rightarrow> 's \<Rightarrow> bool" where
  "fifo_admissible put get ok good room [] s \<longleftrightarrow> True"
| "fifo_admissible put get ok good room (Put e m # ops) s \<longleftrightarrow> ok e s \<and> good m \<and>
     (case put e m s of Inl _ \<Rightarrow> True | Inr (r, s1) \<Rightarrow> fifo_admissible put get ok good room ops s1)"
| "fifo_admissible put get ok good room (Get g # ops) s \<longleftrightarrow> room g \<and>
     (case get g s of Inl _ \<Rightarrow> True | Inr (x, s1) \<Rightarrow> fifo_admissible put get ok good room ops s1)"

locale msg_fifo =
  fixes put :: "'e \<Rightarrow> 'm \<Rightarrow> 's \<Rightarrow> (int \<times> 's) result"
    and get :: "'g \<Rightarrow> 's \<Rightarrow> ('m option \<times> 's) result"
    and ok :: "'e \<Rightarrow> 's \<Rightarrow> bool"
    and good :: "'m \<Rightarrow> bool"
    and room :: "'g \<Rightarrow> bool"
    and inv :: "'s \<Rightarrow> bool"
    and view :: "'s \<Rightarrow> 'm list"
  assumes put_appends: "inv s \<Longrightarrow> ok e s \<Longrightarrow> good m \<Longrightarrow>
      \<exists>r s'. put e m s = Inr (r, s') \<and> inv s' \<and> view s' = view s @ [m]"
    and get_empty: "inv s \<Longrightarrow> room g \<Longrightarrow> view s = [] \<Longrightarrow>
      \<exists>s'. get g s = Inr (None, s') \<and> inv s' \<and> view s' = []"
    and get_first: "inv s \<Longrightarrow> room g \<Longrightarrow> view s = m # ms \<Longrightarrow>
      \<exists>s'. get g s = Inr (Some m, s') \<and> inv s' \<and> view s' = ms"
begin

theorem exactly_once_in_order:
  "inv s \<Longrightarrow> fifo_admissible put get ok good room ops s \<Longrightarrow>
    \<exists>s' out. fifo_run put get ops s = Inr (s', out) \<and> inv s' \<and> view s @ puts ops = out @ view s'"
proof (induction ops arbitrary: s)
  case Nil
  then show ?case by simp
next
  case (Cons x ops)
  note IH = Cons.IH and prems = Cons.prems
  show ?case
  proof (cases x)
    case (Put e m)
    then obtain r s1 where p: "put e m s = Inr (r, s1)" "inv s1" "view s1 = view s @ [m]"
      using prems put_appends [of s e m] by auto
    then show ?thesis
      using IH [of s1] prems Put by auto
  next
    case (Get g)
    show ?thesis
    proof (cases "view s")
      case Nil
      then obtain s1 where "get g s = Inr (None, s1)" "inv s1" "view s1 = []"
        using prems Get get_empty [of s g] by auto
      then show ?thesis
        using IH [of s1] prems Get Nil by auto
    next
      case (Cons m ms)
      then obtain s1 where "get g s = Inr (Some m, s1)" "inv s1" "view s1 = ms"
        using prems Get get_first [of s g] by auto
      then show ?thesis
        using IH [of s1] prems Get Cons by auto
    qed
  qed
qed

end

end
