(* ===== verification/Msg_Queue.thy ===== *)
theory Msg_Queue
  imports Msg_Store Ioctl
begin

text \<open>
  lab4/ch3: the kernel message queue (ch3_mod_202111360.c, ch3.h) and its two programs
  (ch3_writer.c, ch3_reader.c). One call is one definition on the state \<open>mq\<close> (Queue_Threads has
  its steps, interleaved with those of other threads); memory is checked, so a null or dangling pointer is
  a fault. Shown: the queue delivers every message once and in order, the programs'
  round trip, what an incomplete user copy and a failed kmalloc do, and that unloading
  frees every node.
\<close>

definition CH3_IOCTL_READ :: "nat \<Rightarrow> 32 word" where
  "CH3_IOCTL_READ ptr_size = iowr SIMPLE_IOCTL_NUM IOCTL_NUM1 ptr_size"

definition CH3_IOCTL_WRITE :: "nat \<Rightarrow> 32 word" where
  "CH3_IOCTL_WRITE ptr_size = iowr SIMPLE_IOCTL_NUM IOCTL_NUM2 ptr_size"

lemma ch3_commands_differ [simp]:
  "CH3_IOCTL_WRITE p \<noteq> CH3_IOCTL_READ p" "CH3_IOCTL_READ p \<noteq> CH3_IOCTL_WRITE p"
  by (simp_all add: CH3_IOCTL_READ_def CH3_IOCTL_WRITE_def ioctl_nums iowr_neq)

subsection \<open>The module\<close>

text \<open>
  \<open>usr\<close> is the structure at the user's address and \<open>u\<close> the number of bytes of it the kernel
  could not copy. The result is the value returned, the user's structure afterwards and
  the new state.
\<close>

definition ch3_read :: "msg_st \<Rightarrow> nat \<Rightarrow> mq \<Rightarrow> (int \<times> msg_st \<times> mq) result" where
  "ch3_read usr u s =
     bindr (spin_lock s) (\<lambda>s1.
       case mq_list s1 of
         [] \<Rightarrow>
           let s2 = spin_unlock s1;
               temp_msg = zero_msg\<lparr>msg_str := (msg_str zero_msg)[0 := CHR ''0'', 1 := NUL]\<rparr>
           in Inr (int u, struct_copy usr temp_msg u, s2)
       | first_node # rest \<Rightarrow>
           bindr (load_msg s1 first_node) (\<lambda>(_, temp_msg).
             let s2 = spin_unlock (s1\<lparr>mq_list := rest\<rparr>) in
             bindr (free_node s2 first_node) (\<lambda>s3.
               Inr (int u, struct_copy usr temp_msg u, s3))))"

definition ch3_write :: "alloc_env \<Rightarrow> msg_st \<Rightarrow> nat \<Rightarrow> mq \<Rightarrow> (int \<times> mq) result" where
  "ch3_write e usr u s =
     (case new_node_at e of
        None \<Rightarrow> Inl Null_deref
      | Some new_node \<Rightarrow>
          (case new_msg_at e of
             None \<Rightarrow> Inl Null_deref
           | Some p \<Rightarrow>
               let s1 = s\<lparr>mq_node := (mq_node s)(new_node \<mapsto> Some p),
                          mq_msg := (mq_msg s)(p \<mapsto> struct_copy zero_msg usr u)\<rparr>
               in bindr (spin_lock s1) (\<lambda>s2.
                    Inr (int u, spin_unlock (s2\<lparr>mq_list := mq_list s2 @ [new_node]\<rparr>)))))"

definition ch3_ioctl ::
  "nat \<Rightarrow> alloc_env \<Rightarrow> 32 word \<Rightarrow> msg_st \<Rightarrow> nat \<Rightarrow> mq \<Rightarrow> (int \<times> msg_st \<times> mq) result" where
  "ch3_ioctl ptr_size e cmd usr u s =
     (if cmd = CH3_IOCTL_READ ptr_size then
        bindr (ch3_read usr u s) (\<lambda>(_, usr', s'). Inr (0, usr', s'))
      else if cmd = CH3_IOCTL_WRITE ptr_size then
        bindr (ch3_write e usr u s) (\<lambda>(_, s'). Inr (0, usr, s'))
      else Inr (0, usr, s))"

text \<open>
  Loading. The return value of alloc_chrdev_region is not looked at, and cdev_init on a
  failed cdev_alloc dereferences null.
\<close>

definition ch3_init :: "kernel \<Rightarrow> mq \<Rightarrow> (int \<times> mq \<times> kcall list) result" where
  "ch3_init k s =
     (let t1 = [Alloc_chrdev_region (ret_alloc_chrdev k), Cdev_alloc (ret_cdev_alloc k)] in
      if \<not> ret_cdev_alloc k then Inl Null_deref
      else let err = ret_cdev_add k; t2 = t1 @ [Cdev_init, Cdev_add err] in
      if err < 0 then Inr (err, s, t2)
      else Inr (0, s\<lparr>mq_list := [], mq_lock := False\<rparr>, t2))"

text \<open>The loop of ch3_exit over the nodes as list_for_each_safe meets them.\<close>

fun ch3_drain :: "addr list \<Rightarrow> mq \<Rightarrow> mq result" where
  "ch3_drain [] s = Inr s"
| "ch3_drain (pos # q) s =
     bindr (free_node (s\<lparr>mq_list := remove1 pos (mq_list s)\<rparr>) pos) (ch3_drain q)"

interpretation ch3_unload: drain_loop ch3_drain
  by unfold_locales simp_all

definition ch3_exit :: "mq \<Rightarrow> (mq \<times> kcall list) result" where
  "ch3_exit s = bindr (ch3_drain (mq_list s) s) (\<lambda>s'. Inr (s', [Cdev_del, Unregister_chrdev_region]))"

subsection \<open>The programs\<close>

text \<open>
  The writer: the exit status and the structure it passes to the driver, if it gets that
  far. \<open>user_str\<close> is an uninitialised local variable.
\<close>

definition ch3_writer_main :: "string list \<Rightarrow> msg_st \<Rightarrow> int \<Rightarrow> int \<times> msg_st option" where
  "ch3_writer_main argv user_str dev =
     (if length argv \<noteq> 2 then (- 1, None)
      else let str1 = (c_strncpy (msg_str user_str) (argv ! 1) 127)[127 := NUL];
               user_str = \<lparr>msg_len = word_of_nat (length (cstring str1)), msg_str = str1\<rparr>
           in if dev < 0 then (- 1, None) else (0, Some user_str))"

datatype reader_output =
    Cannot_open
  | Queue_is_empty
  | Took string

definition ch3_reader_main :: "int \<Rightarrow> msg_st \<Rightarrow> int \<times> reader_output" where
  "ch3_reader_main dev user_str =
     (if dev < 0 then (- 1, Cannot_open)
      else (0, if cstring (msg_str user_str) = ''0'' then Queue_is_empty
               else Took (cstring (msg_str user_str))))"

subsection \<open>The calls on a well-formed queue\<close>

lemma free_node_owned:
  "mq_node s n = Some (Some p) \<Longrightarrow> p \<in> dom (mq_msg s) \<Longrightarrow>
    free_node s n = Inr (s\<lparr>mq_msg := (mq_msg s)(p := None), mq_node := (mq_node s)(n := None)\<rparr>)"
  by (simp add: free_node_def)

definition empty_reply :: msg_st where
  "empty_reply = \<lparr>msg_len = 0, msg_str = CHR ''0'' # NUL # replicate 126 NUL\<rparr>"

lemma empty_reply_ok [simp]: "msg_ok empty_reply" "cstring (msg_str empty_reply) = ''0''"
  by (simp_all add: msg_ok_def empty_reply_def)

lemma zero_msg_marked:
  "zero_msg\<lparr>msg_str := (msg_str zero_msg)[0 := CHR ''0'', Suc 0 := NUL]\<rparr> = empty_reply"
  by (simp add: zero_msg_def empty_reply_def numeral_eq_Suc)

lemma ch3_read_empty:
  assumes "mq_inv s" and "contents s = []"
  shows "ch3_read usr u s = Inr (int u, struct_copy usr empty_reply u, s)"
proof -
  have "mq_list s = []" "\<not> mq_lock s" using assms by (auto simp: contents_def mq_inv_def)
  moreover from this have "s\<lparr>mq_lock := False\<rparr> = s" by simp
  ultimately show ?thesis
    by (simp add: ch3_read_def spin_lock_def spin_unlock_def zero_msg_marked Let_def)
qed

lemma ch3_read_first:
  assumes "mq_inv s" and "contents s = m # ms"
  shows "\<exists>s'. ch3_read usr u s = Inr (int u, struct_copy usr m u, s') \<and> mq_inv s' \<and> contents s' = ms \<and>
    msg_ok m"
proof -
  obtain n ns where l: "mq_list s = n # ns" using assms(2) by (auto simp: contents_def)
  let ?s' = "s\<lparr>mq_list := ns, mq_msg := (mq_msg s)(mptr s n := None), mq_node := (mq_node s)(n := None)\<rparr>"
  note h = head_loads [OF assms(1) l]
  have node: "mq_node s n = Some (Some (mptr s n))" and lock: "\<not> mq_lock s"
    using assms(1) l by (auto simp: mq_inv_def)
  have m: "m = the (mq_msg s (mptr s n))" "mq_inv ?s'" "contents ?s' = ms"
    using unlink_head [OF assms(1) l refl] assms(2) by auto
  have "ch3_read usr u s = Inr (int u, struct_copy usr m u, ?s')"
    using lock l node h(3) m(1)
    by (auto simp: ch3_read_def spin_lock_def spin_unlock_def load_msg_def free_node_def Let_def)
  then show ?thesis using m h(2) by auto
qed

lemma ch3_write_appends:
  assumes "mq_inv s" and "alloc_fresh e s" and "msg_ok m"
  shows "\<exists>s'. ch3_write e m u s = Inr (int u, s') \<and> mq_inv s' \<and>
    contents s' = contents s @ [struct_copy zero_msg m u]"
proof -
  obtain n p where e: "new_node_at e = Some n" "n \<notin> dom (mq_node s)"
      "new_msg_at e = Some p" "p \<notin> dom (mq_msg s)"
    using assms(2) by (auto simp: alloc_fresh_def)
  let ?s' = "s\<lparr>mq_node := (mq_node s)(n \<mapsto> Some p),
    mq_msg := (mq_msg s)(p \<mapsto> struct_copy zero_msg m u), mq_list := mq_list s @ [n]\<rparr>"
  have lock: "\<not> mq_lock s" using assms(1) by (simp add: mq_inv_def)
  have "ch3_write e m u s = Inr (int u, ?s')"
    using e lock by (simp add: ch3_write_def spin_lock_def spin_unlock_def)
  moreover have "mq_inv ?s' \<and> contents ?s' = contents s @ [struct_copy zero_msg m u]"
    using link_tail [OF assms(1) e(2,4)] assms(3) by simp
  ultimately show ?thesis by blast
qed

subsection \<open>The module as a queue\<close>

definition ch3_put :: "alloc_env \<Rightarrow> msg_st \<Rightarrow> mq \<Rightarrow> (int \<times> mq) result" where
  "ch3_put e m s = ch3_write e m 0 s"

text \<open>What a reader with the buffer \<open>usr\<close> gets; the reply to an empty queue is no message.\<close>

definition ch3_get :: "msg_st \<Rightarrow> mq \<Rightarrow> (msg_st option \<times> mq) result" where
  "ch3_get usr s =
     bindr (ch3_read usr 0 s) (\<lambda>(_, m, s'). Inr (if mq_list s = [] then None else Some m, s'))"

interpretation ch3_queue: msg_fifo ch3_put ch3_get alloc_fresh msg_ok msg_ok mq_inv contents
proof (unfold_locales, goal_cases)
  case (1 s e m)
  then show ?case
    using ch3_write_appends [of s e m 0] by (auto simp: ch3_put_def struct_copy_all)
next
  case (2 s g)
  then show ?case
    using ch3_read_empty [of s g 0] by (auto simp: ch3_get_def contents_def)
next
  case (3 s g m ms)
  then show ?case
    using ch3_read_first [of s m ms g 0] by (auto simp: ch3_get_def contents_def struct_copy_all)
qed

subsection \<open>Properties\<close>

text \<open>
  C12. The message queue of lab4 is a FIFO queue: any sequence of complete writes and
  reads on a well-formed queue runs without a fault, keeps the queue well formed (every
  node and message allocated exactly while it is queued), and what was queued before
  followed by what was written equals what was read followed by what is queued after.
\<close>

theorem ch3_fifo:
  assumes "mq_inv s" and "fifo_admissible ch3_put ch3_get alloc_fresh msg_ok msg_ok ops s"
  shows "\<exists>s' out. fifo_run ch3_put ch3_get ops s = Inr (s', out) \<and> mq_inv s' \<and>
    contents s @ puts ops = out @ contents s'"
  using assms by (rule ch3_queue.exactly_once_in_order)

lemma mq_list_empty: "mq_list mq_empty = []"
  by (simp add: mq_empty_def)

definition sample_msg :: msg_st where
  "sample_msg = \<lparr>msg_len = 2, msg_str = ''hi'' @ replicate 126 NUL\<rparr>"

definition sample_alloc :: alloc_env where
  "sample_alloc = \<lparr>new_node_at = Some 16, new_msg_at = Some 32\<rparr>"

lemma sample_ok [simp]: "msg_ok sample_msg" "alloc_fresh sample_alloc mq_empty"
  by (simp_all add: msg_ok_def sample_msg_def alloc_fresh_def sample_alloc_def mq_empty_def)

theorem ch3_fifo_witness:
  "\<exists>s' out. fifo_run ch3_put ch3_get [Get zero_msg, Put sample_alloc sample_msg, Get zero_msg] mq_empty = Inr (s', out) \<and>
    mq_inv s' \<and> [sample_msg] = out @ contents s'"
proof -
  have e: "ch3_get zero_msg mq_empty = Inr (None, mq_empty)"
    using ch3_read_empty [OF mq_empty_inv, of zero_msg 0] by (simp add: ch3_get_def mq_list_empty)
  have "fifo_admissible ch3_put ch3_get alloc_fresh msg_ok msg_ok
      [Get zero_msg, Put sample_alloc sample_msg, Get zero_msg] mq_empty"
    by (auto simp: e split: sum.splits)
  from ch3_fifo [OF mq_empty_inv(1) this] show ?thesis by simp
qed

text \<open>
  C38. The two programs talk to each other: a message given to the writer program,
  written to the empty queue and read by the reader program is printed as its first 127
  characters, except that the message \<open>0\<close> is reported as an empty queue.
\<close>

theorem ch3_writer_to_reader:
  assumes "mq_inv s" and "contents s = []" and "alloc_fresh e s"
    and "NUL \<notin> set arg" and "msg_ok buf" and "msg_ok usr" and "0 \<le> dev"
    and "ch3_writer_main [prog, arg] buf dev = (0, Some m)"
  shows "\<exists>s1 s2 m'. ch3_ioctl p e (CH3_IOCTL_WRITE p) m 0 s = Inr (0, m, s1) \<and>
    ch3_ioctl p e (CH3_IOCTL_READ p) usr 0 s1 = Inr (0, m', s2) \<and> contents s2 = [] \<and>
    msg_len m' = word_of_nat (length (cstring (msg_str m'))) \<and>
    ch3_reader_main dev m' = (0, if arg = ''0'' then Queue_is_empty else Took (take 127 arg))"
proof -
  have m: "m = \<lparr>msg_len = word_of_nat (length (take 127 arg)),
      msg_str = (c_strncpy (msg_str buf) arg 127)[127 := NUL]\<rparr>"
    using assms(4,5,7,8) cstring_strncpy_terminated [of arg 127 "msg_str buf"]
    by (auto simp: ch3_writer_main_def Let_def msg_ok_def)
  have ok: "msg_ok m" using assms(5) by (simp add: m msg_ok_def layout)
  have c: "cstring (msg_str m) = take 127 arg"
    using assms(4,5) cstring_strncpy_terminated [of arg 127 "msg_str buf"]
    by (simp add: m msg_ok_def)
  obtain s1 where w: "ch3_write e m 0 s = Inr (0, s1)" "mq_inv s1" "contents s1 = [m]"
    using ch3_write_appends [OF assms(1,3) ok, of 0] assms(2) struct_copy_all [OF ok] by auto
  obtain s2 where r: "ch3_read usr 0 s1 = Inr (0, m, s2)" "contents s2 = []"
    using ch3_read_first [OF w(2,3), of usr 0] struct_copy_all [OF ok assms(6)] by auto
  have "arg = ''0''" if t: "take 127 arg = ''0''"
  proof -
    have "length (take 127 arg) = 1" unfolding t by simp
    then have "length arg \<le> 127" by simp
    then show ?thesis using t by simp
  qed
  then have "take 127 arg = ''0'' \<longleftrightarrow> arg = ''0''" by auto
  then show ?thesis
    using w(1) r assms(7) c by (auto simp: ch3_ioctl_def ch3_reader_main_def m)
qed

theorem ch3_writer_to_reader_witness:
  "\<exists>m s1 s2 m'. ch3_writer_main [''ch3_writer'', ''hello''] zero_msg 3 = (0, Some m) \<and>
    ch3_ioctl 4 sample_alloc (CH3_IOCTL_WRITE 4) m 0 mq_empty = Inr (0, m, s1) \<and>
    ch3_ioctl 4 sample_alloc (CH3_IOCTL_READ 4) sample_msg 0 s1 = Inr (0, m', s2) \<and>
    ch3_reader_main 3 m' = (0, Took ''hello'')"
proof -
  obtain m where m: "ch3_writer_main [''ch3_writer'', ''hello''] zero_msg 3 = (0, Some m)"
    by (auto simp: ch3_writer_main_def Let_def)
  show ?thesis
    using m ch3_writer_to_reader [OF mq_empty_inv sample_ok(2) _ zero_msg_ok sample_ok(1) _ m, of 4]
    by (simp add: take_Cons') blast
qed

text \<open>
  A reader cannot tell an empty queue from a message: the reader program reports an
  empty queue exactly when the queue was empty or the message it took out of it was the
  text \<open>0\<close>, which is then lost.
\<close>

lemma ch3_empty_report_ambiguous:
  assumes "mq_inv s" and "msg_ok usr" and "0 \<le> dev"
    and "ch3_read usr 0 s = Inr (r, m', s')"
  shows "ch3_reader_main dev m' = (0, Queue_is_empty) \<longleftrightarrow>
    contents s = [] \<or> cstring (msg_str (hd (contents s))) = ''0''"
proof (cases "contents s")
  case Nil
  then show ?thesis
    using ch3_read_empty [OF assms(1), of usr 0] assms struct_copy_all [of empty_reply usr]
    by (simp add: ch3_reader_main_def)
next
  case (Cons m ms)
  then show ?thesis
    using ch3_read_first [OF assms(1) Cons, of usr 0] assms struct_copy_all [of m usr]
    by (auto simp: ch3_reader_main_def)
qed

lemma ch3_empty_report_ambiguous_example:
  "ch3_read sample_msg 0 mq_empty = Inr (0, empty_reply, mq_empty) \<and>
   ch3_reader_main 3 empty_reply = (0, Queue_is_empty)"
proof -
  have r: "ch3_read sample_msg 0 mq_empty = Inr (0, empty_reply, mq_empty)"
    using ch3_read_empty [OF mq_empty_inv, of sample_msg 0] struct_copy_all [of empty_reply sample_msg]
    by simp
  show ?thesis
    using r ch3_empty_report_ambiguous [OF mq_empty_inv(1) sample_ok(1) _ r, of 3] by simp
qed

text \<open>
  A write whose message could not be read completely from the user is not refused:
  the ioctl returns 0 and a message with its missing bytes set to zero is queued.
\<close>

lemma ch3_short_write_queued:
  assumes "mq_inv s" and "alloc_fresh e s" and "msg_ok m"
  shows "\<exists>s'. ch3_ioctl p e (CH3_IOCTL_WRITE p) m u s = Inr (0, m, s') \<and> mq_inv s' \<and>
    contents s' = contents s @ [struct_copy zero_msg m u]"
  using ch3_write_appends [OF assms, of u] by (auto simp: ch3_ioctl_def)

lemma ch3_short_write_queued_example:
  "\<exists>s'. ch3_ioctl 4 sample_alloc (CH3_IOCTL_WRITE 4) sample_msg 132 mq_empty = Inr (0, sample_msg, s') \<and>
    contents s' = [zero_msg] \<and> sample_msg \<noteq> zero_msg"
proof -
  have "struct_copy zero_msg sample_msg 132 = zero_msg"
    by (simp add: struct_copy_def zero_msg_def)
  moreover have "sample_msg \<noteq> zero_msg" by (simp add: sample_msg_def zero_msg_def)
  ultimately show ?thesis
    using ch3_short_write_queued [OF mq_empty_inv(1) sample_ok(2,1), of 4 132] by auto
qed

text \<open>
  Unloading the queue module with any number of messages still queued frees every
  node and every message, frees nothing twice, and leaves the list empty.
\<close>

lemma ch3_exit_frees_all:
  assumes "mq_inv s"
  shows "\<exists>s' tr. ch3_exit s = Inr (s', tr) \<and> dom (mq_node s') = {} \<and> dom (mq_msg s') = {} \<and>
    mq_list s' = []"
proof -
  have "heap_ok s (set (mq_list s)) {}" using assms by (simp add: mq_inv_def heap_ok_def)
  then obtain s' where "ch3_drain (mq_list s) s = Inr s'" "heap_ok s' {} {}" "mq_list s' = []"
    using ch3_unload.frees_all [of s "mq_list s"] assms by (auto simp: mq_inv_def)
  then show ?thesis by (auto simp: ch3_exit_def heap_ok_def)
qed

lemma ch3_exit_frees_all_example:
  "\<exists>s1 s' tr. ch3_write sample_alloc sample_msg 0 mq_empty = Inr (0, s1) \<and>
    contents s1 = [sample_msg] \<and> ch3_exit s1 = Inr (s', tr) \<and> dom (mq_msg s') = {}"
proof -
  obtain s1 where w: "ch3_write sample_alloc sample_msg 0 mq_empty = Inr (0, s1)" "mq_inv s1"
      "contents s1 = [sample_msg]"
    using ch3_write_appends [OF mq_empty_inv(1) sample_ok(2,1), of 0] struct_copy_all [of sample_msg zero_msg]
    by auto
  show ?thesis using w ch3_exit_frees_all [OF w(2)] by blast
qed

end
