(* ===== verification/Holding.thy ===== *)
theory Holding
  imports Prelude
begin

text \<open>
  Who holds what while threads are inside a driver: \<open>f\<close> reads off a program counter the
  object the thread holds, between allocating and publishing it or between taking and
  freeing it. For objects of one kind, \<open>owned\<close> says that what is allocated is exactly what
  is on a list and what some thread holds, each once.
\<close>

definition held :: "('p \<Rightarrow> 'a option) \<Rightarrow> (nat \<Rightarrow> 'p) \<Rightarrow> 'a set" where
  "held f pcs = {n. \<exists>i. f (pcs i) = Some n}"

definition uniq :: "('p \<Rightarrow> 'a option) \<Rightarrow> (nat \<Rightarrow> 'p) \<Rightarrow> bool" where
  "uniq f pcs \<longleftrightarrow> (\<forall>i j n. f (pcs i) = Some n \<longrightarrow> f (pcs j) = Some n \<longrightarrow> i = j)"

lemma held_upd:
  "uniq f pcs \<Longrightarrow> held f (pcs(i := x)) = set_option (f x) \<union> (held f pcs - set_option (f (pcs i)))"
  unfolding held_def uniq_def by (auto split: if_splits) (metis+)?

lemma uniq_upd:
  "uniq f pcs \<Longrightarrow> set_option (f x) \<inter> (held f pcs - set_option (f (pcs i))) = {} \<Longrightarrow> uniq f (pcs(i := x))"
  unfolding held_def uniq_def by (auto split: if_splits) (metis+)?

lemma held_I: "f (pcs i) = Some n \<Longrightarrow> n \<in> held f pcs"
  by (auto simp: held_def)

lemma held_same: "f x = f (pcs i) \<Longrightarrow> held f (pcs(i := x)) = held f pcs"
  unfolding held_def by (auto split: if_splits) (metis+)?

lemma uniq_same: "f x = f (pcs i) \<Longrightarrow> uniq f (pcs(i := x)) = uniq f pcs"
  unfolding uniq_def by (auto split: if_splits) (metis+)?

lemma finite_held:
  assumes "finite {i. pcs i \<noteq> c}" and "f c = None"
  shows "finite (held f pcs)"
proof (rule finite_subset)
  show "held f pcs \<subseteq> (\<lambda>i. the (f (pcs i))) ` {i. pcs i \<noteq> c}"
  proof
    fix n
    assume "n \<in> held f pcs"
    then obtain i where i: "f (pcs i) = Some n" by (auto simp: held_def)
    then have "pcs i \<noteq> c" using assms(2) by auto
    then show "n \<in> (\<lambda>i. the (f (pcs i))) ` {i. pcs i \<noteq> c}" using i by (intro image_eqI [of _ _ i]) auto
  qed
qed (use assms(1) in simp)

subsection \<open>Objects on a list and in the hands of threads\<close>

definition owned :: "('p \<Rightarrow> 'a option) \<Rightarrow> 'a set \<Rightarrow> 'a list \<Rightarrow> (nat \<Rightarrow> 'p) \<Rightarrow> bool" where
  "owned f D xs pcs \<longleftrightarrow> uniq f pcs \<and> distinct xs \<and> set xs \<inter> held f pcs = {} \<and> D = set xs \<union> held f pcs"

lemma owned_simps:
  assumes "owned f D xs pcs"
  shows "distinct xs" "D = set xs \<union> held f pcs" "f (pcs i) = Some n \<Longrightarrow> n \<in> D" "f (pcs i) = Some n \<Longrightarrow> n \<notin> set xs"
    "n \<in> set xs \<Longrightarrow> n \<in> D"
  using assms held_I [of f pcs i n] by (auto simp: owned_def)

lemma owned_finite: "owned f D xs pcs \<Longrightarrow> finite {i. pcs i \<noteq> c} \<Longrightarrow> f c = None \<Longrightarrow> finite D"
  using finite_held [of pcs c f] by (simp add: owned_def)

lemma owned_start: "(\<And>i. f (pcs i) = None) \<Longrightarrow> owned f {} [] pcs"
  by (simp add: owned_def uniq_def held_def)

lemma owned_idle: "owned f D xs pcs \<Longrightarrow> (\<And>i. f (pcs i) = None) \<Longrightarrow> distinct xs \<and> D = set xs"
  by (simp add: owned_def held_def)

lemma owned_go: "owned f D xs pcs \<Longrightarrow> f x = f (pcs i) \<Longrightarrow> owned f D xs (pcs(i := x))"
  by (simp add: owned_def uniq_same held_same)

lemma owned_alloc:
  "owned f D xs pcs \<Longrightarrow> n \<notin> D \<Longrightarrow> f (pcs i) = None \<Longrightarrow> f x = Some n \<Longrightarrow> owned f (insert n D) xs (pcs(i := x))"
  unfolding owned_def using uniq_upd [of f pcs x i] by (auto simp: held_upd)

lemma owned_put:
  "owned f D xs pcs \<Longrightarrow> f (pcs i) = Some n \<Longrightarrow> f x = None \<Longrightarrow> owned f D (xs @ [n]) (pcs(i := x))"
  unfolding owned_def using uniq_upd [of f pcs x i] held_I [of f pcs i n] by (auto simp: held_upd)

lemma owned_take:
  "owned f D xs pcs \<Longrightarrow> n \<in> set xs \<Longrightarrow> f (pcs i) = None \<Longrightarrow> f x = Some n \<Longrightarrow> owned f D (remove1 n xs) (pcs(i := x))"
  unfolding owned_def using uniq_upd [of f pcs x i] by (auto simp: held_upd)

lemma owned_free:
  "owned f D xs pcs \<Longrightarrow> f (pcs i) = Some n \<Longrightarrow> f x = None \<Longrightarrow> owned f (D - {n}) xs (pcs(i := x))"
  unfolding owned_def using uniq_upd [of f pcs x i] held_I [of f pcs i n] by (auto simp: held_upd)

end
