(* ===== verification/Node_Heap.thy ===== *)
theory Node_Heap
  imports Msg_Store Holding
begin

text \<open>
  The heap of a message queue (lab4/ch3, lab5/ch4) while threads are inside the driver. A
  thread holds a node between unlinking and freeing it and between allocating and linking
  it: with a message of its own (\<open>full\<close>) or still without one (\<open>half\<close>); a node about to be
  linked carries a known message (\<open>carries\<close>). All three are read off the program counter.
\<close>

lemma heap_ok_lock [simp]: "heap_ok (M\<lparr>mq_lock := b\<rparr>) N H = heap_ok M N H"
proof -
  have "mptr (M\<lparr>mq_lock := b\<rparr>) = mptr M" by (simp add: mptr_def fun_eq_iff)
  then show ?thesis by (simp add: heap_ok_def)
qed

lemma msg_at_lock [simp]: "msg_at (M\<lparr>mq_lock := b\<rparr>) n = msg_at M n"
  by (simp add: msg_at_def split: option.splits)

lemma load_msg_frame [simp]:
  "load_msg (M\<lparr>mq_lock := b\<rparr>) n = load_msg M n" "load_msg (M\<lparr>mq_list := ns\<rparr>) n = load_msg M n"
  by (simp_all add: load_msg_def split: option.splits)

text \<open>
  The invariant: the list is a list of distinct nodes nobody holds, the heap is exactly the
  listed and the held nodes, and a message about to be linked is the one carried.
\<close>

definition node_heap ::
  "('p \<Rightarrow> addr option) \<Rightarrow> ('p \<Rightarrow> addr option) \<Rightarrow> ('p \<Rightarrow> (addr \<times> msg_st) option) \<Rightarrow> mq \<Rightarrow> (nat \<Rightarrow> 'p) \<Rightarrow> bool" where
  "node_heap full half carries M pcs \<longleftrightarrow>
     uniq full pcs \<and> uniq half pcs \<and> distinct (mq_list M) \<and>
     set (mq_list M) \<inter> held full pcs = {} \<and>
     heap_ok M (set (mq_list M) \<union> held full pcs) (held half pcs) \<and>
     (\<forall>i n m. carries (pcs i) = Some (n, m) \<longrightarrow> msg_at M n = Some m)"

text \<open>The queued messages.\<close>

definition node_view :: "mq \<Rightarrow> msg_st list" where
  "node_view M = map (\<lambda>n. the (msg_at M n)) (mq_list M)"

lemma node_view_lock [simp]: "node_view (M\<lparr>mq_lock := b\<rparr>) = node_view M"
  by (simp add: node_view_def)

lemma node_heap_lock [simp]: "node_heap full half carries (M\<lparr>mq_lock := b\<rparr>) pcs = node_heap full half carries M pcs"
  by (simp add: node_heap_def)

lemma node_heap_simps:
  assumes "node_heap full half carries M pcs"
  shows "uniq full pcs" "uniq half pcs" "distinct (mq_list M)"
    "heap_ok M (set (mq_list M) \<union> held full pcs) (held half pcs)"
    "n \<in> set (mq_list M) \<Longrightarrow> n \<notin> held full pcs"
    "carries (pcs j) = Some (n, m) \<Longrightarrow> msg_at M n = Some m"
  using assms by (auto simp: node_heap_def)

lemma node_heap_empty:
  assumes "\<And>i. full (pcs i) = None" and "\<And>i. half (pcs i) = None" and "\<And>i. carries (pcs i) = None"
  shows "node_heap full half carries M pcs \<longleftrightarrow> distinct (mq_list M) \<and> heap_ok M (set (mq_list M)) {}"
  using assms by (simp add: node_heap_def uniq_def held_def)

locale node_holders =
  fixes full :: "'p \<Rightarrow> addr option"
    and half :: "'p \<Rightarrow> addr option"
    and carries :: "'p \<Rightarrow> (addr \<times> msg_st) option"
  assumes carries_full: "carries x = Some (n, m) \<Longrightarrow> full x = Some n"
    and full_half: "full x = Some n \<Longrightarrow> half x = None"
begin

lemma go:
  assumes "node_heap full half carries M pcs" and "full x = full (pcs i)" and "half x = half (pcs i)"
    and "\<And>n m. carries x = Some (n, m) \<Longrightarrow> msg_at M n = Some m"
  shows "node_heap full half carries M (pcs(i := x))"
  using assms by (auto simp: node_heap_def held_same uniq_same)

text \<open>What a thread holds can be read and freed, and so can what is queued.\<close>

lemma loads:
  assumes "node_heap full half carries M pcs" and "full (pcs i) = Some n"
  shows "load_msg M n \<noteq> Inl e" "free_node M n \<noteq> Inl e"
  using heap_load [OF node_heap_simps(4) [OF assms(1)], of n] heap_free [OF node_heap_simps(4) [OF assms(1)], of n]
    held_I [of full pcs i n] assms(2)
  by auto

lemma frees_half:
  "node_heap full half carries M pcs \<Longrightarrow> half (pcs i) = Some n \<Longrightarrow> free_node M n \<noteq> Inl e"
  using heap_free_half [OF node_heap_simps(4), of full half carries M pcs n] held_I [of half pcs i n] by auto

lemma queued:
  "node_heap full half carries M pcs \<Longrightarrow> n \<in> set (mq_list M) \<Longrightarrow> \<exists>p m. load_msg M n = Inr (p, m) \<and> msg_at M n = Some m"
  using heap_load [OF node_heap_simps(4), of full half carries M pcs n]
    msg_at_mptr [OF node_heap_simps(4), of full half carries M pcs n]
  by auto

text \<open>Unlinking the first node.\<close>

lemma unlink:
  assumes "node_heap full half carries M pcs" and "full (pcs i) = None" and "half (pcs i) = None"
    and "mq_list M = n # ns" and "full x = Some n" and "carries x = None"
  shows "node_heap full half carries (M\<lparr>mq_list := ns\<rparr>) (pcs(i := x))"
proof -
  have "half x = None" using assms(5) by (rule full_half)
  then have full: "held full (pcs(i := x)) = insert n (held full pcs)"
    and half: "held half (pcs(i := x)) = held half pcs"
    using assms by (simp_all add: held_upd node_heap_simps)
  have "n \<notin> held full pcs" using node_heap_simps(5) [OF assms(1)] assms(4) by simp
  then have "uniq full (pcs(i := x))" "uniq half (pcs(i := x))"
    using assms \<open>half x = None\<close> by (auto intro!: uniq_upd simp: node_heap_simps)
  moreover have "set ns \<union> insert n (held full pcs) = set (mq_list M) \<union> held full pcs"
    using assms by auto
  ultimately show ?thesis
    using assms unfolding node_heap_def full half by auto
qed

text \<open>Freeing a node the thread holds.\<close>

lemma free:
  assumes "node_heap full half carries M pcs" and "full (pcs i) = Some n"
    and "full x = None" and "half x = None" and "free_node M n = Inr M'"
  shows "node_heap full half carries M' (pcs(i := x)) \<and> node_view M' = node_view M \<and> mq_list M' = mq_list M"
proof -
  let ?N = "set (mq_list M) \<union> held full pcs"
  note ok = node_heap_simps(4) [OF assms(1)]
  have h: "half (pcs i) = None" using assms(2) by (rule full_half)
  have n: "n \<in> ?N" "n \<notin> set (mq_list M)"
    using assms(2) node_heap_simps(5) [OF assms(1)] by (auto intro: held_I)
  have M': "M' = M\<lparr>mq_msg := (mq_msg M)(mptr M n := None), mq_node := (mq_node M)(n := None)\<rparr>"
    using heap_free [OF ok n(1)] assms(5) by simp
  have same: "msg_at M' y = msg_at M y" if "y \<in> ?N" "y \<noteq> n" for y
    using that mptr_neq [OF ok n(1) that] heap_node [OF ok that(1)]
    by (auto simp: M' msg_at_def)
  have full: "held full (pcs(i := x)) = held full pcs - {n}"
    and half: "held half (pcs(i := x)) = held half pcs"
    using assms h by (simp_all add: held_upd node_heap_simps)
  have "uniq full (pcs(i := x))" "uniq half (pcs(i := x))"
    using assms h by (auto intro!: uniq_upd simp: node_heap_simps)
  moreover have "heap_ok M' (set (mq_list M') \<union> (held full pcs - {n})) (held half pcs)"
  proof -
    have "set (mq_list M') \<union> (held full pcs - {n}) = ?N - {n}" using n by (auto simp: M')
    then show ?thesis using heap_after_free [OF ok n(1)] by (simp add: M')
  qed
  moreover have "msg_at M' y = Some m" if c: "carries ((pcs(i := x)) j) = Some (y, m)" for j y m
  proof -
    have j: "j \<noteq> i" "full (pcs j) = Some y" "carries (pcs j) = Some (y, m)"
      using c carries_full [OF c] assms(3) by (auto split: if_splits)
    moreover have "y \<noteq> n" using j assms(2) node_heap_simps(1) [OF assms(1)] by (auto simp: uniq_def)
    ultimately show ?thesis
      using same [of y] node_heap_simps(6) [OF assms(1)] held_I [of full pcs j y] by auto
  qed
  moreover have "node_view M' = node_view M"
    using n(2) by (auto simp: node_view_def M' intro!: arg_cong [where f = the] same [unfolded M'])
  ultimately show ?thesis
    using assms(1) unfolding node_heap_def full half by (auto simp: M')
qed

text \<open>Freeing a node without a message.\<close>

lemma free_half:
  assumes "node_heap full half carries M pcs" and "half (pcs i) = Some n"
    and "full x = None" and "half x = None" and "free_node M n = Inr M'"
  shows "node_heap full half carries M' (pcs(i := x)) \<and> node_view M' = node_view M \<and> mq_list M' = mq_list M"
proof -
  note ok = node_heap_simps(4) [OF assms(1)]
  have f: "full (pcs i) = None" using assms(2) full_half by force
  have n: "n \<in> held half pcs" using assms(2) held_I [of half pcs i n] by simp
  have M': "M' = M\<lparr>mq_node := (mq_node M)(n := None)\<rparr>"
    using heap_free_half [OF ok n] assms(5) by simp
  have same: "msg_at M' y = msg_at M y" if "y \<in> set (mq_list M) \<union> held full pcs" for y
    using that n ok by (auto simp: M' msg_at_def heap_ok_def)
  have full: "held full (pcs(i := x)) = held full pcs"
    and half: "held half (pcs(i := x)) = held half pcs - {n}"
    using assms f by (simp_all add: held_upd node_heap_simps)
  have "uniq full (pcs(i := x))" "uniq half (pcs(i := x))"
    using assms f by (auto intro!: uniq_upd simp: node_heap_simps)
  moreover have "heap_ok M' (set (mq_list M') \<union> held full pcs) (held half pcs - {n})"
    using heap_after_free_half [OF ok n] by (simp add: M')
  moreover have "msg_at M' y = Some m" if c: "carries ((pcs(i := x)) j) = Some (y, m)" for j y m
    using c carries_full [OF c] assms(3) same [of y] node_heap_simps(6) [OF assms(1)] held_I [of full pcs j y]
    by (auto split: if_splits)
  moreover have "node_view M' = node_view M"
    by (auto simp: node_view_def M' intro!: arg_cong [where f = the] same [unfolded M'])
  ultimately show ?thesis
    using assms(1) unfolding node_heap_def full half by (auto simp: M')
qed

text \<open>A new node, then its message.\<close>

lemma alloc:
  assumes "node_heap full half carries M pcs" and "full (pcs i) = None" and "half (pcs i) = None"
    and "n \<notin> dom (mq_node M)" and "half x = Some n"
    and M': "M' = M\<lparr>mq_node := (mq_node M)(n \<mapsto> None)\<rparr>"
  shows "node_heap full half carries M' (pcs(i := x)) \<and> node_view M' = node_view M \<and> mq_list M' = mq_list M"
proof -
  note ok = node_heap_simps(4) [OF assms(1)]
  have f: "full x = None" using assms(5) full_half by force
  have n: "n \<notin> set (mq_list M) \<union> held full pcs" "n \<notin> held half pcs"
    using ok assms(4) by (auto simp: heap_ok_def)
  have same: "msg_at M' y = msg_at M y" if "y \<noteq> n" for y
    using that by (simp add: M' msg_at_def split: option.splits)
  have full: "held full (pcs(i := x)) = held full pcs" and half: "held half (pcs(i := x)) = insert n (held half pcs)"
    using assms f by (simp_all add: held_upd node_heap_simps)
  have "uniq full (pcs(i := x))" "uniq half (pcs(i := x))"
    using assms f n by (auto intro!: uniq_upd simp: node_heap_simps)
  moreover have "heap_ok M' (set (mq_list M') \<union> held full pcs) (insert n (held half pcs))"
    using heap_alloc_node [OF ok assms(4)] by (simp add: M')
  moreover have "msg_at M' y = Some m" if c: "carries ((pcs(i := x)) j) = Some (y, m)" for j y m
  proof -
    have "y \<noteq> n" using carries_full [OF c] f n(1) held_I [of full pcs j y] by (auto split: if_splits)
    then show ?thesis
      using c carries_full [OF c] f same [of y] node_heap_simps(6) [OF assms(1)] by (auto split: if_splits)
  qed
  moreover have "node_view M' = node_view M"
    using n by (auto simp: node_view_def M' intro!: arg_cong [where f = the] same [unfolded M'])
  ultimately show ?thesis
    using assms(1) unfolding node_heap_def full half by (auto simp: M')
qed

lemma alloc_msg:
  assumes "node_heap full half carries M pcs" and "half (pcs i) = Some n" and "p \<notin> dom (mq_msg M)"
    and "full x = Some n" and "carries x = None"
    and M': "M' = M\<lparr>mq_node := (mq_node M)(n \<mapsto> Some p), mq_msg := (mq_msg M)(p \<mapsto> junk)\<rparr>"
  shows "node_heap full half carries M' (pcs(i := x)) \<and> node_view M' = node_view M \<and> mq_list M' = mq_list M"
proof -
  let ?N = "set (mq_list M) \<union> held full pcs"
  note ok = node_heap_simps(4) [OF assms(1)]
  have f: "full (pcs i) = None" "half x = None" using assms(2,4) full_half by force+
  have h: "n \<in> held half pcs" using assms(2) held_I [of half pcs i n] by simp
  have n: "n \<notin> ?N" using h ok by (auto simp: heap_ok_def)
  have same: "msg_at M' y = msg_at M y" if "y \<in> ?N" for y
  proof -
    have "y \<noteq> n" using that n by auto
    moreover have "mptr M y \<in> dom (mq_msg M)" using that ok by (auto simp: heap_ok_def)
    ultimately show ?thesis
      using assms(3) heap_node [OF ok that] by (auto simp: M' msg_at_def)
  qed
  have full: "held full (pcs(i := x)) = insert n (held full pcs)" and half: "held half (pcs(i := x)) = held half pcs - {n}"
    using assms f by (simp_all add: held_upd node_heap_simps)
  have "uniq full (pcs(i := x))" "uniq half (pcs(i := x))"
    using assms f n by (auto intro!: uniq_upd simp: node_heap_simps)
  moreover have "heap_ok M' (set (mq_list M') \<union> insert n (held full pcs)) (held half pcs - {n})"
    using heap_alloc_msg [OF ok h assms(3), of junk] by (simp add: M')
  moreover have "msg_at M' y = Some m" if c: "carries ((pcs(i := x)) j) = Some (y, m)" for j y m
    using c carries_full [OF c] assms(5) same [of y] node_heap_simps(6) [OF assms(1)] held_I [of full pcs j y]
    by (auto split: if_splits)
  moreover have "node_view M' = node_view M"
    by (auto simp: node_view_def M' intro!: arg_cong [where f = the] same [unfolded M'])
  ultimately show ?thesis
    using assms(1) n unfolding node_heap_def full half by (auto simp: M')
qed

text \<open>Storing into the message of a node the thread holds.\<close>

lemma store:
  assumes "node_heap full half carries M pcs" and "full (pcs i) = Some n" and "load_msg M n = Inr (p, old)"
    and "full x = Some n" and "\<And>y m'. carries x = Some (y, m') \<Longrightarrow> m' = m"
    and M': "M' = M\<lparr>mq_msg := (mq_msg M)(p \<mapsto> m)\<rparr>"
  shows "node_heap full half carries M' (pcs(i := x)) \<and> node_view M' = node_view M \<and> mq_list M' = mq_list M"
proof -
  let ?N = "set (mq_list M) \<union> held full pcs"
  note ok = node_heap_simps(4) [OF assms(1)]
  have hf: "half (pcs i) = None" "half x = None" using assms(2,4) by (simp_all add: full_half)
  have h: "n \<in> held full pcs" using assms(2) held_I [of full pcs i n] by simp
  then have n: "n \<in> ?N" "n \<notin> set (mq_list M)" using node_heap_simps(5) [OF assms(1)] by auto
  have p: "p = mptr M n" using heap_load [OF ok n(1)] assms(3) by auto
  have same: "msg_at M' y = msg_at M y" if "y \<in> ?N" "y \<noteq> n" for y
    using mptr_neq [OF ok n(1) that] heap_node [OF ok that(1)] by (auto simp: M' p msg_at_def)
  have new: "msg_at M' n = Some m"
    using heap_node [OF ok n(1)] by (simp add: M' p msg_at_def)
  have full: "held full (pcs(i := x)) = held full pcs" and half: "held half (pcs(i := x)) = held half pcs"
    using assms h hf by (auto simp: held_upd node_heap_simps)
  have "uniq full (pcs(i := x))" "uniq half (pcs(i := x))"
    using assms hf by (auto intro!: uniq_upd simp: node_heap_simps)
  moreover have "heap_ok M' (set (mq_list M') \<union> held full pcs) (held half pcs)"
    using heap_store [OF ok n(1), of m] by (simp add: M' p)
  moreover have "msg_at M' y = Some m'" if c: "carries ((pcs(i := x)) j) = Some (y, m')" for j y m'
  proof (cases "j = i")
    case True
    then show ?thesis using c new carries_full [OF c] assms(4,5) by simp
  next
    case False
    then have j: "full (pcs j) = Some y" "carries (pcs j) = Some (y, m')" using c carries_full [OF c] by auto
    moreover have "y \<noteq> n" using j False assms(2) node_heap_simps(1) [OF assms(1)] by (auto simp: uniq_def)
    ultimately show ?thesis
      using same [of y] node_heap_simps(6) [OF assms(1)] held_I [of full pcs j y] by auto
  qed
  moreover have "node_view M' = node_view M"
    using n(2) by (auto simp: node_view_def M' intro!: arg_cong [where f = the] same [unfolded M'])
  ultimately show ?thesis
    using assms(1) unfolding node_heap_def full half by (auto simp: M')
qed

text \<open>Linking the node at the end of the list.\<close>

lemma link:
  assumes "node_heap full half carries M pcs" and "carries (pcs i) = Some (n, m)"
    and "full x = None" and "half x = None"
  shows "node_heap full half carries (M\<lparr>mq_list := mq_list M @ [n]\<rparr>) (pcs(i := x)) \<and>
    node_view (M\<lparr>mq_list := mq_list M @ [n]\<rparr>) = node_view M @ [m]"
proof -
  have f: "full (pcs i) = Some n" using assms(2) by (rule carries_full)
  have hf: "half (pcs i) = None" using f by (rule full_half)
  have h: "n \<in> held full pcs" using f by (rule held_I)
  then have n: "n \<notin> set (mq_list M)" using node_heap_simps(5) [OF assms(1)] by auto
  have full: "held full (pcs(i := x)) = held full pcs - {n}" and half: "held half (pcs(i := x)) = held half pcs"
    using assms f hf by (simp_all add: held_upd node_heap_simps)
  have "uniq full (pcs(i := x))" "uniq half (pcs(i := x))"
    using assms hf by (auto intro!: uniq_upd simp: node_heap_simps)
  moreover have "set (mq_list M @ [n]) \<union> (held full pcs - {n}) = set (mq_list M) \<union> held full pcs"
    using h by auto
  moreover have "msg_at M n = Some m" using node_heap_simps(6) [OF assms(1,2)] .
  moreover have "carries x = None" using carries_full [of x] assms(3) by (cases "carries x") force+
  ultimately show ?thesis
    using assms(1) n unfolding node_heap_def full half by (auto simp: node_view_def)
qed

end

end
