(* ===== verification/Fifo_Spec.thy ===== *)
theory Fifo_Spec
  imports Simulation
begin

text \<open>
  What the two message queues promise under concurrency: an atomic queue. Linking a message
  is \<open>Enq\<close>, unlinking one \<open>Deq\<close>, finding the queue empty \<open>Empty\<close>, each with the thread; all
  other steps are \<open>Internal\<close>.
\<close>

datatype 'm fifo_event =
    Internal
  | Enq nat 'm
  | Deq nat 'm
  | Empty nat

fun fifo_next :: "'m fifo_event \<Rightarrow> 'm list \<Rightarrow> 'm list option" where
  "fifo_next Internal q = Some q"
| "fifo_next (Enq i m) q = Some (q @ [m])"
| "fifo_next (Deq i m) q = (case q of [] \<Rightarrow> None | x # q' \<Rightarrow> if x = m then Some q' else None)"
| "fifo_next (Empty i) q = (if q = [] then Some q else None)"

abbreviation fifo_history :: "'m fifo_event list \<Rightarrow> 'm list \<Rightarrow> 'm list option" where
  "fifo_history \<equiv> spec_run fifo_next"

fun enqueued :: "'m fifo_event list \<Rightarrow> 'm list" where
  "enqueued [] = []"
| "enqueued (Enq i m # es) = m # enqueued es"
| "enqueued (e # es) = enqueued es"

fun dequeued :: "'m fifo_event list \<Rightarrow> (nat \<times> 'm) list" where
  "dequeued [] = []"
| "dequeued (Deq i m # es) = (i, m) # dequeued es"
| "dequeued (e # es) = dequeued es"

lemma fifo_conserved: "fifo_history es q = Some q' \<Longrightarrow> q @ enqueued es = map snd (dequeued es) @ q'"
proof (induction es arbitrary: q)
  case (Cons e es)
  then obtain q1 where "fifo_next e q = Some q1" "fifo_history es q1 = Some q'"
    by (auto split: option.splits)
  then show ?case using Cons.IH [of q1] by (cases e) (auto split: list.splits if_splits)
qed simp

locale fifo_impl = forward_simulation fifo_next "[]" start step rel
  for start :: "'s \<Rightarrow> bool" and step :: "'m fifo_event \<Rightarrow> 's \<Rightarrow> 's \<Rightarrow> bool" and rel :: "'s \<Rightarrow> 'm list \<Rightarrow> bool"
begin

lemma exactly_once:
  "labelled start step es s \<Longrightarrow>
    \<exists>q. fifo_history es [] = Some q \<and> rel s q \<and> enqueued es = map snd (dequeued es) @ q"
  using refines fifo_conserved by fastforce

end

end
