(* ===== verification/Queue_Threads.thy ===== *)
theory Queue_Threads
  imports Msg_Queue Node_Heap Fifo_Spec Locking Draining
begin

text \<open>
  lab4/ch3 with any number of threads inside the module. Each access to shared data of
  ch3_read and ch3_write is a step of its own, the spin lock is explicit, memory is checked,
  and two kfree calls of one node are one step, because nobody else can reach the node.
  Shown, for every interleaving: no fault and no leak, the module is an atomic FIFO queue,
  every reader gets what it took, every call returns, and an undisturbed call is the
  function of Msg_Queue.
\<close>

subsection \<open>Threads and steps\<close>

datatype ch3_pc =
    Outside
  | R_lock msg_st \<comment> \<open>the user's structure\<close>
  | R_test msg_st
  | R_unlock_empty msg_st
  | R_reply msg_st
  | R_load msg_st addr \<comment> \<open>\<open>first_node\<close> is set\<close>
  | R_unlink msg_st addr msg_st \<comment> \<open>\<open>temp_msg\<close> is filled\<close>
  | R_unlock msg_st addr msg_st
  | R_copy msg_st addr msg_st
  | R_free addr
  | W_alloc msg_st
  | W_alloc2 addr msg_st
  | W_copy addr msg_st
  | W_lock addr msg_st
  | W_link addr msg_st
  | W_unlock
  | Returning

record ch3_threads =
  q3_mem :: mq
  q3_pc :: "nat \<Rightarrow> ch3_pc"
  q3_fault :: "fault option"
  q3_got :: "(nat \<times> msg_st \<times> nat \<times> msg_st) list"
    \<comment> \<open>ghost: each copy_to_user: the reader, the user's structure before, the bytes left out, the structure after\<close>

definition q3_goto :: "ch3_threads \<Rightarrow> nat \<Rightarrow> ch3_pc \<Rightarrow> ch3_threads" where
  "q3_goto s i x = s\<lparr>q3_pc := (q3_pc s)(i := x)\<rparr>"

definition q3_start :: "ch3_threads \<Rightarrow> bool" where
  "q3_start s \<longleftrightarrow> (\<exists>k tr. ch3_init k mq_empty = Inr (0, q3_mem s, tr)) \<and> q3_pc s = (\<lambda>_. Outside) \<and>
     q3_fault s = None \<and> q3_got s = []"

text \<open>
  A step of thread \<open>i\<close> through ch3_ioctl. With \<open>oom\<close> kmalloc may return null, which the
  handler uses; \<open>u\<close> is the number of bytes a copy leaves out.
\<close>

inductive ch3_step :: "bool \<Rightarrow> nat \<Rightarrow> nat \<Rightarrow> ch3_threads \<Rightarrow> ch3_threads \<Rightarrow> bool"
  for oom :: bool and ptr_size :: nat and i :: nat where
  call_read: "q3_pc s i = Outside \<Longrightarrow> cmd = CH3_IOCTL_READ ptr_size \<Longrightarrow> msg_ok usr \<Longrightarrow>
    ch3_step oom ptr_size i s (q3_goto s i (R_lock usr))"
| read_lock: "q3_pc s i = R_lock usr \<Longrightarrow> \<not> mq_lock (q3_mem s) \<Longrightarrow>
    ch3_step oom ptr_size i s ((q3_goto s i (R_test usr))\<lparr>q3_mem := (q3_mem s)\<lparr>mq_lock := True\<rparr>\<rparr>)"
| list_empty: "q3_pc s i = R_test usr \<Longrightarrow> mq_list (q3_mem s) = [] \<Longrightarrow>
    ch3_step oom ptr_size i s (q3_goto s i (R_unlock_empty usr))"
| unlock_empty: "q3_pc s i = R_unlock_empty usr \<Longrightarrow>
    ch3_step oom ptr_size i s ((q3_goto s i (R_reply usr))\<lparr>q3_mem := (q3_mem s)\<lparr>mq_lock := False\<rparr>\<rparr>)"
| reply: "q3_pc s i = R_reply usr \<Longrightarrow>
    temp_msg = zero_msg\<lparr>msg_str := (msg_str zero_msg)[0 := CHR ''0'', 1 := NUL]\<rparr> \<Longrightarrow>
    ch3_step oom ptr_size i s ((q3_goto s i Returning)\<lparr>q3_got := q3_got s @ [(i, usr, u, struct_copy usr temp_msg u)]\<rparr>)"
| list_entry: "q3_pc s i = R_test usr \<Longrightarrow> mq_list (q3_mem s) = first_node # rest \<Longrightarrow>
    ch3_step oom ptr_size i s (q3_goto s i (R_load usr first_node))"
| memcpy: "q3_pc s i = R_load usr n \<Longrightarrow> load_msg (q3_mem s) n = Inr (p, temp_msg) \<Longrightarrow>
    ch3_step oom ptr_size i s (q3_goto s i (R_unlink usr n temp_msg))"
| memcpy_fault: "q3_pc s i = R_load usr n \<Longrightarrow> load_msg (q3_mem s) n = Inl e \<Longrightarrow>
    ch3_step oom ptr_size i s (s\<lparr>q3_fault := Some e\<rparr>)"
| list_del: "q3_pc s i = R_unlink usr n m \<Longrightarrow>
    ch3_step oom ptr_size i s ((q3_goto s i (R_unlock usr n m))\<lparr>q3_mem := (q3_mem s)\<lparr>mq_list := remove1 n (mq_list (q3_mem s))\<rparr>\<rparr>)"
| read_unlock: "q3_pc s i = R_unlock usr n m \<Longrightarrow>
    ch3_step oom ptr_size i s ((q3_goto s i (R_copy usr n m))\<lparr>q3_mem := (q3_mem s)\<lparr>mq_lock := False\<rparr>\<rparr>)"
| copy_out: "q3_pc s i = R_copy usr n m \<Longrightarrow>
    ch3_step oom ptr_size i s ((q3_goto s i (R_free n))\<lparr>q3_got := q3_got s @ [(i, usr, u, struct_copy usr m u)]\<rparr>)"
| kfree: "q3_pc s i = R_free n \<Longrightarrow> free_node (q3_mem s) n = Inr mem \<Longrightarrow>
    ch3_step oom ptr_size i s ((q3_goto s i Returning)\<lparr>q3_mem := mem\<rparr>)"
| kfree_fault: "q3_pc s i = R_free n \<Longrightarrow> free_node (q3_mem s) n = Inl e \<Longrightarrow>
    ch3_step oom ptr_size i s (s\<lparr>q3_fault := Some e\<rparr>)"
| call_write: "q3_pc s i = Outside \<Longrightarrow> cmd = CH3_IOCTL_WRITE ptr_size \<Longrightarrow> msg_ok usr \<Longrightarrow>
    ch3_step oom ptr_size i s (q3_goto s i (W_alloc usr))"
| kmalloc: "q3_pc s i = W_alloc usr \<Longrightarrow> n \<notin> dom (mq_node (q3_mem s)) \<Longrightarrow>
    ch3_step oom ptr_size i s ((q3_goto s i (W_alloc2 n usr))\<lparr>q3_mem := (q3_mem s)\<lparr>mq_node := (mq_node (q3_mem s))(n \<mapsto> None)\<rparr>\<rparr>)"
| kmalloc2: "q3_pc s i = W_alloc2 n usr \<Longrightarrow> p \<notin> dom (mq_msg (q3_mem s)) \<Longrightarrow> msg_ok junk \<Longrightarrow>
    ch3_step oom ptr_size i s ((q3_goto s i (W_copy n usr))\<lparr>q3_mem := (q3_mem s)\<lparr>mq_node := (mq_node (q3_mem s))(n \<mapsto> Some p),
      mq_msg := (mq_msg (q3_mem s))(p \<mapsto> junk)\<rparr>\<rparr>)"
| kmalloc_null: "q3_pc s i = W_alloc usr \<or> q3_pc s i = W_alloc2 n usr \<Longrightarrow> oom \<Longrightarrow>
    ch3_step oom ptr_size i s (s\<lparr>q3_fault := Some Null_deref\<rparr>)"
| copy_in: "q3_pc s i = W_copy n usr \<Longrightarrow> load_msg (q3_mem s) n = Inr (p, old) \<Longrightarrow> m = struct_copy zero_msg usr u \<Longrightarrow>
    ch3_step oom ptr_size i s ((q3_goto s i (W_lock n m))\<lparr>q3_mem := (q3_mem s)\<lparr>mq_msg := (mq_msg (q3_mem s))(p \<mapsto> m)\<rparr>\<rparr>)"
| copy_in_fault: "q3_pc s i = W_copy n usr \<Longrightarrow> load_msg (q3_mem s) n = Inl e \<Longrightarrow>
    ch3_step oom ptr_size i s (s\<lparr>q3_fault := Some e\<rparr>)"
| write_lock: "q3_pc s i = W_lock n m \<Longrightarrow> \<not> mq_lock (q3_mem s) \<Longrightarrow>
    ch3_step oom ptr_size i s ((q3_goto s i (W_link n m))\<lparr>q3_mem := (q3_mem s)\<lparr>mq_lock := True\<rparr>\<rparr>)"
| list_add_tail: "q3_pc s i = W_link n m \<Longrightarrow>
    ch3_step oom ptr_size i s ((q3_goto s i W_unlock)\<lparr>q3_mem := (q3_mem s)\<lparr>mq_list := mq_list (q3_mem s) @ [n]\<rparr>\<rparr>)"
| write_unlock: "q3_pc s i = W_unlock \<Longrightarrow>
    ch3_step oom ptr_size i s ((q3_goto s i Returning)\<lparr>q3_mem := (q3_mem s)\<lparr>mq_lock := False\<rparr>\<rparr>)"
| unknown: "q3_pc s i = Outside \<Longrightarrow> cmd \<noteq> CH3_IOCTL_READ ptr_size \<Longrightarrow> cmd \<noteq> CH3_IOCTL_WRITE ptr_size \<Longrightarrow>
    ch3_step oom ptr_size i s (q3_goto s i Returning)"
| return: "q3_pc s i = Returning \<Longrightarrow> ch3_step oom ptr_size i s (q3_goto s i Outside)"

inductive_cases ch3_stepE: "ch3_step oom ptr_size i s t"

lemma q3_goto_simps [simp]:
  "q3_mem (q3_goto s i x) = q3_mem s" "q3_pc (q3_goto s i x) = (q3_pc s)(i := x)"
  "q3_fault (q3_goto s i x) = q3_fault s" "q3_got (q3_goto s i x) = q3_got s"
  by (simp_all add: q3_goto_def)

subsection \<open>The invariant\<close>

fun critical :: "ch3_pc \<Rightarrow> bool" where
  "critical (R_test usr) = True"
| "critical (R_unlock_empty usr) = True"
| "critical (R_load usr n) = True"
| "critical (R_unlink usr n m) = True"
| "critical (R_unlock usr n m) = True"
| "critical (W_link n m) = True"
| "critical W_unlock = True"
| "critical _ = False"

fun full_of :: "ch3_pc \<Rightarrow> addr option" where
  "full_of (R_unlock usr n m) = Some n"
| "full_of (R_copy usr n m) = Some n"
| "full_of (R_free n) = Some n"
| "full_of (W_copy n usr) = Some n"
| "full_of (W_lock n m) = Some n"
| "full_of (W_link n m) = Some n"
| "full_of _ = None"

fun half_of :: "ch3_pc \<Rightarrow> addr option" where
  "half_of (W_alloc2 n usr) = Some n"
| "half_of _ = None"

fun carried :: "ch3_pc \<Rightarrow> (addr \<times> msg_st) option" where
  "carried (W_lock n m) = Some (n, m)"
| "carried (W_link n m) = Some (n, m)"
| "carried _ = None"

interpretation ch3_nodes: node_holders full_of half_of carried
proof
  fix x n m
  show "carried x = Some (n, m) \<Longrightarrow> full_of x = Some n" by (cases x) auto
  show "full_of x = Some n \<Longrightarrow> half_of x = None" by (cases x) auto
qed

text \<open>A reader in its critical section is at the head of the list, and has copied it.\<close>

fun expects :: "ch3_pc \<Rightarrow> (addr \<times> msg_st option) option" where
  "expects (R_load usr n) = Some (n, None)"
| "expects (R_unlink usr n m) = Some (n, Some m)"
| "expects _ = None"

definition head_ok :: "mq \<Rightarrow> (nat \<Rightarrow> ch3_pc) \<Rightarrow> bool" where
  "head_ok M pcs \<longleftrightarrow> (\<forall>i n c. expects (pcs i) = Some (n, c) \<longrightarrow>
     (\<exists>ns. mq_list M = n # ns) \<and> (\<forall>m. c = Some m \<longrightarrow> msg_at M n = Some m))"

definition q3_inv :: "ch3_threads \<Rightarrow> bool" where
  "q3_inv s \<longleftrightarrow> q3_fault s = None \<and> lock_ok critical (mq_lock (q3_mem s)) (q3_pc s) \<and>
     node_heap full_of half_of carried (q3_mem s) (q3_pc s) \<and> head_ok (q3_mem s) (q3_pc s)"

lemma expects_critical: "expects x = Some y \<Longrightarrow> critical x"
  by (cases x) auto

lemma q3_inv_simps:
  assumes "q3_inv s"
  shows "q3_fault s = None" "lock_ok critical (mq_lock (q3_mem s)) (q3_pc s)"
    "node_heap full_of half_of carried (q3_mem s) (q3_pc s)" "head_ok (q3_mem s) (q3_pc s)"
  using assms by (simp_all add: q3_inv_def)

lemma head_ok_simps:
  assumes "head_ok M pcs"
  shows "pcs i = R_load usr n \<Longrightarrow> \<exists>ns. mq_list M = n # ns"
    and "pcs i = R_unlink usr n m \<Longrightarrow> (\<exists>ns. mq_list M = n # ns) \<and> msg_at M n = Some m"
  using assms [unfolded head_ok_def, rule_format, of i] by auto

text \<open>Steps that change no more than the program counter and the lock.\<close>

lemma q3_inv_pc:
  assumes "q3_inv s" and "full_of x = full_of (q3_pc s i)" and "half_of x = half_of (q3_pc s i)"
    and "carried x = None \<or> carried x = carried (q3_pc s i)"
    and "\<And>n c. expects x = Some (n, c) \<Longrightarrow>
      (\<exists>ns. mq_list (q3_mem s) = n # ns) \<and> (\<forall>m. c = Some m \<longrightarrow> msg_at (q3_mem s) n = Some m)"
    and "lock_ok critical b ((q3_pc s)(i := x))"
  shows "q3_inv ((q3_goto s i x)\<lparr>q3_mem := (q3_mem s)\<lparr>mq_lock := b\<rparr>, q3_got := g\<rparr>)"
proof -
  have "node_heap full_of half_of carried (q3_mem s) ((q3_pc s)(i := x))"
    using assms(1-4) by (intro ch3_nodes.go) (auto simp: q3_inv_def node_heap_def)
  moreover have "head_ok ((q3_mem s)\<lparr>mq_lock := b\<rparr>) ((q3_pc s)(i := x))"
    using q3_inv_simps(4) [OF assms(1)] assms(5) unfolding head_ok_def by (auto split: if_splits)
  ultimately show ?thesis
    using assms(1,6) by (simp add: q3_inv_def)
qed

lemma q3_goto_mem: "(q3_goto s i x)\<lparr>q3_mem := q3_mem s, q3_got := g\<rparr> = (q3_goto s i x)\<lparr>q3_got := g\<rparr>"
  by (simp add: q3_goto_def)

lemma q3_inv_go:
  assumes "q3_inv s" and "full_of x = full_of (q3_pc s i)" and "half_of x = half_of (q3_pc s i)"
    and "carried x = None \<or> carried x = carried (q3_pc s i)"
    and "\<And>n c. expects x = Some (n, c) \<Longrightarrow>
      (\<exists>ns. mq_list (q3_mem s) = n # ns) \<and> (\<forall>m. c = Some m \<longrightarrow> msg_at (q3_mem s) n = Some m)"
    and "critical x = critical (q3_pc s i)"
  shows "q3_inv (q3_goto s i x)" "q3_inv ((q3_goto s i x)\<lparr>q3_got := g\<rparr>)"
proof -
  have l: "lock_ok critical (mq_lock (q3_mem s)) ((q3_pc s)(i := x))"
    using q3_inv_simps(2) [OF assms(1)] assms(6) by (rule lock_ok_stay)
  show g: "q3_inv ((q3_goto s i x)\<lparr>q3_got := g\<rparr>)" for g
    using q3_inv_pc [OF assms(1-5) l, of g] by (simp add: q3_goto_mem)
  show "q3_inv (q3_goto s i x)" using g [of "q3_got s"] by (simp add: q3_goto_def)
qed

text \<open>Steps of a thread on the heap, outside its critical section.\<close>

lemma head_ok_same:
  assumes "head_ok M pcs" and "node_heap full_of half_of carried M pcs"
    and "node_heap full_of half_of carried M' (pcs(i := x)) \<and> node_view M' = node_view M \<and> mq_list M' = mq_list M"
    and "expects x = None"
  shows "head_ok M' (pcs(i := x))"
proof -
  have same: "msg_at M' n = msg_at M n" if n: "n \<in> set (mq_list M)" for n
  proof -
    have "the (msg_at M' n) = the (msg_at M n)" using n assms(3) by (auto simp: node_view_def)
    moreover obtain m m' where "msg_at M n = Some m" "msg_at M' n = Some m'"
      using ch3_nodes.queued [OF assms(2) n] ch3_nodes.queued [of M' "pcs(i := x)" n] assms(3) n by auto
    ultimately show ?thesis by simp
  qed
  show ?thesis
    unfolding head_ok_def
  proof (intro allI impI)
    fix j n c
    assume e: "expects ((pcs(i := x)) j) = Some (n, c)"
    then have "expects (pcs j) = Some (n, c)" using assms(4) by (auto split: if_splits)
    then have "(\<exists>ns. mq_list M = n # ns) \<and> (\<forall>m. c = Some m \<longrightarrow> msg_at M n = Some m)"
      using assms(1) by (auto simp: head_ok_def)
    then show "(\<exists>ns. mq_list M' = n # ns) \<and> (\<forall>m. c = Some m \<longrightarrow> msg_at M' n = Some m)"
      using assms(3) same [of n] by auto
  qed
qed

lemma q3_inv_heap:
  assumes "q3_inv s" and "mq_lock M = mq_lock (q3_mem s)"
    and "node_heap full_of half_of carried M ((q3_pc s)(i := x)) \<and> node_view M = node_view (q3_mem s) \<and> mq_list M = mq_list (q3_mem s)"
    and "\<not> critical x" and "\<not> critical (q3_pc s i)"
  shows "q3_inv ((q3_goto s i x)\<lparr>q3_mem := M\<rparr>)"
proof -
  have "expects x = None" using assms(4) expects_critical by (cases "expects x") auto
  then have "head_ok M ((q3_pc s)(i := x))"
    using head_ok_same [OF q3_inv_simps(4,3) [OF assms(1)] assms(3)] by simp
  moreover have "lock_ok critical (mq_lock M) ((q3_pc s)(i := x))"
    using assms(1,2,4,5) by (auto simp: q3_inv_def intro: lock_ok_stay)
  ultimately show ?thesis using assms(1,3) by (simp add: q3_inv_def)
qed

text \<open>Steps of the thread in its critical section on the list.\<close>

lemma q3_inv_list:
  assumes "q3_inv s" and "critical (q3_pc s i)" and "critical x" and "expects x = None"
    and "node_heap full_of half_of carried ((q3_mem s)\<lparr>mq_list := ns\<rparr>) ((q3_pc s)(i := x))"
  shows "q3_inv ((q3_goto s i x)\<lparr>q3_mem := (q3_mem s)\<lparr>mq_list := ns\<rparr>\<rparr>)"
proof -
  note l = q3_inv_simps(2) [OF assms(1)]
  have "expects (((q3_pc s)(i := x)) j) = None" for j
    using lock_ok_excludes [OF l assms(2), of j] expects_critical [of "q3_pc s j"] assms(4)
    by (cases "expects (q3_pc s j)") (auto split: if_splits)
  then have "head_ok ((q3_mem s)\<lparr>mq_list := ns\<rparr>) ((q3_pc s)(i := x))" by (simp add: head_ok_def)
  moreover have "lock_ok critical (mq_lock (q3_mem s)) ((q3_pc s)(i := x))"
    using l assms(2,3) by (intro lock_ok_stay) simp_all
  ultimately show ?thesis using assms(1,5) by (simp add: q3_inv_def)
qed

lemma q3_no_fault:
  assumes "q3_inv s"
  shows "q3_pc s i = R_load usr n \<Longrightarrow> load_msg (q3_mem s) n \<noteq> Inl e"
    "q3_pc s i = R_free n \<Longrightarrow> free_node (q3_mem s) n \<noteq> Inl e"
    "q3_pc s i = W_copy n m \<Longrightarrow> load_msg (q3_mem s) n \<noteq> Inl e"
proof -
  note h = q3_inv_simps(3) [OF assms]
  show "q3_pc s i = R_load usr n \<Longrightarrow> load_msg (q3_mem s) n \<noteq> Inl e"
    using head_ok_simps(1) [OF q3_inv_simps(4) [OF assms]] ch3_nodes.queued [OF h, of n] by fastforce
  show "q3_pc s i = R_free n \<Longrightarrow> free_node (q3_mem s) n \<noteq> Inl e"
    "q3_pc s i = W_copy n m \<Longrightarrow> load_msg (q3_mem s) n \<noteq> Inl e"
    using ch3_nodes.loads [OF h, of i n e] by auto
qed

lemma q3_inv_step: "ch3_step False ptr_size i s t \<Longrightarrow> q3_inv s \<Longrightarrow> q3_inv t"
proof (induction rule: ch3_step.induct)
  case (memcpy s usr n p temp_msg)
  obtain ns where "mq_list (q3_mem s) = n # ns"
    using head_ok_simps(1) [OF q3_inv_simps(4) [OF memcpy(3)] memcpy(1)] by blast
  moreover have "msg_at (q3_mem s) n = Some temp_msg"
    using ch3_nodes.queued [OF q3_inv_simps(3) [OF memcpy(3)], of n] calculation memcpy(2) by auto
  ultimately show ?case using memcpy by (intro q3_inv_go) auto
next
  case (list_del s usr n m)
  obtain ns where ns: "mq_list (q3_mem s) = n # ns"
    using head_ok_simps(2) [OF q3_inv_simps(4) [OF list_del(2)] list_del(1)] by blast
  have "node_heap full_of half_of carried ((q3_mem s)\<lparr>mq_list := ns\<rparr>) ((q3_pc s)(i := R_unlock usr n m))"
    using list_del ns by (intro ch3_nodes.unlink) (auto simp: q3_inv_def)
  then show ?case using list_del ns by (intro q3_inv_list) simp_all
next
  case (list_add_tail s n m)
  have "node_heap full_of half_of carried ((q3_mem s)\<lparr>mq_list := mq_list (q3_mem s) @ [n]\<rparr>) ((q3_pc s)(i := W_unlock))"
    using ch3_nodes.link [OF q3_inv_simps(3) [OF list_add_tail(2)], of i n m W_unlock] list_add_tail(1) by simp
  then show ?case using list_add_tail by (intro q3_inv_list) simp_all
next
  case (kfree s n mem)
  have "mq_lock mem = mq_lock (q3_mem s)" using kfree(2) by (auto simp: free_node_def split: option.splits if_splits)
  then show ?case using kfree by (intro q3_inv_heap ch3_nodes.free) (auto simp: q3_inv_def)
next
  case (kmalloc s usr n)
  then show ?case by (intro q3_inv_heap ch3_nodes.alloc) (auto simp: q3_inv_def)
next
  case (kmalloc2 s n usr p junk)
  then show ?case by (intro q3_inv_heap ch3_nodes.alloc_msg) (auto simp: q3_inv_def)
next
  case (copy_in s n usr p old m u)
  then show ?case by (intro q3_inv_heap ch3_nodes.store) (auto simp: q3_inv_def)
next
  case (read_lock s usr)
  have "lock_ok critical True ((q3_pc s)(i := R_test usr))"
    using read_lock by (auto simp: q3_inv_def lock_ok_enter)
  then show ?case using q3_inv_pc [OF read_lock(3), of "R_test usr" i True "q3_got s"] read_lock(1)
    by (simp add: q3_goto_def)
next
  case (write_lock s n m)
  have "lock_ok critical True ((q3_pc s)(i := W_link n m))"
    using write_lock by (auto simp: q3_inv_def lock_ok_enter)
  then show ?case using q3_inv_pc [OF write_lock(3), of "W_link n m" i True "q3_got s"] write_lock(1)
    by (simp add: q3_goto_def)
next
  case (unlock_empty s usr)
  have "lock_ok critical False ((q3_pc s)(i := R_reply usr))"
    using unlock_empty by (auto simp: q3_inv_def intro: lock_ok_leave)
  then show ?case using q3_inv_pc [OF unlock_empty(2), of "R_reply usr" i False "q3_got s"] unlock_empty(1)
    by (simp add: q3_goto_def)
next
  case (read_unlock s usr n m)
  have "lock_ok critical False ((q3_pc s)(i := R_copy usr n m))"
    using read_unlock by (auto simp: q3_inv_def intro: lock_ok_leave)
  then show ?case using q3_inv_pc [OF read_unlock(2), of "R_copy usr n m" i False "q3_got s"] read_unlock(1)
    by (simp add: q3_goto_def)
next
  case (write_unlock s)
  have "lock_ok critical False ((q3_pc s)(i := Returning))"
    using write_unlock by (auto simp: q3_inv_def intro: lock_ok_leave)
  then show ?case using q3_inv_pc [OF write_unlock(2), of Returning i False "q3_got s"] write_unlock(1)
    by (simp add: q3_goto_def)
next
  case (memcpy_fault s usr n e)
  then show ?case using q3_no_fault(1) by blast
next
  case (kfree_fault s n e)
  then show ?case using q3_no_fault(2) by blast
next
  case (copy_in_fault s n usr e)
  then show ?case using q3_no_fault(3) by blast
qed (auto intro!: q3_inv_go)

lemma q3_init_empty: "ch3_init k mq_empty = Inr (0, M, tr) \<Longrightarrow> M = mq_empty"
  by (auto simp: ch3_init_def mq_empty_def Let_def split: if_splits)

lemma q3_inv_start: "q3_start s \<Longrightarrow> q3_inv s"
  using q3_init_empty
  by (fastforce simp: q3_start_def q3_inv_def node_heap_empty head_ok_def lock_ok_def mq_empty_def heap_ok_def)

subsection \<open>An atomic queue\<close>

definition ch3_event :: "nat \<Rightarrow> ch3_pc \<Rightarrow> ch3_pc \<Rightarrow> msg_st fifo_event" where
  "ch3_event i x y =
     (case x of
        W_link n m \<Rightarrow> if y = W_unlock then Enq i m else Internal
      | R_unlink usr n m \<Rightarrow> if y = R_unlock usr n m then Deq i m else Internal
      | R_test usr \<Rightarrow> if y = R_unlock_empty usr then Empty i else Internal
      | _ \<Rightarrow> Internal)"

lemma ch3_event_simps [simp]:
  "ch3_event i x x = Internal"
  "ch3_event i (W_link n m) W_unlock = Enq i m"
  "ch3_event i (R_unlink usr n m) (R_unlock usr n m) = Deq i m"
  "ch3_event i (R_test usr) (R_unlock_empty usr) = Empty i"
  "ch3_event i (R_test usr) (R_load usr n) = Internal"
  "\<not> critical x \<Longrightarrow> ch3_event i x y = Internal"
  "ch3_event i (R_unlock_empty usr) y = Internal" "ch3_event i (R_load usr n) y = Internal"
  "ch3_event i (R_unlock usr n m) y = Internal" "ch3_event i W_unlock y = Internal"
  by (cases x; simp add: ch3_event_def)+

definition ch3_emits :: "nat \<Rightarrow> msg_st fifo_event \<Rightarrow> ch3_threads \<Rightarrow> ch3_threads \<Rightarrow> bool" where
  "ch3_emits ptr_size e s t \<longleftrightarrow>
     (\<exists>i. ch3_step False ptr_size i s t \<and> e = ch3_event i (q3_pc s i) (q3_pc t i))"

definition q3_rel :: "ch3_threads \<Rightarrow> msg_st list \<Rightarrow> bool" where
  "q3_rel s q \<longleftrightarrow> q3_inv s \<and> node_view (q3_mem s) = q"

lemma ch3_simulates:
  assumes "ch3_emits ptr_size e s t" and "q3_rel s q"
  shows "\<exists>q'. fifo_next e q = Some q' \<and> q3_rel t q'"
proof -
  obtain i where i: "ch3_step False ptr_size i s t" and e: "e = ch3_event i (q3_pc s i) (q3_pc t i)"
    using assms(1) by (auto simp: ch3_emits_def)
  have inv: "q3_inv s" and q: "q = node_view (q3_mem s)" using assms(2) by (auto simp: q3_rel_def)
  have inv': "q3_inv t" by (rule q3_inv_step [OF i inv])
  note h = q3_inv_simps(3) [OF inv]
  show ?thesis
    using i
  proof cases
    case (list_del usr n m)
    obtain ns where "mq_list (q3_mem s) = n # ns" "msg_at (q3_mem s) n = Some m"
      using head_ok_simps(2) [OF q3_inv_simps(4) [OF inv] list_del(2)] by blast
    then show ?thesis using inv' e q list_del by (simp add: q3_rel_def node_view_def)
  next
    case (list_add_tail n m)
    then show ?thesis
      using inv' e q ch3_nodes.link [OF h, of i n m W_unlock] by (simp add: q3_rel_def)
  next
    case (list_empty usr)
    then show ?thesis using inv' e q by (simp add: q3_rel_def node_view_def)
  next
    case (kfree n mem)
    then show ?thesis
      using inv' e q ch3_nodes.free [OF h, of i n Returning mem] by (simp add: q3_rel_def)
  next
    case (kmalloc usr n)
    then show ?thesis
      using inv' e q ch3_nodes.alloc [OF h, of i n "W_alloc2 n usr"] by (simp add: q3_rel_def)
  next
    case (kmalloc2 n usr p junk)
    then show ?thesis
      using inv' e q ch3_nodes.alloc_msg [OF h, of i n p "W_copy n usr" _ junk] by (simp add: q3_rel_def)
  next
    case (copy_in n usr p old m u)
    then show ?thesis
      using inv' e q ch3_nodes.store [OF h, of i n p old "W_lock n m" m] by (simp add: q3_rel_def)
  qed (use inv' e q in \<open>auto simp: q3_rel_def\<close>)
qed

interpretation ch3_atomic: fifo_impl q3_start "ch3_emits ptr_size" q3_rel
proof
  fix s
  assume s: "q3_start s"
  then have "q3_mem s = mq_empty" using q3_init_empty by (auto simp: q3_start_def)
  then show "q3_rel s []" using q3_inv_start [OF s] by (simp add: q3_rel_def node_view_def mq_empty_def)
qed (rule ch3_simulates)

text \<open>What the reads of a thread found, by the history, and what they have handed over.\<close>

fun found :: "nat \<Rightarrow> msg_st fifo_event list \<Rightarrow> msg_st list" where
  "found i [] = []"
| "found i (Deq j m # es) = (if j = i then m # found i es else found i es)"
| "found i (Empty j # es) = (if j = i then empty_reply # found i es else found i es)"
| "found i (e # es) = found i es"

fun in_transit :: "ch3_pc \<Rightarrow> msg_st list" where
  "in_transit (R_unlock_empty usr) = [empty_reply]"
| "in_transit (R_reply usr) = [empty_reply]"
| "in_transit (R_unlock usr n m) = [m]"
| "in_transit (R_copy usr n m) = [m]"
| "in_transit _ = []"

text \<open>
  What copy_to_user did for a reader, against the message \<open>m\<close> it found: the user's structure
  has got all of it but the last \<open>u\<close> bytes, so if none is left out it is the message.
\<close>

definition handed_over :: "msg_st \<Rightarrow> msg_st \<times> nat \<times> msg_st \<Rightarrow> bool" where
  "handed_over m c \<longleftrightarrow> (case c of (usr, u, usr') \<Rightarrow> usr' = struct_copy usr m u \<and> (u = 0 \<longrightarrow> usr' = m))"

definition copies_of :: "nat \<Rightarrow> (nat \<times> msg_st \<times> nat \<times> msg_st) list \<Rightarrow> (msg_st \<times> nat \<times> msg_st) list" where
  "copies_of i l = map snd (filter (\<lambda>x. fst x = i) l)"

lemma copies_of_simps [simp]:
  "copies_of i [] = []" "copies_of i (l @ [(j, c)]) = copies_of i l @ (if j = i then [c] else [])"
  by (simp_all add: copies_of_def)

lemma found_append [simp]: "found i (es @ fs) = found i es @ found i fs"
  by (induction i es rule: found.induct) auto

text \<open>Messages and structures keep their 132 bytes.\<close>

fun msgs_in :: "ch3_pc \<Rightarrow> msg_st list" where
  "msgs_in (R_lock usr) = [usr]"
| "msgs_in (R_test usr) = [usr]"
| "msgs_in (R_unlock_empty usr) = [usr]"
| "msgs_in (R_reply usr) = [usr]"
| "msgs_in (R_load usr n) = [usr]"
| "msgs_in (R_unlink usr n m) = [usr, m]"
| "msgs_in (R_unlock usr n m) = [usr, m]"
| "msgs_in (R_copy usr n m) = [usr, m]"
| "msgs_in (W_alloc usr) = [usr]"
| "msgs_in (W_alloc2 n usr) = [usr]"
| "msgs_in (W_copy n usr) = [usr]"
| "msgs_in _ = []"

definition q3_sized :: "ch3_threads \<Rightarrow> bool" where
  "q3_sized s \<longleftrightarrow> msgs_ok (q3_mem s) \<and> (\<forall>i. \<forall>m \<in> set (msgs_in (q3_pc s i)). msg_ok m)"

lemma q3_sizedI:
  assumes "q3_sized s" and "msgs_ok (q3_mem t)" and "q3_pc t = (q3_pc s)(i := x)" and "\<forall>m \<in> set (msgs_in x). msg_ok m"
  shows "q3_sized t"
  using assms by (simp add: q3_sized_def)

lemma q3_sized_step:
  assumes "ch3_step oom ptr_size i s t" and "q3_sized s"
  shows "q3_sized t"
proof -
  have M: "msgs_ok (q3_mem s)" and pc: "\<forall>m \<in> set (msgs_in (q3_pc s i)). msg_ok m"
    using assms(2) by (simp_all add: q3_sized_def)
  note go = q3_sizedI [OF assms(2), where i = i]
  show ?thesis
    using assms(1)
  proof cases
    case (memcpy usr n p temp_msg)
    have "msg_ok temp_msg" by (rule msgs_ok_load [OF M memcpy(3)])
    then show ?thesis using memcpy M pc by (intro go [where x = "R_unlink usr n temp_msg"]) simp_all
  next
    case (kmalloc2 n usr p junk)
    then show ?thesis using M pc by (intro go [where x = "W_copy n usr"]) (auto intro: msgs_ok_upd2)
  next
    case (copy_in n usr p old m u)
    then have "msg_ok m" using pc by simp
    then show ?thesis using copy_in M pc by (intro go [where x = "W_lock n m"]) (auto intro: msgs_ok_upd)
  next
    case (kfree n mem)
    then show ?thesis using msgs_ok_free [OF M kfree(3)] by (intro go [where x = Returning]) simp_all
  qed (use assms(2) M pc in \<open>auto simp: q3_sized_def\<close>)
qed

lemma q3_sized_start: "q3_start s \<Longrightarrow> q3_sized s"
  using q3_init_empty by (fastforce simp: q3_start_def q3_sized_def)

lemma ch3_found_step:
  assumes "ch3_step False ptr_size i s t" and "q3_sized s"
  shows "\<exists>ms cs. in_transit (q3_pc s j) @ found j [ch3_event i (q3_pc s i) (q3_pc t i)] = ms @ in_transit (q3_pc t j) \<and>
    copies_of j (q3_got t) = copies_of j (q3_got s) @ cs \<and> list_all2 handed_over ms cs"
proof -
  have pc: "\<forall>m \<in> set (msgs_in (q3_pc s i)). msg_ok m" using assms(2) by (simp add: q3_sized_def)
  show ?thesis
    using assms(1)
  proof cases
    case (reply usr temp_msg u)
    let ?c = "(usr, u, struct_copy usr temp_msg u)"
    have "temp_msg = empty_reply" using reply(3) by (simp add: zero_msg_marked)
    then have "handed_over empty_reply ?c" using pc reply(2) by (simp add: handed_over_def struct_copy_all)
    then show ?thesis
      using reply \<open>temp_msg = empty_reply\<close>
      by (intro exI [of _ "if j = i then [empty_reply] else []"] exI [of _ "if j = i then [?c] else []"]) simp
  next
    case (copy_out usr n m u)
    let ?c = "(usr, u, struct_copy usr m u)"
    have "handed_over m ?c" using pc copy_out(2) by (simp add: handed_over_def struct_copy_all)
    then show ?thesis
      using copy_out by (intro exI [of _ "if j = i then [m] else []"] exI [of _ "if j = i then [?c] else []"]) simp
  qed (rule exI [of _ "[]"], rule exI [of _ "[]"], simp; fail)+
qed

lemma ch3_found:
  "labelled q3_start (ch3_emits ptr_size) es s \<Longrightarrow>
    q3_sized s \<and> (\<exists>ms. found i es = ms @ in_transit (q3_pc s i) \<and> list_all2 handed_over ms (copies_of i (q3_got s)))"
proof (induction rule: labelled.induct)
  case (lab_start s)
  then show ?case using q3_sized_start [of s] by (simp add: q3_start_def)
next
  case (lab_step es s e t)
  then obtain j where j: "ch3_step False ptr_size j s t" "e = ch3_event j (q3_pc s j) (q3_pc t j)"
    by (auto simp: ch3_emits_def)
  obtain ms where ms: "found i es = ms @ in_transit (q3_pc s i)" "list_all2 handed_over ms (copies_of i (q3_got s))"
    using lab_step.IH by blast
  obtain ms' cs where "in_transit (q3_pc s i) @ found i [e] = ms' @ in_transit (q3_pc t i)"
      "copies_of i (q3_got t) = copies_of i (q3_got s) @ cs" "list_all2 handed_over ms' cs"
    using ch3_found_step [OF j(1), of i] lab_step.IH j(2) by auto
  moreover from this have "list_all2 handed_over (ms @ ms') (copies_of i (q3_got t))"
    using ms(2) by (simp add: list_all2_appendI)
  ultimately have "found i (es @ [e]) = (ms @ ms') @ in_transit (q3_pc t i) \<and>
      list_all2 handed_over (ms @ ms') (copies_of i (q3_got t))"
    using ms(1) by simp
  then show ?case using q3_sized_step [OF j(1)] lab_step.IH by blast
qed

subsection \<open>An undisturbed call\<close>

text \<open>The steps of a call during which nobody else moves are the function of Msg_Queue.\<close>

lemma ch3_read_undisturbed:
  assumes "q3_pc s i = R_lock usr" and "ch3_read usr u (q3_mem s) = Inr (r, usr', M)"
  shows "\<exists>t. (ch3_step oom ptr_size i)\<^sup>*\<^sup>* s t \<and> q3_pc t i = Returning \<and> q3_mem t = M \<and>
    q3_got t = q3_got s @ [(i, usr, u, usr')]"
proof -
  let ?s1 = "(q3_goto s i (R_test usr))\<lparr>q3_mem := (q3_mem s)\<lparr>mq_lock := True\<rparr>\<rparr>"
  have lock: "\<not> mq_lock (q3_mem s)" using assms(2) by (auto simp: ch3_read_def spin_lock_def)
  then have 1: "ch3_step oom ptr_size i s ?s1" by (intro read_lock) (use assms in simp_all)
  show ?thesis
  proof (cases "mq_list (q3_mem s)")
    case Nil
    let ?s2 = "q3_goto ?s1 i (R_unlock_empty usr)"
    let ?s3 = "(q3_goto ?s2 i (R_reply usr))\<lparr>q3_mem := (q3_mem ?s2)\<lparr>mq_lock := False\<rparr>\<rparr>"
    let ?m = "zero_msg\<lparr>msg_str := (msg_str zero_msg)[0 := CHR ''0'', 1 := NUL]\<rparr>"
    let ?s4 = "(q3_goto ?s3 i Returning)\<lparr>q3_got := q3_got ?s3 @ [(i, usr, u, struct_copy usr ?m u)]\<rparr>"
    have "ch3_step oom ptr_size i ?s1 ?s2" by (rule list_empty) (use Nil in simp_all)
    moreover have "ch3_step oom ptr_size i ?s2 ?s3" by (rule unlock_empty) simp
    moreover have "ch3_step oom ptr_size i ?s3 ?s4" by (rule reply) simp_all
    ultimately have "(ch3_step oom ptr_size i)\<^sup>*\<^sup>* s ?s4" using 1 by (meson converse_rtranclp_into_rtranclp rtranclp.rtrancl_refl)
    moreover have "q3_mem ?s4 = M" "struct_copy usr ?m u = usr'"
      using assms(2) Nil lock by (auto simp: ch3_read_def spin_lock_def spin_unlock_def Let_def)
    ultimately show ?thesis by (intro exI [of _ ?s4]) simp
  next
    case (Cons n ns)
    obtain p m where m: "load_msg (q3_mem s) n = Inr (p, m)"
      using assms(2) Cons lock by (auto simp: ch3_read_def spin_lock_def bindr_eq_Inr)
    let ?s2 = "q3_goto ?s1 i (R_load usr n)"
    let ?s3 = "q3_goto ?s2 i (R_unlink usr n m)"
    let ?s4 = "(q3_goto ?s3 i (R_unlock usr n m))\<lparr>q3_mem := (q3_mem ?s3)\<lparr>mq_list := remove1 n (mq_list (q3_mem ?s3))\<rparr>\<rparr>"
    let ?s5 = "(q3_goto ?s4 i (R_copy usr n m))\<lparr>q3_mem := (q3_mem ?s4)\<lparr>mq_lock := False\<rparr>\<rparr>"
    let ?s6 = "(q3_goto ?s5 i (R_free n))\<lparr>q3_got := q3_got ?s5 @ [(i, usr, u, struct_copy usr m u)]\<rparr>"
    let ?s7 = "(q3_goto ?s6 i Returning)\<lparr>q3_mem := M\<rparr>"
    have f: "free_node (q3_mem ?s6) n = Inr M" "struct_copy usr m u = usr'"
      using assms(2) Cons lock m by (auto simp: ch3_read_def spin_lock_def spin_unlock_def bindr_eq_Inr)
    have "ch3_step oom ptr_size i ?s1 ?s2" by (rule list_entry) (use Cons in simp_all)
    moreover have "ch3_step oom ptr_size i ?s2 ?s3" by (rule memcpy [where p = p]) (use m in simp_all)
    moreover have "ch3_step oom ptr_size i ?s3 ?s4" by (rule list_del) simp
    moreover have "ch3_step oom ptr_size i ?s4 ?s5" by (rule read_unlock) simp
    moreover have "ch3_step oom ptr_size i ?s5 ?s6" by (rule copy_out) simp
    moreover have "ch3_step oom ptr_size i ?s6 ?s7" by (rule kfree) (use f(1) in simp_all)
    ultimately have "(ch3_step oom ptr_size i)\<^sup>*\<^sup>* s ?s7" using 1 by (meson converse_rtranclp_into_rtranclp rtranclp.rtrancl_refl)
    then show ?thesis using f(2) by (intro exI [of _ ?s7]) simp
  qed
qed

lemma ch3_write_undisturbed:
  assumes "q3_pc s i = W_alloc usr" and "alloc_fresh e (q3_mem s)" and "ch3_write e usr u (q3_mem s) = Inr (r, M)"
  shows "\<exists>t. (ch3_step oom ptr_size i)\<^sup>*\<^sup>* s t \<and> q3_pc t i = Returning \<and> q3_mem t = M \<and> q3_got t = q3_got s"
proof -
  obtain n p where e: "new_node_at e = Some n" "n \<notin> dom (mq_node (q3_mem s))"
      "new_msg_at e = Some p" "p \<notin> dom (mq_msg (q3_mem s))"
    using assms(2) by (auto simp: alloc_fresh_def)
  have lock: "\<not> mq_lock (q3_mem s)" using assms(3) e by (auto simp: ch3_write_def spin_lock_def split: if_splits)
  let ?m = "struct_copy zero_msg usr u"
  let ?s1 = "(q3_goto s i (W_alloc2 n usr))\<lparr>q3_mem := (q3_mem s)\<lparr>mq_node := (mq_node (q3_mem s))(n \<mapsto> None)\<rparr>\<rparr>"
  let ?s2 = "(q3_goto ?s1 i (W_copy n usr))\<lparr>q3_mem := (q3_mem ?s1)\<lparr>mq_node := (mq_node (q3_mem ?s1))(n \<mapsto> Some p),
    mq_msg := (mq_msg (q3_mem ?s1))(p \<mapsto> zero_msg)\<rparr>\<rparr>"
  let ?s3 = "(q3_goto ?s2 i (W_lock n ?m))\<lparr>q3_mem := (q3_mem ?s2)\<lparr>mq_msg := (mq_msg (q3_mem ?s2))(p \<mapsto> ?m)\<rparr>\<rparr>"
  let ?s4 = "(q3_goto ?s3 i (W_link n ?m))\<lparr>q3_mem := (q3_mem ?s3)\<lparr>mq_lock := True\<rparr>\<rparr>"
  let ?s5 = "(q3_goto ?s4 i W_unlock)\<lparr>q3_mem := (q3_mem ?s4)\<lparr>mq_list := mq_list (q3_mem ?s4) @ [n]\<rparr>\<rparr>"
  let ?s6 = "(q3_goto ?s5 i Returning)\<lparr>q3_mem := (q3_mem ?s5)\<lparr>mq_lock := False\<rparr>\<rparr>"
  have "ch3_step oom ptr_size i s ?s1" by (rule kmalloc) (use assms(1) e in simp_all)
  moreover have "ch3_step oom ptr_size i ?s1 ?s2" by (rule kmalloc2) (use e in simp_all)
  moreover have "ch3_step oom ptr_size i ?s2 ?s3"
    by (rule copy_in [where p = p and old = zero_msg and u = u]) (simp_all add: load_msg_def)
  moreover have "ch3_step oom ptr_size i ?s3 ?s4" by (rule write_lock) (use lock in simp_all)
  moreover have "ch3_step oom ptr_size i ?s4 ?s5" by (rule list_add_tail) simp
  moreover have "ch3_step oom ptr_size i ?s5 ?s6" by (rule write_unlock) simp
  ultimately have "(ch3_step oom ptr_size i)\<^sup>*\<^sup>* s ?s6" by (meson converse_rtranclp_into_rtranclp rtranclp.rtrancl_refl)
  moreover have "q3_mem ?s6 = M"
    using assms(3) e lock by (simp add: ch3_write_def spin_lock_def spin_unlock_def Let_def)
  ultimately show ?thesis by (intro exI [of _ ?s6]) simp
qed

subsection \<open>Every call returns\<close>

fun ch3_rank :: "ch3_pc \<Rightarrow> nat" where
  "ch3_rank Outside = 0"
| "ch3_rank Returning = 1"
| "ch3_rank (R_free n) = 2"
| "ch3_rank (R_copy usr n m) = 3"
| "ch3_rank (R_unlock usr n m) = 4"
| "ch3_rank (R_unlink usr n m) = 5"
| "ch3_rank (R_load usr n) = 6"
| "ch3_rank (R_reply usr) = 2"
| "ch3_rank (R_unlock_empty usr) = 3"
| "ch3_rank (R_test usr) = 7"
| "ch3_rank (R_lock usr) = 8"
| "ch3_rank W_unlock = 2"
| "ch3_rank (W_link n m) = 3"
| "ch3_rank (W_lock n m) = 4"
| "ch3_rank (W_copy n usr) = 5"
| "ch3_rank (W_alloc2 n usr) = 6"
| "ch3_rank (W_alloc usr) = 7"

lemma ch3_rank_0 [simp]: "0 < ch3_rank x \<longleftrightarrow> x \<noteq> Outside"
  by (cases x) auto

definition q3_live :: "ch3_threads \<Rightarrow> bool" where
  "q3_live s \<longleftrightarrow> q3_inv s \<and> finite {i. q3_pc s i \<noteq> Outside}"

lemma q3_live_step: "ch3_step False ptr_size i s t \<Longrightarrow> q3_live s \<Longrightarrow> q3_live t"
  using q3_inv_step [of ptr_size i s t]
  by (auto simp: q3_live_def simp del: fun_upd_apply elim!: ch3_stepE)

lemma ch3_nearer:
  assumes "ch3_step False ptr_size i s t" and "q3_inv s" and "q3_pc s i \<noteq> Outside"
  shows "ch3_rank (q3_pc t i) < ch3_rank (q3_pc s i)"
  using assms(1) by cases (use assms(3) q3_no_fault [OF assms(2), of i] in auto)

text \<open>What is allocated is finite, so there is room for one more node.\<close>

lemma q3_room:
  assumes "q3_live s"
  shows "\<exists>n. n \<notin> dom (mq_node (q3_mem s))" "\<exists>p. p \<notin> dom (mq_msg (q3_mem s))"
proof -
  let ?N = "set (mq_list (q3_mem s)) \<union> held full_of (q3_pc s)"
  have h: "heap_ok (q3_mem s) ?N (held half_of (q3_pc s))"
    using assms node_heap_simps(4) by (auto simp: q3_live_def q3_inv_def)
  have f: "finite ?N" "finite (held half_of (q3_pc s))"
    using assms finite_held [of "q3_pc s" Outside full_of] finite_held [of "q3_pc s" Outside half_of] by (auto simp: q3_live_def)
  then have "finite (dom (mq_node (q3_mem s)))" "finite (dom (mq_msg (q3_mem s)))"
    using h by (simp_all add: heap_ok_def)
  then show "\<exists>n. n \<notin> dom (mq_node (q3_mem s))" "\<exists>p. p \<notin> dom (mq_msg (q3_mem s))"
    using ex_new_if_finite [OF infinite_UNIV_nat] by blast+
qed

lemma ch3_critical_can_move: "critical (q3_pc s j) \<Longrightarrow> \<exists>t. ch3_step False ptr_size j s t"
proof (cases "q3_pc s j")
  case (R_test usr)
  then show ?thesis by (cases "mq_list (q3_mem s)") (blast intro: ch3_step.intros)+
next
  case (R_load usr n)
  then show ?thesis by (cases "load_msg (q3_mem s) n") (auto intro: ch3_step.intros)
qed (auto intro: ch3_step.intros)

lemma ch3_can_move:
  assumes "q3_live s" and "q3_pc s i \<noteq> Outside"
  shows "\<exists>j t. ch3_step False ptr_size j s t \<and> q3_pc s j \<noteq> Outside"
proof (cases "mq_lock (q3_mem s)")
  case True
  then obtain j where "critical (q3_pc s j)"
    using assms(1) by (auto simp: q3_live_def q3_inv_def lock_ok_def)
  then show ?thesis using ch3_critical_can_move [of s j ptr_size] by force
next
  case free: False
  obtain n p where "n \<notin> dom (mq_node (q3_mem s))" "p \<notin> dom (mq_msg (q3_mem s))"
    using q3_room [OF assms(1)] by blast
  moreover have "\<exists>t. ch3_step False ptr_size i s t" if "critical (q3_pc s i)"
    using that by (rule ch3_critical_can_move)
  ultimately have "\<exists>t. ch3_step False ptr_size i s t"
  proof (cases "q3_pc s i")
    case (W_alloc2 n usr)
    then show ?thesis using kmalloc2 [OF W_alloc2 \<open>p \<notin> dom (mq_msg (q3_mem s))\<close> zero_msg_ok] by blast
  next
    case (W_copy n usr)
    then show ?thesis by (cases "load_msg (q3_mem s) n") (auto intro: ch3_step.intros)
  next
    case (R_free n)
    then show ?thesis by (cases "free_node (q3_mem s) n") (auto intro: ch3_step.intros)
  qed (use free assms(2) in \<open>(simp; fail) | blast intro: ch3_step.intros\<close>)+
  then show ?thesis using assms(2) by blast
qed

interpretation ch3_calls: draining "ch3_step False ptr_size" "\<lambda>s i. ch3_rank (q3_pc s i)" q3_live "\<lambda>_. 8"
proof
  fix s t i j
  assume "q3_live s" "ch3_step False ptr_size i s t"
  then show "0 < ch3_rank (q3_pc s i) \<Longrightarrow> q3_live t"
    and "0 < ch3_rank (q3_pc s i) \<Longrightarrow> ch3_rank (q3_pc t i) < ch3_rank (q3_pc s i)"
    using q3_live_step ch3_nearer by (auto simp: q3_live_def)
  show "j \<noteq> i \<Longrightarrow> ch3_rank (q3_pc t j) = ch3_rank (q3_pc s j)"
    using \<open>ch3_step False ptr_size i s t\<close> by cases auto
next
  fix s i
  show "ch3_rank (q3_pc s i) \<le> 8" by (cases "q3_pc s i") auto
next
  fix s i
  assume "q3_live s" "0 < ch3_rank (q3_pc s i)"
  then show "\<exists>j t. ch3_step False ptr_size j s t \<and> 0 < ch3_rank (q3_pc s j)"
    using ch3_can_move [of s i ptr_size] by auto
qed (simp add: q3_live_def)

lemma ch3_labelled_live: "labelled q3_start (ch3_emits ptr_size) es s \<Longrightarrow> q3_live s"
proof (induction rule: labelled.induct)
  case (lab_start s)
  then show ?case using q3_inv_start by (auto simp: q3_live_def q3_start_def)
next
  case (lab_step es s e t)
  then show ?case using q3_live_step by (auto simp: ch3_emits_def)
qed

subsection \<open>A sample run\<close>

lemma ch3_log:
  "labelled q3_start (ch3_emits ptr_size) es s \<Longrightarrow> ch3_step False ptr_size i s t \<Longrightarrow>
    es' = es @ [ch3_event i (q3_pc s i) (q3_pc t i)] \<Longrightarrow> labelled q3_start (ch3_emits ptr_size) es' t"
  by (simp, rule lab_step) (auto simp: ch3_emits_def)

text \<open>Two threads, 0 and 1.\<close>

definition q3_two :: "mq \<Rightarrow> ch3_pc \<Rightarrow> ch3_pc \<Rightarrow> (nat \<times> msg_st \<times> nat \<times> msg_st) list \<Rightarrow> ch3_threads" where
  "q3_two M x y g = \<lparr>q3_mem = M, q3_pc = (\<lambda>_. Outside)(0 := x, 1 := y), q3_fault = None, q3_got = g\<rparr>"

lemma q3_two_simps [simp]:
  "q3_mem (q3_two M x y g) = M" "q3_pc (q3_two M x y g) 0 = x" "q3_pc (q3_two M x y g) 1 = y"
  "q3_pc (q3_two M x y g) (Suc 0) = y" "q3_got (q3_two M x y g) = g"
  "q3_goto (q3_two M x y g) 0 z = q3_two M z y g" "q3_goto (q3_two M x y g) 1 z = q3_two M x z g"
  "q3_goto (q3_two M x y g) (Suc 0) z = q3_two M x z g"
  "(q3_two M x y g)\<lparr>q3_mem := M'\<rparr> = q3_two M' x y g" "(q3_two M x y g)\<lparr>q3_got := g'\<rparr> = q3_two M x y g'"
  by (simp_all add: q3_two_def q3_goto_def fun_upd_twist)

text \<open>Thread 1 asks while thread 0 is still writing, and gets the message.\<close>

lemma ch3_handed_over:
  "labelled q3_start (ch3_emits 8)
      [Internal, Internal, Internal, Internal, Internal, Internal, Enq 0 sample_msg, Internal, Internal, Internal, Internal, Deq 1 sample_msg, Internal, Internal]
    (q3_two \<lparr>mq_node = [7 \<mapsto> Some 9], mq_msg = [9 \<mapsto> sample_msg], mq_list = [], mq_lock = False\<rparr>
      Returning (R_free 7) [(1, zero_msg, 0, sample_msg)])"
proof -
  let ?R = "labelled q3_start (ch3_emits 8)"
  note step = ch3_log [where ptr_size = 8]
  have copied: "struct_copy zero_msg sample_msg 0 = sample_msg" by (simp add: struct_copy_all)
  have "?R [] (q3_two \<lparr>mq_node = Map.empty, mq_msg = Map.empty, mq_list = [], mq_lock = False\<rparr>
      Outside Outside [])"
    by (rule lab_start)
      (auto simp: q3_start_def q3_two_def ch3_init_def mq_empty_def all_ok_def Let_def intro!: exI [of _ all_ok])
  then have "?R [Internal]
      (q3_two \<lparr>mq_node = Map.empty, mq_msg = Map.empty, mq_list = [], mq_lock = False\<rparr>
      (W_alloc sample_msg) Outside [])"
    by (rule step [where i = 0]) (use call_write [of "q3_two \<lparr>mq_node = Map.empty, mq_msg = Map.empty, mq_list = [], mq_lock = False\<rparr> Outside Outside []" 0 _ 8 sample_msg] in \<open>simp add: load_msg_def copied\<close>, simp)
  then have "?R [Internal, Internal]
      (q3_two \<lparr>mq_node = [7 \<mapsto> None], mq_msg = Map.empty, mq_list = [], mq_lock = False\<rparr>
      (W_alloc2 7 sample_msg) Outside [])"
    by (rule step [where i = 0]) (use kmalloc [of "q3_two \<lparr>mq_node = Map.empty, mq_msg = Map.empty, mq_list = [], mq_lock = False\<rparr> (W_alloc sample_msg) Outside []" 0 sample_msg 7] in \<open>simp add: load_msg_def copied\<close>, simp)
  then have "?R [Internal, Internal, Internal]
      (q3_two \<lparr>mq_node = [7 \<mapsto> Some 9], mq_msg = [9 \<mapsto> zero_msg], mq_list = [], mq_lock = False\<rparr>
      (W_copy 7 sample_msg) Outside [])"
    by (rule step [where i = 0]) (use kmalloc2 [of "q3_two \<lparr>mq_node = [7 \<mapsto> None], mq_msg = Map.empty, mq_list = [], mq_lock = False\<rparr> (W_alloc2 7 sample_msg) Outside []" 0 7 sample_msg 9] in \<open>simp add: load_msg_def copied\<close>, simp)
  then have "?R [Internal, Internal, Internal, Internal]
      (q3_two \<lparr>mq_node = [7 \<mapsto> Some 9], mq_msg = [9 \<mapsto> zero_msg], mq_list = [], mq_lock = False\<rparr>
      (W_copy 7 sample_msg) (R_lock zero_msg) [])"
    by (rule step [where i = 1]) (use call_read [of "q3_two \<lparr>mq_node = [7 \<mapsto> Some 9], mq_msg = [9 \<mapsto> zero_msg], mq_list = [], mq_lock = False\<rparr> (W_copy 7 sample_msg) Outside []" 1 _ 8 zero_msg] in \<open>simp add: load_msg_def copied\<close>, simp)
  then have "?R [Internal, Internal, Internal, Internal, Internal]
      (q3_two \<lparr>mq_node = [7 \<mapsto> Some 9], mq_msg = [9 \<mapsto> sample_msg], mq_list = [], mq_lock = False\<rparr>
      (W_lock 7 sample_msg) (R_lock zero_msg) [])"
    by (rule step [where i = 0]) (use copy_in [of "q3_two \<lparr>mq_node = [7 \<mapsto> Some 9], mq_msg = [9 \<mapsto> zero_msg], mq_list = [], mq_lock = False\<rparr> (W_copy 7 sample_msg) (R_lock zero_msg) []" 0 7 sample_msg 9 zero_msg _ 0] in \<open>simp add: load_msg_def copied\<close>, simp)
  then have "?R [Internal, Internal, Internal, Internal, Internal, Internal]
      (q3_two \<lparr>mq_node = [7 \<mapsto> Some 9], mq_msg = [9 \<mapsto> sample_msg], mq_list = [], mq_lock = True\<rparr>
      (W_link 7 sample_msg) (R_lock zero_msg) [])"
    by (rule step [where i = 0]) (use write_lock [of "q3_two \<lparr>mq_node = [7 \<mapsto> Some 9], mq_msg = [9 \<mapsto> sample_msg], mq_list = [], mq_lock = False\<rparr> (W_lock 7 sample_msg) (R_lock zero_msg) []" 0 7 sample_msg] in \<open>simp add: load_msg_def copied\<close>, simp)
  then have "?R [Internal, Internal, Internal, Internal, Internal, Internal, Enq 0 sample_msg]
      (q3_two \<lparr>mq_node = [7 \<mapsto> Some 9], mq_msg = [9 \<mapsto> sample_msg], mq_list = [7], mq_lock = True\<rparr>
      W_unlock (R_lock zero_msg) [])"
    by (rule step [where i = 0]) (use list_add_tail [of "q3_two \<lparr>mq_node = [7 \<mapsto> Some 9], mq_msg = [9 \<mapsto> sample_msg], mq_list = [], mq_lock = True\<rparr> (W_link 7 sample_msg) (R_lock zero_msg) []" 0 7 sample_msg] in \<open>simp add: load_msg_def copied\<close>, simp)
  then have "?R [Internal, Internal, Internal, Internal, Internal, Internal, Enq 0 sample_msg, Internal]
      (q3_two \<lparr>mq_node = [7 \<mapsto> Some 9], mq_msg = [9 \<mapsto> sample_msg], mq_list = [7], mq_lock = False\<rparr>
      Returning (R_lock zero_msg) [])"
    by (rule step [where i = 0]) (use write_unlock [of "q3_two \<lparr>mq_node = [7 \<mapsto> Some 9], mq_msg = [9 \<mapsto> sample_msg], mq_list = [7], mq_lock = True\<rparr> W_unlock (R_lock zero_msg) []" 0] in \<open>simp add: load_msg_def copied\<close>, simp)
  then have "?R [Internal, Internal, Internal, Internal, Internal, Internal, Enq 0 sample_msg, Internal, Internal]
      (q3_two \<lparr>mq_node = [7 \<mapsto> Some 9], mq_msg = [9 \<mapsto> sample_msg], mq_list = [7], mq_lock = True\<rparr>
      Returning (R_test zero_msg) [])"
    by (rule step [where i = 1]) (use read_lock [of "q3_two \<lparr>mq_node = [7 \<mapsto> Some 9], mq_msg = [9 \<mapsto> sample_msg], mq_list = [7], mq_lock = False\<rparr> Returning (R_lock zero_msg) []" 1 zero_msg] in \<open>simp add: load_msg_def copied\<close>, simp)
  then have "?R [Internal, Internal, Internal, Internal, Internal, Internal, Enq 0 sample_msg, Internal, Internal, Internal]
      (q3_two \<lparr>mq_node = [7 \<mapsto> Some 9], mq_msg = [9 \<mapsto> sample_msg], mq_list = [7], mq_lock = True\<rparr>
      Returning (R_load zero_msg 7) [])"
    by (rule step [where i = 1]) (use list_entry [of "q3_two \<lparr>mq_node = [7 \<mapsto> Some 9], mq_msg = [9 \<mapsto> sample_msg], mq_list = [7], mq_lock = True\<rparr> Returning (R_test zero_msg) []" 1 zero_msg 7] in \<open>simp add: load_msg_def copied\<close>, simp)
  then have "?R [Internal, Internal, Internal, Internal, Internal, Internal, Enq 0 sample_msg, Internal, Internal, Internal, Internal]
      (q3_two \<lparr>mq_node = [7 \<mapsto> Some 9], mq_msg = [9 \<mapsto> sample_msg], mq_list = [7], mq_lock = True\<rparr>
      Returning (R_unlink zero_msg 7 sample_msg) [])"
    by (rule step [where i = 1]) (use memcpy [of "q3_two \<lparr>mq_node = [7 \<mapsto> Some 9], mq_msg = [9 \<mapsto> sample_msg], mq_list = [7], mq_lock = True\<rparr> Returning (R_load zero_msg 7) []" 1 zero_msg 7 9] in \<open>simp add: load_msg_def copied\<close>, simp)
  then have "?R [Internal, Internal, Internal, Internal, Internal, Internal, Enq 0 sample_msg, Internal, Internal, Internal, Internal, Deq 1 sample_msg]
      (q3_two \<lparr>mq_node = [7 \<mapsto> Some 9], mq_msg = [9 \<mapsto> sample_msg], mq_list = [], mq_lock = True\<rparr>
      Returning (R_unlock zero_msg 7 sample_msg) [])"
    by (rule step [where i = 1]) (use list_del [of "q3_two \<lparr>mq_node = [7 \<mapsto> Some 9], mq_msg = [9 \<mapsto> sample_msg], mq_list = [7], mq_lock = True\<rparr> Returning (R_unlink zero_msg 7 sample_msg) []" 1 zero_msg 7 sample_msg] in \<open>simp add: load_msg_def copied\<close>, simp)
  then have "?R [Internal, Internal, Internal, Internal, Internal, Internal, Enq 0 sample_msg, Internal, Internal, Internal, Internal, Deq 1 sample_msg, Internal]
      (q3_two \<lparr>mq_node = [7 \<mapsto> Some 9], mq_msg = [9 \<mapsto> sample_msg], mq_list = [], mq_lock = False\<rparr>
      Returning (R_copy zero_msg 7 sample_msg) [])"
    by (rule step [where i = 1]) (use read_unlock [of "q3_two \<lparr>mq_node = [7 \<mapsto> Some 9], mq_msg = [9 \<mapsto> sample_msg], mq_list = [], mq_lock = True\<rparr> Returning (R_unlock zero_msg 7 sample_msg) []" 1 zero_msg 7 sample_msg] in \<open>simp add: load_msg_def copied\<close>, simp)
  then have "?R [Internal, Internal, Internal, Internal, Internal, Internal, Enq 0 sample_msg, Internal, Internal, Internal, Internal, Deq 1 sample_msg, Internal, Internal]
      (q3_two \<lparr>mq_node = [7 \<mapsto> Some 9], mq_msg = [9 \<mapsto> sample_msg], mq_list = [], mq_lock = False\<rparr>
      Returning (R_free 7) [(1, zero_msg, 0, sample_msg)])"
    by (rule step [where i = 1]) (use copy_out [of "q3_two \<lparr>mq_node = [7 \<mapsto> Some 9], mq_msg = [9 \<mapsto> sample_msg], mq_list = [], mq_lock = False\<rparr> Returning (R_copy zero_msg 7 sample_msg) []" 1 zero_msg 7 sample_msg _ _ 0] in \<open>simp add: load_msg_def copied\<close>, simp)
  then show ?thesis .
qed

definition ch3_sample_log :: "msg_st fifo_event list" where
  "ch3_sample_log = [Internal, Internal, Internal, Internal, Internal, Internal, Enq 0 sample_msg, Internal, Internal, Internal, Internal, Deq 1 sample_msg, Internal, Internal]"

lemma ch3_sample:
  "\<exists>s. labelled q3_start (ch3_emits 8) ch3_sample_log s \<and> q3_got s = [(1, zero_msg, 0, sample_msg)] \<and>
    q3_pc s 1 = R_free 7 \<and> mq_list (q3_mem s) = []"
  unfolding ch3_sample_log_def by (rule exI, rule conjI, rule ch3_handed_over) simp

lemma ch3_idle_unload:
  assumes "q3_inv s" and "\<And>i. q3_pc s i = Outside"
  shows "\<exists>M tr. ch3_exit (q3_mem s) = Inr (M, tr) \<and> dom (mq_node M) = {} \<and> dom (mq_msg M) = {}"
proof -
  have "distinct (mq_list (q3_mem s))" "heap_ok (q3_mem s) (set (mq_list (q3_mem s))) {}"
    using q3_inv_simps(3) [OF assms(1)] assms(2) by (simp_all add: node_heap_empty)
  then obtain M where "ch3_drain (mq_list (q3_mem s)) (q3_mem s) = Inr M" "heap_ok M {} {}"
    using ch3_unload.frees_all [of "q3_mem s"] by blast
  then show ?thesis by (auto simp: ch3_exit_def heap_ok_def)
qed

subsection \<open>Properties\<close>

text \<open>
  C4. The message queue of lab4 under concurrency, allocations succeeding: whatever threads
  are inside and however their steps interleave, what they link, unlink and find empty is a
  history of an atomic FIFO queue whose contents are the list, and no step faults. Each
  reader copies to its caller's structure what it unlinked, or the reply to an empty queue,
  once and in order: all of it but the bytes copy_to_user leaves out, and when it leaves out
  none the caller's structure is the message. When nobody is inside unloading frees
  everything.
\<close>

theorem ch3_linearizable:
  assumes "labelled q3_start (ch3_emits ptr_size) es s"
  shows "fifo_history es [] = Some (node_view (q3_mem s)) \<and>
    enqueued es = map snd (dequeued es) @ node_view (q3_mem s) \<and> q3_fault s = None \<and>
    (\<forall>i. \<exists>ms. found i es = ms @ in_transit (q3_pc s i) \<and>
       list_all2 (\<lambda>m (usr, u, usr'). usr' = struct_copy usr m u \<and> (u = 0 \<longrightarrow> usr' = m))
         ms (map snd (filter (\<lambda>x. fst x = i) (q3_got s)))) \<and>
    ((\<forall>i. q3_pc s i = Outside) \<longrightarrow>
      (\<exists>M tr. ch3_exit (q3_mem s) = Inr (M, tr) \<and> dom (mq_node M) = {} \<and> dom (mq_msg M) = {}))"
proof -
  have h: "handed_over = (\<lambda>m (usr, u, usr'). usr' = struct_copy usr m u \<and> (u = 0 \<longrightarrow> usr' = m))"
    by (auto simp: handed_over_def fun_eq_iff)
  have "\<exists>ms. found i es = ms @ in_transit (q3_pc s i) \<and> list_all2 handed_over ms (copies_of i (q3_got s))" for i
    using ch3_found [OF assms] by blast
  then show ?thesis
    using ch3_atomic.exactly_once [OF assms] ch3_idle_unload [of s] unfolding h copies_of_def
    by (auto simp: q3_rel_def q3_inv_def)
qed

theorem ch3_linearizable_witness:
  "\<exists>s :: ch3_threads. labelled q3_start (ch3_emits 8) ch3_sample_log s \<and>
     fifo_history ch3_sample_log [] = Some (node_view (q3_mem s)) \<and> node_view (q3_mem s) = [] \<and>
     q3_got s = [(1, zero_msg, 0, sample_msg)] \<and> q3_fault s = None \<and> found 1 ch3_sample_log = [sample_msg]"
proof -
  obtain s where s: "labelled q3_start (ch3_emits 8) ch3_sample_log s" "mq_list (q3_mem s) = []"
      "q3_got s = [(1, zero_msg, 0, sample_msg)]" "q3_pc s 1 = R_free 7"
    using ch3_sample by blast
  note p = ch3_linearizable [OF s(1)]
  obtain ms where "found 1 ch3_sample_log = ms" "list_all2 (\<lambda>m (usr, u, usr'). usr' = struct_copy usr m u \<and> (u = 0 \<longrightarrow> usr' = m))
      ms (map snd (filter (\<lambda>x. fst x = 1) (q3_got s)))"
    using p [THEN conjunct2, THEN conjunct2, THEN conjunct2, THEN conjunct1, THEN spec, of 1] s(4) by auto
  then have "found 1 ch3_sample_log = [sample_msg]" using s(3) by (auto simp: list_all2_Cons2)
  moreover have "node_view (q3_mem s) = []" using s(2) by (simp add: node_view_def)
  ultimately show ?thesis using p s(1,3) by blast
qed

text \<open>
  C20. No schedule keeps a call of the lab4 queue from returning: until new calls begin the
  threads inside make at most eight steps each, and while one is inside one of those inside
  can move: who waits for the spin lock waits for a thread that can go on, and memory for
  one more node never runs out.
\<close>

theorem ch3_calls_return:
  assumes "labelled q3_start (ch3_emits ptr_size) es s"
    and "((\<lambda>s t. \<exists>i. ch3_step False ptr_size i s t \<and> q3_pc s i \<noteq> Outside) ^^ m) s t"
  shows "m \<le> 8 * card {i. q3_pc s i \<noteq> Outside} \<and>
    ((\<exists>i. q3_pc t i \<noteq> Outside) \<longrightarrow> (\<exists>u i. ch3_step False ptr_size i t u \<and> q3_pc t i \<noteq> Outside))"
  using ch3_calls.calls_return [of m ptr_size s t] ch3_labelled_live [OF assms(1)] assms(2) by simp

theorem ch3_calls_return_witness:
  "\<exists>(s :: ch3_threads) t u. labelled q3_start (ch3_emits 8) ch3_sample_log s \<and> q3_pc s 1 = R_free 7 \<and>
     ((\<lambda>s t. \<exists>i. ch3_step False 8 i s t \<and> q3_pc s i \<noteq> Outside) ^^ 1) s t \<and> q3_pc t 1 = Returning \<and>
     (\<exists>i. ch3_step False 8 i t u)"
proof -
  obtain s where s: "labelled q3_start (ch3_emits 8) ch3_sample_log s" "q3_pc s 1 = R_free 7"
    using ch3_sample by blast
  have "q3_inv s" using ch3_labelled_live [OF s(1)] by (simp add: q3_live_def)
  from q3_no_fault(2) [OF this s(2)] obtain mem where "free_node (q3_mem s) 7 = Inr mem"
    by (cases "free_node (q3_mem s) 7") auto
  then have "ch3_step False 8 1 s ((q3_goto s 1 Returning)\<lparr>q3_mem := mem\<rparr>)" (is "ch3_step _ _ _ _ ?t")
    by (rule kfree [OF s(2)])
  moreover have "q3_pc s 1 \<noteq> Outside" using s(2) by simp
  ultimately have run: "((\<lambda>s t. \<exists>i. ch3_step False 8 i s t \<and> q3_pc s i \<noteq> Outside) ^^ 1) s ?t"
    unfolding relpowp_1 by blast
  have pc: "q3_pc ?t 1 = Returning" by simp
  then have "\<exists>i. q3_pc ?t i \<noteq> Outside" by (intro exI [of _ 1]) simp
  then obtain u i where "ch3_step False 8 i ?t u"
    using ch3_calls_return [OF s(1) run] by blast
  then show ?thesis using s run pc by blast
qed

end
