(* ===== verification/Settling.thy ===== *)
theory Settling
  imports Prelude
begin

text \<open>
  When does a system whose threads wait for each other come to rest? A contract for handlers
  that may put their thread to sleep until another wakes it: a step of a thread inside makes
  it lighter and leaves the others as heavy as they are, or, when it wakes them, makes it so
  much lighter that the others may each gain one. Then only so many steps can be made until
  new calls begin, and at rest everybody inside is asleep.
\<close>

locale settling =
  fixes act :: "nat \<Rightarrow> 's \<Rightarrow> 's \<Rightarrow> bool" \<comment> \<open>a step of a thread\<close>
    and inside :: "'s \<Rightarrow> nat \<Rightarrow> bool" \<comment> \<open>the thread's call is under way\<close>
    and asleep :: "'s \<Rightarrow> nat \<Rightarrow> bool"
    and weight :: "nat \<Rightarrow> 's \<Rightarrow> nat \<Rightarrow> nat" \<comment> \<open>for a number of threads inside\<close>
    and inv :: "'s \<Rightarrow> bool"
    and most :: nat
  assumes keeps: "inv s \<Longrightarrow> act i s t \<Longrightarrow> inside s i \<Longrightarrow> inv t"
    and no_calls: "inv s \<Longrightarrow> act i s t \<Longrightarrow> inside s i \<Longrightarrow> inside t j \<Longrightarrow> inside s j"
    and lighter: "inv s \<Longrightarrow> act i s t \<Longrightarrow> inside s i \<Longrightarrow>
      weight N t i < weight N s i \<and> (\<forall>j. j \<noteq> i \<longrightarrow> weight N t j \<le> weight N s j) \<or>
      weight N t i + N \<le> weight N s i \<and> (\<forall>j. j \<noteq> i \<longrightarrow> weight N t j \<le> Suc (weight N s j))"
    and awake: "inv s \<Longrightarrow> inside s i \<Longrightarrow> \<not> asleep s i \<Longrightarrow> \<exists>t. act i s t"
    and bounded: "inv s \<Longrightarrow> weight N s i \<le> N + most"
    and few: "inv s \<Longrightarrow> finite {i. inside s i}"
begin

lemma step_lighter:
  assumes "inv s" and "act i s t" and "inside s i" and "finite A" and "{j. inside s j} \<subseteq> A"
  shows "sum (weight (card A) t) A < sum (weight (card A) s) A \<and> {j. inside t j} \<subseteq> A"
proof
  let ?w = "weight (card A)"
  have i: "i \<in> A" using assms(3,5) by auto
  consider "?w t i < ?w s i" "\<forall>j. j \<noteq> i \<longrightarrow> ?w t j \<le> ?w s j"
    | "?w t i + card A \<le> ?w s i" "\<forall>j. j \<noteq> i \<longrightarrow> ?w t j \<le> Suc (?w s j)"
    using lighter [OF assms(1-3)] by blast
  then show "sum (?w t) A < sum (?w s) A"
  proof cases
    case 1
    have "sum (?w t) (A - {i}) \<le> sum (?w s) (A - {i})" using 1(2) by (intro sum_mono) simp
    then show ?thesis using 1(1) by (simp add: sum.remove [OF assms(4) i])
  next
    case 2
    have "sum (?w t) (A - {i}) \<le> sum (\<lambda>j. ?w s j + 1) (A - {i})" using 2(2) by (intro sum_mono) simp
    also have "\<dots> = sum (?w s) (A - {i}) + (card A - 1)"
      using assms(4) i by (simp only: sum.distrib) (simp add: card_Diff_singleton)
    finally show ?thesis
      using 2(1) i assms(4) card_gt_0_iff [of A] by (auto simp add: sum.remove [OF assms(4) i])
  qed
  show "{j. inside t j} \<subseteq> A" using no_calls [OF assms(1-3)] assms(5) by auto
qed

lemma run_lighter:
  assumes "((\<lambda>s t. \<exists>i. act i s t \<and> inside s i) ^^ m) s t" and "inv s"
    and "finite A" and "{j. inside s j} \<subseteq> A"
  shows "inv t \<and> m + sum (weight (card A) t) A \<le> sum (weight (card A) s) A \<and> {j. inside t j} \<subseteq> A"
  using assms(1)
proof (induction m arbitrary: t)
  case (Suc m)
  then obtain u i where u: "((\<lambda>s t. \<exists>i. act i s t \<and> inside s i) ^^ m) s u" "act i u t" "inside u i"
    by auto
  show ?case
    using Suc.IH [OF u(1)] step_lighter [of u i t A, OF _ u(2,3) assms(3)] keeps [of u i t] u by force
qed (use assms in auto)

lemma settles:
  assumes "((\<lambda>s t. \<exists>i. act i s t \<and> inside s i) ^^ m) s t" and "inv s"
  shows "m \<le> (card {i. inside s i} + most) * card {i. inside s i} \<and> inv t \<and>
    (\<forall>i. inside t i \<and> \<not> asleep t i \<longrightarrow> (\<exists>u. act i t u))"
proof -
  let ?A = "{i. inside s i}"
  have "inv t" "m + sum (weight (card ?A) t) ?A \<le> sum (weight (card ?A) s) ?A"
    using run_lighter [OF assms few [OF assms(2)]] by auto
  moreover have "sum (weight (card ?A) s) ?A \<le> of_nat (card ?A) * (card ?A + most)"
    by (rule sum_bounded_above) (rule bounded [OF assms(2)])
  ultimately show ?thesis using awake [of t] by (simp add: mult.commute)
qed

end

end
