(* ===== verification/Block_Queue.thy ===== *)
theory Block_Queue
  imports Node_Heap Fifo_Spec Ioctl Settling
begin

text \<open>
  lab5/ch4: the blocking message queue (ch4_mod_202111360.c, ch4.h) with any number of
  reader and writer threads. A handler is a path through the program counters below, one
  step per action of the source; the code between spin_lock and spin_unlock is one step,
  because every other access to the list is under the same lock except the test in
  wait_event_interruptible, which is a step of its own. Memory is checked. Shown, for
  every interleaving: no fault and no leak, FIFO hand-over with each message taken by
  exactly one reader, no lost wake-up, how the threads inside come to rest, and what each
  failure returns.
\<close>

subsection \<open>Threads and state\<close>

datatype ch4_pc =
    Idle
  | R_check \<comment> \<open>in wait_event_interruptible, about to test the condition\<close>
  | R_sleep \<comment> \<open>asleep on \<open>my_wq\<close>\<close>
  | R_lock \<comment> \<open>the wait returned 0\<close>
  | R_copy addr msg_st \<comment> \<open>node unlinked, \<open>temp_msg\<close> filled\<close>
  | W_alloc msg_st
  | W_alloc2 addr msg_st
  | W_copy addr msg_st
  | W_link addr msg_st
  | W_wake
  | Done int

record bq =
  bq_mem :: mq
  bq_pc :: "nat \<Rightarrow> ch4_pc"
  bq_fault :: bool
  bq_written :: "msg_st list" \<comment> \<open>ghost: messages in the order they were linked\<close>
  bq_taken :: "(nat \<times> msg_st) list" \<comment> \<open>ghost: unlinked messages with the reader, in order\<close>
  bq_user :: "nat \<Rightarrow> msg_st" \<comment> \<open>the structure in user memory whose address the thread passes\<close>
  bq_result :: "nat \<Rightarrow> (int \<times> msg_st \<times> (msg_st \<times> nat) option) list"
    \<comment> \<open>ghost: per thread, each finished read: its result, the user's structure then, and the message
      it unlinked with the bytes copy_to_user left out\<close>

definition go :: "bq \<Rightarrow> nat \<Rightarrow> ch4_pc \<Rightarrow> bq" where
  "go s i x = s\<lparr>bq_pc := (bq_pc s)(i := x)\<rparr>"

definition bq_start :: "bq \<Rightarrow> bool" where
  "bq_start s \<longleftrightarrow> bq_mem s = mq_empty \<and> bq_pc s = (\<lambda>_. Idle) \<and> \<not> bq_fault s \<and>
     bq_written s = [] \<and> bq_taken s = [] \<and> (\<forall>i. msg_ok (bq_user s i)) \<and> bq_result s = (\<lambda>_. [])"

text \<open>Thread \<open>i\<close> returns \<open>r\<close> from ch4_read, having unlinked \<open>took\<close>.\<close>

definition read_returns :: "bq \<Rightarrow> nat \<Rightarrow> int \<Rightarrow> (msg_st \<times> nat) option \<Rightarrow> bq" where
  "read_returns s i r took =
     (go s i (Done r))\<lparr>bq_result := (bq_result s)(i := bq_result s i @ [(r, bq_user s i, took)])\<rparr>"

text \<open>wake_up_interruptible makes every sleeper test its condition again.\<close>

definition wake_all :: "(nat \<Rightarrow> ch4_pc) \<Rightarrow> nat \<Rightarrow> ch4_pc" where
  "wake_all pcs i = (if pcs i = R_sleep then R_check else pcs i)"

subsection \<open>ch4_read\<close>

inductive ch4_read_step :: "nat \<Rightarrow> bq \<Rightarrow> bq \<Rightarrow> bool" for i :: nat where
  r_call: "bq_pc s i = Idle \<Longrightarrow> msg_ok user_buf \<Longrightarrow>
    ch4_read_step i s ((go s i R_check)\<lparr>bq_user := (bq_user s)(i := user_buf)\<rparr>)"
| r_ready: "bq_pc s i = R_check \<Longrightarrow> mq_list (bq_mem s) \<noteq> [] \<Longrightarrow> ch4_read_step i s (go s i R_lock)"
| r_block: "bq_pc s i = R_check \<Longrightarrow> mq_list (bq_mem s) = [] \<Longrightarrow> ch4_read_step i s (go s i R_sleep)"
| r_signal: "bq_pc s i = R_check \<or> bq_pc s i = R_sleep \<Longrightarrow> mq_list (bq_mem s) = [] \<Longrightarrow>
    ch4_read_step i s (read_returns s i (- ERESTARTSYS) None)"
| r_signal_ready: "bq_pc s i = R_sleep \<Longrightarrow> mq_list (bq_mem s) \<noteq> [] \<Longrightarrow>
    ch4_read_step i s (go s i R_lock)"
| r_empty: "bq_pc s i = R_lock \<Longrightarrow> mq_list (bq_mem s) = [] \<Longrightarrow>
    ch4_read_step i s (read_returns s i (- EFAULT) None)"
| r_take: "bq_pc s i = R_lock \<Longrightarrow> mq_list (bq_mem s) = n # ns \<Longrightarrow>
    load_msg (bq_mem s) n = Inr (p, m) \<Longrightarrow>
    ch4_read_step i s ((go s i (R_copy n m))\<lparr>bq_mem := (bq_mem s)\<lparr>mq_list := ns\<rparr>,
      bq_taken := bq_taken s @ [(i, m)]\<rparr>)"
| r_take_fault: "bq_pc s i = R_lock \<Longrightarrow> mq_list (bq_mem s) = n # ns \<Longrightarrow>
    load_msg (bq_mem s) n = Inl e \<Longrightarrow> ch4_read_step i s (s\<lparr>bq_fault := True\<rparr>)"
| r_finish: "bq_pc s i = R_copy n m \<Longrightarrow> free_node (bq_mem s) n = Inr mem \<Longrightarrow>
    user_buf = struct_copy (bq_user s i) m left \<Longrightarrow>
    ch4_read_step i s (read_returns (s\<lparr>bq_mem := mem, bq_user := (bq_user s)(i := user_buf)\<rparr>) i
      (if left = 0 then 0 else - EFAULT) (Some (m, left)))"
| r_finish_fault: "bq_pc s i = R_copy n m \<Longrightarrow> free_node (bq_mem s) n = Inl e \<Longrightarrow>
    ch4_read_step i s (s\<lparr>bq_fault := True\<rparr>)"

subsection \<open>ch4_write\<close>

inductive ch4_write_step :: "nat \<Rightarrow> bq \<Rightarrow> bq \<Rightarrow> bool" for i :: nat where
  w_call: "bq_pc s i = Idle \<Longrightarrow> msg_ok m \<Longrightarrow>
    ch4_write_step i s ((go s i (W_alloc m))\<lparr>bq_user := (bq_user s)(i := m)\<rparr>)"
| w_nomem: "bq_pc s i = W_alloc m \<Longrightarrow> ch4_write_step i s (go s i (Done (- ENOMEM)))"
| w_alloc: "bq_pc s i = W_alloc m \<Longrightarrow> n \<notin> dom (mq_node (bq_mem s)) \<Longrightarrow>
    ch4_write_step i s ((go s i (W_alloc2 n m))\<lparr>bq_mem := (bq_mem s)\<lparr>mq_node := (mq_node (bq_mem s))(n \<mapsto> None)\<rparr>\<rparr>)"
| w_nomem2: "bq_pc s i = W_alloc2 n m \<Longrightarrow> free_node (bq_mem s) n = Inr mem \<Longrightarrow>
    ch4_write_step i s ((go s i (Done (- ENOMEM)))\<lparr>bq_mem := mem\<rparr>)"
| w_nomem2_fault: "bq_pc s i = W_alloc2 n m \<Longrightarrow> free_node (bq_mem s) n = Inl e \<Longrightarrow>
    ch4_write_step i s (s\<lparr>bq_fault := True\<rparr>)"
| w_alloc2: "bq_pc s i = W_alloc2 n m \<Longrightarrow> p \<notin> dom (mq_msg (bq_mem s)) \<Longrightarrow> msg_ok junk \<Longrightarrow>
    ch4_write_step i s ((go s i (W_copy n m))\<lparr>bq_mem := (bq_mem s)\<lparr>mq_node := (mq_node (bq_mem s))(n \<mapsto> Some p),
      mq_msg := (mq_msg (bq_mem s))(p \<mapsto> junk)\<rparr>\<rparr>)"
| w_copy: "bq_pc s i = W_copy n m \<Longrightarrow> load_msg (bq_mem s) n = Inr (p, old) \<Longrightarrow>
    ch4_write_step i s ((go s i (W_link n m))\<lparr>bq_mem := (bq_mem s)\<lparr>mq_msg := (mq_msg (bq_mem s))(p \<mapsto> m)\<rparr>\<rparr>)"
| w_copy_fault: "bq_pc s i = W_copy n m \<Longrightarrow> load_msg (bq_mem s) n = Inl e \<Longrightarrow>
    ch4_write_step i s (s\<lparr>bq_fault := True\<rparr>)"
| w_copy_short: "bq_pc s i = W_copy n m \<Longrightarrow> free_node (bq_mem s) n = Inr mem \<Longrightarrow>
    ch4_write_step i s ((go s i (Done (- EFAULT)))\<lparr>bq_mem := mem\<rparr>)"
| w_copy_short_fault: "bq_pc s i = W_copy n m \<Longrightarrow> free_node (bq_mem s) n = Inl e \<Longrightarrow>
    ch4_write_step i s (s\<lparr>bq_fault := True\<rparr>)"
| w_link: "bq_pc s i = W_link n m \<Longrightarrow>
    ch4_write_step i s ((go s i W_wake)\<lparr>bq_mem := (bq_mem s)\<lparr>mq_list := mq_list (bq_mem s) @ [n]\<rparr>,
      bq_written := bq_written s @ [m]\<rparr>)"
| w_wake: "bq_pc s i = W_wake \<Longrightarrow>
    ch4_write_step i s (s\<lparr>bq_pc := (wake_all (bq_pc s))(i := Done 0)\<rparr>)"

subsection \<open>ch4_ioctl\<close>

definition CH4_IOCTL_READ :: "nat \<Rightarrow> 32 word" where
  "CH4_IOCTL_READ ptr_size = iowr SIMPLE_IOCTL_NUM IOCTL_NUM1 ptr_size"

definition CH4_IOCTL_WRITE :: "nat \<Rightarrow> 32 word" where
  "CH4_IOCTL_WRITE ptr_size = iowr SIMPLE_IOCTL_NUM IOCTL_NUM2 ptr_size"

text \<open>
  A thread enters the handler its command selects, runs it and hands its result back to
  the caller; any other command returns \<open>- EINVAL\<close> at once.
\<close>

inductive ch4_step :: "nat \<Rightarrow> bq \<Rightarrow> bq \<Rightarrow> bool" for ptr_size :: nat where
  ioctl_read: "bq_pc s i = Idle \<longrightarrow> cmd = CH4_IOCTL_READ ptr_size \<Longrightarrow> ch4_read_step i s t \<Longrightarrow> ch4_step ptr_size s t"
| ioctl_write: "bq_pc s i = Idle \<longrightarrow> cmd = CH4_IOCTL_WRITE ptr_size \<Longrightarrow> ch4_write_step i s t \<Longrightarrow> ch4_step ptr_size s t"
| ioctl_other: "bq_pc s i = Idle \<Longrightarrow> cmd \<noteq> CH4_IOCTL_READ ptr_size \<Longrightarrow> cmd \<noteq> CH4_IOCTL_WRITE ptr_size \<Longrightarrow>
    ch4_step ptr_size s (go s i (Done (- EINVAL)))"
| ioctl_return: "bq_pc s i = Done r \<Longrightarrow> ch4_step ptr_size s (go s i Idle)"

abbreviation ch4_reachable :: "nat \<Rightarrow> bq \<Rightarrow> bool" where
  "ch4_reachable ptr_size \<equiv> reachable bq_start (ch4_step ptr_size)"

subsection \<open>Nodes held by threads\<close>

text \<open>
  A thread between unlinking and freeing, or between allocating and linking, holds a node:
  with its message (\<open>full_of\<close>) or still without one (\<open>half_of\<close>).
\<close>

fun full_of :: "ch4_pc \<Rightarrow> addr option" where
  "full_of (R_copy n m) = Some n"
| "full_of (W_copy n m) = Some n"
| "full_of (W_link n m) = Some n"
| "full_of _ = None"

fun half_of :: "ch4_pc \<Rightarrow> addr option" where
  "half_of (W_alloc2 n m) = Some n"
| "half_of _ = None"

fun in_flight :: "ch4_pc \<Rightarrow> msg_st list" where
  "in_flight (R_copy n m) = [m]"
| "in_flight _ = []"

fun msg_of :: "ch4_pc \<Rightarrow> msg_st option" where
  "msg_of (R_copy n m) = Some m"
| "msg_of (W_alloc m) = Some m"
| "msg_of (W_alloc2 n m) = Some m"
| "msg_of (W_copy n m) = Some m"
| "msg_of (W_link n m) = Some m"
| "msg_of _ = None"

fun carried :: "ch4_pc \<Rightarrow> (addr \<times> msg_st) option" where
  "carried (W_link n m) = Some (n, m)"
| "carried _ = None"

interpretation ch4_nodes: node_holders full_of half_of carried
proof
  fix x n m
  show "carried x = Some (n, m) \<Longrightarrow> full_of x = Some n" by (cases x) auto
  show "full_of x = Some n \<Longrightarrow> half_of x = None" by (cases x) auto
qed

lemma wake_all_holds [simp]:
  "full_of (wake_all pcs i) = full_of (pcs i)" "half_of (wake_all pcs i) = half_of (pcs i)"
  "in_flight (wake_all pcs i) = in_flight (pcs i)" "carried (wake_all pcs i) = carried (pcs i)"
  "msg_of (wake_all pcs i) = msg_of (pcs i)"
  by (simp_all add: wake_all_def)

lemma held_wake_all [simp]: "held full_of (wake_all pcs) = held full_of pcs" "held half_of (wake_all pcs) = held half_of pcs"
  by (simp_all add: held_def)

lemma uniq_wake_all [simp]: "uniq full_of (wake_all pcs) = uniq full_of pcs" "uniq half_of (wake_all pcs) = uniq half_of pcs"
  by (simp_all add: uniq_def)

abbreviation bq_heap :: "mq \<Rightarrow> (nat \<Rightarrow> ch4_pc) \<Rightarrow> bool" where
  "bq_heap \<equiv> node_heap full_of half_of carried"

abbreviation bq_view :: "mq \<Rightarrow> msg_st list" where
  "bq_view \<equiv> node_view"

lemma bq_heap_wake_all: "bq_heap M pcs \<Longrightarrow> bq_heap M (wake_all pcs)"
  by (simp add: node_heap_def)

subsection \<open>The invariant of the whole system\<close>

text \<open>Somebody asleep while a message is queued has a writer about to wake everybody.\<close>

definition no_lost_wake :: "mq \<Rightarrow> (nat \<Rightarrow> ch4_pc) \<Rightarrow> bool" where
  "no_lost_wake M pcs \<longleftrightarrow>
     (mq_list M \<noteq> [] \<longrightarrow> (\<exists>i. pcs i = R_sleep) \<longrightarrow> (\<exists>j. pcs j = W_wake))"

definition taken_by :: "nat \<Rightarrow> (nat \<times> msg_st) list \<Rightarrow> msg_st list" where
  "taken_by i ts = map snd (filter (\<lambda>x. fst x = i) ts)"

text \<open>The messages a thread's finished reads unlinked, and what its reads return.\<close>

fun unlinked :: "(int \<times> msg_st \<times> (msg_st \<times> nat) option) list \<Rightarrow> msg_st list" where
  "unlinked [] = []"
| "unlinked ((r, user_buf, took) # l) = (case took of None \<Rightarrow> unlinked l | Some (m, left) \<Rightarrow> m # unlinked l)"

definition returned_ok :: "int \<times> msg_st \<times> (msg_st \<times> nat) option \<Rightarrow> bool" where
  "returned_ok x \<longleftrightarrow>
     (case x of
        (r, user_buf, None) \<Rightarrow> r = - EFAULT \<or> r = - ERESTARTSYS
      | (r, user_buf, Some (m, left)) \<Rightarrow> if left = 0 then r = 0 \<and> user_buf = m else r = - EFAULT)"

definition bq_sized :: "bq \<Rightarrow> bool" where
  "bq_sized s \<longleftrightarrow> msgs_ok (bq_mem s) \<and> (\<forall>i. msg_ok (bq_user s i)) \<and>
     (\<forall>i m. msg_of (bq_pc s i) = Some m \<longrightarrow> msg_ok m)"

definition bq_inv :: "bq \<Rightarrow> bool" where
  "bq_inv s \<longleftrightarrow> \<not> bq_fault s \<and> bq_heap (bq_mem s) (bq_pc s) \<and>
     bq_written s = map snd (bq_taken s) @ bq_view (bq_mem s) \<and>
     (\<forall>i. taken_by i (bq_taken s) = unlinked (bq_result s i) @ in_flight (bq_pc s i)) \<and>
     no_lost_wake (bq_mem s) (bq_pc s)"

lemma unlinked_snoc [simp]:
  "unlinked (l @ [(r, user_buf, took)]) = unlinked l @ (case took of None \<Rightarrow> [] | Some (m, left) \<Rightarrow> [m])"
  by (induction l rule: unlinked.induct) (auto split: option.split)

lemma taken_by_simps [simp]:
  "taken_by i [] = []"
  "taken_by i (ts @ [(j, m)]) = taken_by i ts @ (if j = i then [m] else [])"
  by (simp_all add: taken_by_def)

lemma go_simps [simp]:
  "bq_mem (go s i x) = bq_mem s" "bq_pc (go s i x) = (bq_pc s)(i := x)"
  "bq_fault (go s i x) = bq_fault s" "bq_written (go s i x) = bq_written s"
  "bq_taken (go s i x) = bq_taken s" "bq_result (go s i x) = bq_result s" "bq_user (go s i x) = bq_user s"
  by (simp_all add: go_def)

lemma read_returns_simps [simp]:
  "bq_mem (read_returns s i r took) = bq_mem s" "bq_pc (read_returns s i r took) = (bq_pc s)(i := Done r)"
  "bq_fault (read_returns s i r took) = bq_fault s" "bq_written (read_returns s i r took) = bq_written s"
  "bq_taken (read_returns s i r took) = bq_taken s" "bq_user (read_returns s i r took) = bq_user s"
  "bq_result (read_returns s i r took) = (bq_result s)(i := bq_result s i @ [(r, bq_user s i, took)])"
  by (simp_all add: read_returns_def)

text \<open>What neither the user's structures nor the list of finished reads can break.\<close>

lemma bq_inv_user [simp]: "bq_inv (s\<lparr>bq_user := u\<rparr>) = bq_inv s"
  by (simp add: bq_inv_def)

lemma bq_inv_returns: "bq_inv (go s i (Done r)) \<Longrightarrow> in_flight (bq_pc s i) = [] \<Longrightarrow> bq_inv (read_returns s i r None)"
  by (simp add: bq_inv_def)

lemma no_lost_wake_upd:
  "no_lost_wake M pcs \<Longrightarrow> mq_list M' = [] \<or> mq_list M \<noteq> [] \<and> x \<noteq> R_sleep \<and> pcs i \<noteq> W_wake \<or> x = W_wake \<Longrightarrow>
    no_lost_wake M' (pcs(i := x))"
  unfolding no_lost_wake_def by (metis fun_upd_apply)

lemma bq_inv_start: "bq_start s \<Longrightarrow> bq_inv s"
  by (auto simp: bq_start_def bq_inv_def node_heap_empty mq_empty_def heap_ok_def node_view_def no_lost_wake_def)

text \<open>Steps that change only the program counter.\<close>

lemma bq_inv_go:
  assumes "bq_inv s" and "full_of x = full_of (bq_pc s i)" and "half_of x = half_of (bq_pc s i)"
    and "in_flight x = in_flight (bq_pc s i)" and "carried x = None"
    and "x = R_sleep \<Longrightarrow> mq_list (bq_mem s) = []" and "bq_pc s i \<noteq> W_wake"
  shows "bq_inv (go s i x)"
proof -
  have "no_lost_wake (bq_mem s) ((bq_pc s)(i := x))"
    using assms(1,6,7) by (intro no_lost_wake_upd [where M = "bq_mem s"]) (auto simp: bq_inv_def)
  then show ?thesis
    using assms(1,4) ch4_nodes.go [of "bq_mem s" "bq_pc s" x i] assms(2,3,5) by (simp add: bq_inv_def)
qed

text \<open>Steps of thread \<open>i\<close> that change the heap but neither the list nor the queued messages.\<close>

lemma bq_inv_heap:
  assumes "bq_inv s" and "bq_heap M ((bq_pc s)(i := x)) \<and> bq_view M = bq_view (bq_mem s) \<and> mq_list M = mq_list (bq_mem s)"
    and "in_flight x = in_flight (bq_pc s i)" and "x \<noteq> R_sleep" and "bq_pc s i \<noteq> W_wake"
  shows "bq_inv ((go s i x)\<lparr>bq_mem := M\<rparr>)"
proof -
  have "no_lost_wake M ((bq_pc s)(i := x))"
    using assms by (intro no_lost_wake_upd [where M = "bq_mem s"]) (auto simp: bq_inv_def)
  then show ?thesis
    using assms by (simp add: bq_inv_def)
qed

lemma bq_no_fault:
  "bq_inv s \<Longrightarrow> bq_pc s i = R_copy n m \<Longrightarrow> free_node (bq_mem s) n \<noteq> Inl e"
  "bq_inv s \<Longrightarrow> bq_pc s i = W_alloc2 n m \<Longrightarrow> free_node (bq_mem s) n \<noteq> Inl e"
  "bq_inv s \<Longrightarrow> bq_pc s i = W_copy n m \<Longrightarrow> free_node (bq_mem s) n \<noteq> Inl e"
  "bq_inv s \<Longrightarrow> bq_pc s i = W_copy n m \<Longrightarrow> load_msg (bq_mem s) n \<noteq> Inl e"
  using ch4_nodes.loads [of "bq_mem s" "bq_pc s" i n e] ch4_nodes.frees_half [of "bq_mem s" "bq_pc s" i n e]
  by (auto simp: bq_inv_def)

lemma bq_inv_head: "bq_inv s \<Longrightarrow> mq_list (bq_mem s) = n # ns \<Longrightarrow>
    \<exists>p m. load_msg (bq_mem s) n = Inr (p, m) \<and> msg_at (bq_mem s) n = Some m"
  by (rule ch4_nodes.queued) (auto simp: bq_inv_def)

lemma bq_inv_read: "ch4_read_step i s t \<Longrightarrow> bq_inv s \<Longrightarrow> bq_inv t"
proof (induction rule: ch4_read_step.induct)
  case (r_take s n ns p m)
  let ?M = "(bq_mem s)\<lparr>mq_list := ns\<rparr>"
  have heap: "bq_heap ?M ((bq_pc s)(i := R_copy n m))"
    using r_take by (auto simp: bq_inv_def intro!: ch4_nodes.unlink)
  have "msg_at (bq_mem s) n = Some m" using bq_inv_head [OF r_take(4,2)] r_take(3) by auto
  then have "bq_view (bq_mem s) = m # bq_view ?M" using r_take(2) by (simp add: node_view_def)
  moreover have "no_lost_wake ?M ((bq_pc s)(i := R_copy n m))"
    using r_take by (intro no_lost_wake_upd [where M = "bq_mem s"]) (auto simp: bq_inv_def)
  ultimately show ?case
    using r_take heap by (simp add: bq_inv_def)
next
  case (r_finish s n m mem user_buf left)
  have "bq_heap mem ((bq_pc s)(i := Done r)) \<and> bq_view mem = bq_view (bq_mem s) \<and> mq_list mem = mq_list (bq_mem s)" for r
    using r_finish by (intro ch4_nodes.free [where n = n]) (auto simp: bq_inv_def)
  moreover from this have "no_lost_wake mem ((bq_pc s)(i := Done r))" for r
    using r_finish by (intro no_lost_wake_upd [where M = "bq_mem s"]) (auto simp: bq_inv_def)
  ultimately show ?case
    using r_finish by (simp add: bq_inv_def)
next
  case (r_signal s)
  then show ?case by (intro bq_inv_returns bq_inv_go) auto
next
  case (r_empty s)
  then show ?case by (intro bq_inv_returns bq_inv_go) auto
qed (auto intro: bq_inv_go dest: bq_inv_head bq_no_fault)

lemma bq_inv_write: "ch4_write_step i s t \<Longrightarrow> bq_inv s \<Longrightarrow> bq_inv t"
proof (induction rule: ch4_write_step.induct)
  case (w_alloc s m n)
  then show ?case by (intro bq_inv_heap ch4_nodes.alloc) (auto simp: bq_inv_def)
next
  case (w_nomem2 s n m mem)
  then show ?case by (intro bq_inv_heap ch4_nodes.free_half) (auto simp: bq_inv_def)
next
  case (w_alloc2 s n m p junk)
  then show ?case by (intro bq_inv_heap ch4_nodes.alloc_msg) (auto simp: bq_inv_def)
next
  case (w_copy s n m p old)
  then show ?case by (intro bq_inv_heap ch4_nodes.store) (auto simp: bq_inv_def)
next
  case (w_copy_short s n m mem)
  then show ?case by (intro bq_inv_heap ch4_nodes.free) (auto simp: bq_inv_def)
next
  case (w_link s n m)
  let ?M = "(bq_mem s)\<lparr>mq_list := mq_list (bq_mem s) @ [n]\<rparr>"
  have "no_lost_wake ?M ((bq_pc s)(i := W_wake))"
    using w_link by (intro no_lost_wake_upd [where M = "bq_mem s"]) (auto simp: bq_inv_def)
  then show ?case
    using w_link ch4_nodes.link [of "bq_mem s" "bq_pc s" i n m W_wake] by (simp add: bq_inv_def)
next
  case (w_wake s)
  have "bq_heap (bq_mem s) ((wake_all (bq_pc s))(i := Done 0))"
    using w_wake by (intro ch4_nodes.go) (auto simp: bq_inv_def wake_all_def bq_heap_wake_all)
  moreover have "no_lost_wake (bq_mem s) ((wake_all (bq_pc s))(i := Done 0))"
    by (auto simp: no_lost_wake_def wake_all_def)
  ultimately show ?case
    using w_wake by (simp add: bq_inv_def)
qed (auto intro: bq_inv_go dest: bq_no_fault)

text \<open>Sizes, and what the finished reads returned.\<close>

definition bq_told :: "bq \<Rightarrow> bool" where
  "bq_told s \<longleftrightarrow> bq_sized s \<and> (\<forall>i. \<forall>x \<in> set (bq_result s i). returned_ok x)"

lemma bq_told_simps:
  assumes "bq_told s"
  shows "msgs_ok (bq_mem s)" "msg_ok (bq_user s i)" "msg_of (bq_pc s i) = Some m \<Longrightarrow> msg_ok m"
    "x \<in> set (bq_result s i) \<Longrightarrow> returned_ok x"
  using assms by (auto simp: bq_told_def bq_sized_def)

lemma bq_toldI:
  assumes "bq_told s" and "msgs_ok (bq_mem t)" and "\<And>j. msg_ok (bq_user t j)"
    and "bq_pc t = (bq_pc s)(i := x)" and "\<And>m. msg_of x = Some m \<Longrightarrow> msg_ok m"
    and "bq_result t = bq_result s \<or> (\<exists>y. bq_result t = (bq_result s)(i := bq_result s i @ [y]) \<and> returned_ok y)"
  shows "bq_told t"
proof -
  have "msg_of (bq_pc t j) = Some m \<Longrightarrow> msg_ok m" for j m
    using bq_told_simps(3) [OF assms(1), of j m] assms(4,5) by (cases "j = i") auto
  moreover have "y \<in> set (bq_result t j) \<Longrightarrow> returned_ok y" for j y
    using bq_told_simps(4) [OF assms(1), of y j] assms(6) by (cases "j = i") auto
  ultimately show ?thesis using assms(2,3) by (simp add: bq_told_def bq_sized_def)
qed

lemma bq_told_frame [simp]:
  "bq_told (s\<lparr>bq_fault := b\<rparr>) = bq_told s" "bq_told (s\<lparr>bq_written := w\<rparr>) = bq_told s"
  "bq_told (s\<lparr>bq_taken := ts\<rparr>) = bq_told s" "bq_told (s\<lparr>bq_pc := wake_all (bq_pc s)\<rparr>) = bq_told s"
  by (simp_all add: bq_told_def bq_sized_def)

lemma bq_told_go: "bq_told s \<Longrightarrow> (\<And>m. msg_of x = Some m \<Longrightarrow> msg_ok m) \<Longrightarrow> bq_told (go s i x)"
  by (rule bq_toldI [of s _ i x]) (simp_all add: bq_told_simps)

lemma bq_told_mem: "bq_told s \<Longrightarrow> msgs_ok M \<Longrightarrow> bq_told (s\<lparr>bq_mem := M\<rparr>)"
  by (simp add: bq_told_def bq_sized_def)

lemma bq_told_user: "bq_told s \<Longrightarrow> msg_ok m \<Longrightarrow> bq_told (s\<lparr>bq_user := (bq_user s)(i := m)\<rparr>)"
  by (simp add: bq_told_def bq_sized_def)

lemma bq_told_returns: "bq_told s \<Longrightarrow> returned_ok (r, bq_user s i, took) \<Longrightarrow> bq_told (read_returns s i r took)"
  by (rule bq_toldI [of s _ i "Done r"]) (simp_all add: bq_told_simps, blast)

lemma go_user: "(go s i x)\<lparr>bq_user := u\<rparr> = go (s\<lparr>bq_user := u\<rparr>) i x"
  by (simp add: go_def)

lemma go_mem: "(go s i x)\<lparr>bq_mem := M\<rparr> = go (s\<lparr>bq_mem := M\<rparr>) i x"
  by (simp add: go_def)

lemma bq_told_read: "ch4_read_step i s t \<Longrightarrow> bq_told s \<Longrightarrow> bq_told t"
proof (induction rule: ch4_read_step.induct)
  case (r_call s user_buf)
  then show ?case unfolding go_user by (intro bq_told_go bq_told_user) simp_all
next
  case (r_take s n ns p m)
  have "msg_ok m" using msgs_ok_load [OF bq_told_simps(1) [OF r_take(4)] r_take(3)] .
  then have "bq_told ((go s i (R_copy n m))\<lparr>bq_mem := (bq_mem s)\<lparr>mq_list := ns\<rparr>\<rparr>)"
    using bq_told_simps(1) [OF r_take(4)] by (intro bq_told_mem bq_told_go r_take(4)) simp_all
  then show ?case by simp
next
  case (r_finish s n m mem user_buf left)
  note told = bq_told_simps [OF r_finish(4)]
  have m: "msg_ok m" using told(3) [of i m] r_finish(1) by simp
  then have u: "msg_ok user_buf" unfolding r_finish(3) using told(2) by simp
  have "left = 0 \<Longrightarrow> user_buf = m" using struct_copy_all [OF m told(2)] r_finish(3) by simp
  moreover have "bq_told ((s\<lparr>bq_mem := mem\<rparr>)\<lparr>bq_user := (bq_user (s\<lparr>bq_mem := mem\<rparr>))(i := user_buf)\<rparr>)"
    using msgs_ok_free [OF told(1) r_finish(2)] u by (intro bq_told_user bq_told_mem r_finish(4))
  ultimately show ?case by (intro bq_told_returns) (auto simp: returned_ok_def)
qed (auto intro!: bq_told_go bq_told_returns simp: returned_ok_def)

lemma bq_told_write: "ch4_write_step i s t \<Longrightarrow> bq_told s \<Longrightarrow> bq_told t"
proof (induction rule: ch4_write_step.induct)
  case (w_call s m)
  then show ?case unfolding go_user by (intro bq_told_go bq_told_user) simp_all
next
  case (w_wake s)
  have "bq_told (go (s\<lparr>bq_pc := wake_all (bq_pc s)\<rparr>) i (Done 0))"
    by (rule bq_told_go) (use w_wake in simp_all)
  then show ?case by (simp add: go_def)
next
  case (w_alloc2 s n m p junk)
  then have "bq_told (s\<lparr>bq_mem := (bq_mem s)\<lparr>mq_node := (mq_node (bq_mem s))(n \<mapsto> Some p), mq_msg := (mq_msg (bq_mem s))(p \<mapsto> junk)\<rparr>\<rparr>)"
    by (intro bq_told_mem msgs_ok_upd2) (auto simp: bq_told_simps)
  then show ?case unfolding go_mem using w_alloc2(1) bq_told_simps(3) [OF w_alloc2(4), of i m] by (intro bq_told_go) simp_all
next
  case (w_copy s n m p old)
  have m: "msg_ok m" using w_copy(1) bq_told_simps(3) [OF w_copy(3), of i m] by simp
  then have "bq_told (s\<lparr>bq_mem := (bq_mem s)\<lparr>mq_msg := (mq_msg (bq_mem s))(p \<mapsto> m)\<rparr>\<rparr>)"
    using w_copy by (intro bq_told_mem msgs_ok_upd) (auto simp: bq_told_simps)
  then show ?case unfolding go_mem using m by (intro bq_told_go) simp_all
next
  case (w_link s n m)
  have "bq_told (go (s\<lparr>bq_mem := (bq_mem s)\<lparr>mq_list := mq_list (bq_mem s) @ [n]\<rparr>\<rparr>) i W_wake)"
    by (intro bq_told_go bq_told_mem w_link(2)) (simp_all add: bq_told_simps [OF w_link(2)])
  then show ?case by (simp add: go_def bq_told_def bq_sized_def)
next
  case (w_nomem2 s n m mem)
  have "msgs_ok mem" using msgs_ok_free [OF bq_told_simps(1) [OF w_nomem2(3)] w_nomem2(2)] .
  then show ?case unfolding go_mem by (intro bq_told_go bq_told_mem w_nomem2(3)) simp_all
next
  case (w_copy_short s n m mem)
  have "msgs_ok mem" using msgs_ok_free [OF bq_told_simps(1) [OF w_copy_short(3)] w_copy_short(2)] .
  then show ?case unfolding go_mem by (intro bq_told_go bq_told_mem w_copy_short(3)) simp_all
next
  case (w_alloc s m n)
  have m: "msg_ok m" using w_alloc(1) bq_told_simps(3) [OF w_alloc(3), of i m] by simp
  show ?case unfolding go_mem using m by (intro bq_told_go bq_told_mem w_alloc(3)) (simp_all add: bq_told_simps [OF w_alloc(3)])
qed (auto intro!: bq_told_go)

lemma ch4_step_told: "ch4_step ptr_size s t \<Longrightarrow> bq_told s \<Longrightarrow> bq_told t"
  by (cases rule: ch4_step.cases) (auto intro: bq_told_read bq_told_write intro!: bq_told_go)

lemma bq_told_start: "bq_start s \<Longrightarrow> bq_told s"
  by (simp add: bq_start_def bq_told_def bq_sized_def)

lemma ch4_reachable_told: "ch4_reachable ptr_size s \<Longrightarrow> bq_told s"
  by (erule reachable_invariant) (rule bq_told_start ch4_step_told; assumption)+

lemma ch4_step_inv: "ch4_step ptr_size s t \<Longrightarrow> bq_inv s \<Longrightarrow> bq_inv t"
  by (cases rule: ch4_step.cases) (auto intro: bq_inv_read bq_inv_write bq_inv_go)

lemma ch4_reachable_inv: "ch4_reachable ptr_size s \<Longrightarrow> bq_inv s"
  by (erule reachable_invariant) (auto intro: bq_inv_start ch4_step_inv)

subsection \<open>Loading and unloading\<close>

definition ch4_init :: "kernel \<Rightarrow> mq \<Rightarrow> int \<times> mq \<times> kcall list" where
  "ch4_init k s =
     (let err = ret_alloc_chrdev k; t1 = [Alloc_chrdev_region err] in
      if err < 0 then (err, s, t1)
      else let t2 = t1 @ [Cdev_alloc (ret_cdev_alloc k)] in
      if \<not> ret_cdev_alloc k then (- ENOMEM, s, t2 @ [Unregister_chrdev_region])
      else let err = ret_cdev_add k; t3 = t2 @ [Cdev_init, Cdev_add err] in
      if err < 0 then (err, s, t3 @ [Kfree_cdev, Unregister_chrdev_region])
      else (0, s\<lparr>mq_list := [], mq_lock := False\<rparr>, t3))"

fun ch4_drain :: "addr list \<Rightarrow> mq \<Rightarrow> mq result" where
  "ch4_drain [] s = Inr s"
| "ch4_drain (pos # q) s =
     bindr (free_node (s\<lparr>mq_list := remove1 pos (mq_list s)\<rparr>) pos) (ch4_drain q)"

definition ch4_exit :: "bq \<Rightarrow> (bq \<times> kcall list) result" where
  "ch4_exit s =
     bindr (ch4_drain (mq_list (bq_mem s)) (bq_mem s)) (\<lambda>mem.
       Inr (s\<lparr>bq_pc := wake_all (bq_pc s), bq_mem := mem\<rparr>, [Cdev_del, Unregister_chrdev_region]))"

interpretation ch4_unload: drain_loop ch4_drain
  by unfold_locales simp_all

subsection \<open>The programs\<close>

text \<open>
  The writer: the message it passes to the driver, if it gets that far, and the exit status
  for the results \<open>dev\<close> of open and \<open>ret\<close> of ioctl; \<open>user_str\<close> is uninitialised.
\<close>

definition ch4_writer_main :: "string list \<Rightarrow> msg_st \<Rightarrow> int \<Rightarrow> int \<Rightarrow> int \<times> msg_st option" where
  "ch4_writer_main argv user_str dev ret =
     (if length argv \<noteq> 2 then (- 1, None)
      else let str1 = (c_strncpy (msg_str user_str) (argv ! 1) 127)[127 := NUL];
               user_str = \<lparr>msg_len = word_of_nat (length (cstring str1)), msg_str = str1\<rparr>
           in if dev < 0 then (- 1, None)
           else if ret < 0 then (- 1, Some user_str) else (0, Some user_str))"

text \<open>The reader: the exit status and what it prints about the message.\<close>

definition ch4_reader_main :: "int \<Rightarrow> int \<Rightarrow> msg_st \<Rightarrow> int \<times> string option" where
  "ch4_reader_main dev ret user_str =
     (if dev < 0 then (- 1, None)
      else if ret < 0 then (- 1, None)
      else (0, Some (cstring (msg_str user_str))))"

subsection \<open>A sample run\<close>

text \<open>Thread 1 waits for a message; thread 0 writes one and has not yet woken anybody.\<close>

lemma ch4_read_reach: "ch4_reachable p s \<Longrightarrow> ch4_read_step i s t \<Longrightarrow> ch4_reachable p t"
  by (rule reach_step, assumption, rule ioctl_read [where cmd = "CH4_IOCTL_READ p"]) simp_all

lemma ch4_write_reach: "ch4_reachable p s \<Longrightarrow> ch4_write_step i s t \<Longrightarrow> ch4_reachable p t"
  by (rule reach_step, assumption, rule ioctl_write [where cmd = "CH4_IOCTL_WRITE p"]) simp_all

lemma sample_blocked:
  "\<exists>s. ch4_reachable p s \<and> bq_pc s = (\<lambda>_. Idle)(1 := R_sleep, 0 := W_wake) \<and>
     mq_list (bq_mem s) = [7] \<and> bq_written s = [zero_msg] \<and> bq_taken s = [] \<and> bq_result s = (\<lambda>_. []) \<and>
     msg_len (bq_user s 1) = 9"
proof -
  let ?s0 = "\<lparr>bq_mem = mq_empty, bq_pc = \<lambda>_. Idle, bq_fault = False, bq_written = [],
    bq_taken = [], bq_user = \<lambda>_. zero_msg, bq_result = \<lambda>_. []\<rparr>"
  note rd = ch4_read_reach [where i = 1]
  note wr = ch4_write_reach [where i = 0]
  have "ch4_reachable p ?s0" by (rule reach_start) (simp add: bq_start_def)
  then have "ch4_reachable p ((go ?s0 1 R_check)\<lparr>bq_user := (bq_user ?s0)(1 := zero_msg\<lparr>msg_len := 9\<rparr>)\<rparr>)" (is "ch4_reachable p ?s1")
    by (rule rd) (rule r_call, simp_all add: msg_ok_def zero_msg_def)
  then have "ch4_reachable p (go ?s1 1 R_sleep)" (is "ch4_reachable p ?s2")
    by (rule rd) (auto intro!: r_block simp: mq_empty_def)
  then have "ch4_reachable p ((go ?s2 0 (W_alloc zero_msg))\<lparr>bq_user := (bq_user ?s2)(0 := zero_msg)\<rparr>)" (is "ch4_reachable p ?s3")
    by (rule wr) (rule w_call, simp_all)
  then have "ch4_reachable p ((go ?s3 0 (W_alloc2 7 zero_msg))\<lparr>bq_mem := (bq_mem ?s3)\<lparr>mq_node := (mq_node (bq_mem ?s3))(7 \<mapsto> None)\<rparr>\<rparr>)"
    (is "ch4_reachable p ?s4")
    by (rule wr) (rule w_alloc | simp add: mq_empty_def)+
  then have "ch4_reachable p ((go ?s4 0 (W_copy 7 zero_msg))\<lparr>bq_mem := (bq_mem ?s4)\<lparr>mq_node := (mq_node (bq_mem ?s4))(7 \<mapsto> Some 9),
      mq_msg := (mq_msg (bq_mem ?s4))(9 \<mapsto> zero_msg)\<rparr>\<rparr>)" (is "ch4_reachable p ?s5")
    by (rule wr) (rule w_alloc2 | simp add: mq_empty_def)+
  then have "ch4_reachable p ((go ?s5 0 (W_link 7 zero_msg))\<lparr>bq_mem := (bq_mem ?s5)\<lparr>mq_msg := (mq_msg (bq_mem ?s5))(9 \<mapsto> zero_msg)\<rparr>\<rparr>)"
    (is "ch4_reachable p ?s6")
    by (rule wr) (rule w_copy | simp add: mq_empty_def load_msg_def)+
  then have "ch4_reachable p ((go ?s6 0 W_wake)\<lparr>bq_mem := (bq_mem ?s6)\<lparr>mq_list := mq_list (bq_mem ?s6) @ [7]\<rparr>,
      bq_written := bq_written ?s6 @ [zero_msg]\<rparr>)" (is "ch4_reachable p ?s7")
    by (rule wr) (rule w_link | simp)+
  moreover have "bq_pc ?s7 = (\<lambda>_. Idle)(1 := R_sleep, 0 := W_wake)"
    by (simp add: fun_eq_iff)
  moreover have "mq_list (bq_mem ?s7) = [7] \<and> bq_written ?s7 = [zero_msg] \<and> bq_taken ?s7 = [] \<and>
      bq_result ?s7 = (\<lambda>_. []) \<and> msg_len (bq_user ?s7 1) = 9"
    by (simp add: mq_empty_def)
  ultimately show ?thesis by blast
qed

text \<open>Then the writer wakes the reader, which takes the message and returns with it.\<close>

lemma sample_delivered:
  "\<exists>s. ch4_reachable p s \<and> bq_pc s = (\<lambda>_. Idle)(1 := Done 0, 0 := Done 0) \<and>
     bq_taken s = [(1, zero_msg)] \<and> bq_result s = (\<lambda>_. [])(1 := [(0, zero_msg, Some (zero_msg, 0))]) \<and>
     mq_list (bq_mem s) = []"
proof -
  obtain s where s: "ch4_reachable p s" "bq_pc s = (\<lambda>_. Idle)(1 := R_sleep, 0 := W_wake)"
    "mq_list (bq_mem s) = [7]" "bq_written s = [zero_msg]" "bq_taken s = []" "bq_result s = (\<lambda>_. [])"
    using sample_blocked by blast
  obtain a where load: "load_msg (bq_mem s) 7 = Inr (a, zero_msg)"
    using bq_inv_head [OF ch4_reachable_inv [OF s(1)] s(3)] ch4_reachable_inv [OF s(1)] s(3,4,5)
    by (auto simp: bq_inv_def node_view_def)
  let ?s1 = "s\<lparr>bq_pc := (wake_all (bq_pc s))(0 := Done 0)\<rparr>"
  have "ch4_reachable p ?s1"
    by (rule ch4_write_reach [OF s(1) w_wake]) (simp add: s(2))
  then have "ch4_reachable p (go ?s1 1 R_lock)" (is "ch4_reachable p ?s2")
    by (rule ch4_read_reach) (auto intro!: r_ready simp: s(2,3) wake_all_def)
  then have r3: "ch4_reachable p ((go ?s2 1 (R_copy 7 zero_msg))\<lparr>bq_mem := (bq_mem ?s2)\<lparr>mq_list := []\<rparr>,
      bq_taken := bq_taken ?s2 @ [(1, zero_msg)]\<rparr>)" (is "ch4_reachable p ?s3")
    by (rule ch4_read_reach) (rule r_take [where p = a], simp_all add: s(3) load)
  obtain mem where f: "free_node (bq_mem ?s3) 7 = Inr mem"
    using bq_no_fault(1) [OF ch4_reachable_inv [OF r3], of 1 7 zero_msg]
    by (cases "free_node (bq_mem ?s3) 7") auto
  then have "mq_list mem = []"
    by (auto simp: free_node_def split: option.splits if_splits)
  moreover have "ch4_reachable p (read_returns (?s3\<lparr>bq_mem := mem, bq_user := (bq_user ?s3)(1 := struct_copy (bq_user ?s3 1) zero_msg 0)\<rparr>) 1
      (if (0::nat) = 0 then 0 else - EFAULT) (Some (zero_msg, 0)))"
    (is "ch4_reachable p ?s4")
    by (rule ch4_read_reach [OF r3]) (rule r_finish [where n = 7], simp_all add: f [simplified])
  moreover have "struct_copy (bq_user ?s3 1) zero_msg 0 = zero_msg"
    using bq_told_simps(2) [OF ch4_reachable_told [OF r3], of 1] by (intro struct_copy_all) simp_all
  moreover have "bq_pc ?s4 = (\<lambda>_. Idle)(1 := Done 0, 0 := Done 0)"
    by (auto simp: s(2) wake_all_def fun_eq_iff)
  moreover have "bq_taken ?s4 = [(1, zero_msg)]" "bq_result ?s4 = (\<lambda>_. [])(1 := [(0, zero_msg, Some (zero_msg, 0))])"
    using calculation(3) by (simp_all add: s(5,6))
  moreover have "mq_list (bq_mem ?s4) = []" using calculation(1) by simp
  ultimately show ?thesis by blast
qed

subsection \<open>An atomic queue\<close>

text \<open>
  The same promise as lab4/ch3 makes: what threads link, unlink and find empty is a history
  of the queue of Fifo_Spec. \<open>ch4_by\<close> tells whose step it is.
\<close>

definition ch4_by :: "nat \<Rightarrow> nat \<Rightarrow> bq \<Rightarrow> bq \<Rightarrow> bool" where
  "ch4_by ptr_size i s t \<longleftrightarrow> ch4_step ptr_size s t \<and>
     (ch4_read_step i s t \<or> ch4_write_step i s t \<or> bq_pc s i = Idle \<and> t = go s i (Done (- EINVAL)) \<or>
      (\<exists>r. bq_pc s i = Done r \<and> t = go s i Idle))"

lemma ch4_step_by: "ch4_step ptr_size s t \<Longrightarrow> \<exists>i. ch4_by ptr_size i s t"
proof -
  assume s: "ch4_step ptr_size s t"
  then have "\<exists>i. ch4_read_step i s t \<or> ch4_write_step i s t \<or> bq_pc s i = Idle \<and> t = go s i (Done (- EINVAL)) \<or>
      (\<exists>r. bq_pc s i = Done r \<and> t = go s i Idle)"
    by cases blast+
  then show ?thesis using s by (simp add: ch4_by_def)
qed

definition ch4_event :: "nat \<Rightarrow> ch4_pc \<Rightarrow> ch4_pc \<Rightarrow> msg_st fifo_event" where
  "ch4_event i x y =
     (case x of
        R_check \<Rightarrow> if y = R_sleep then Empty i else Internal
      | R_lock \<Rightarrow> (case y of R_copy n m \<Rightarrow> Deq i m | Done r \<Rightarrow> Empty i | _ \<Rightarrow> Internal)
      | W_link n m \<Rightarrow> if y = W_wake then Enq i m else Internal
      | _ \<Rightarrow> Internal)"

definition ch4_emits :: "nat \<Rightarrow> msg_st fifo_event \<Rightarrow> bq \<Rightarrow> bq \<Rightarrow> bool" where
  "ch4_emits ptr_size e s t \<longleftrightarrow> (\<exists>i. ch4_by ptr_size i s t \<and> e = ch4_event i (bq_pc s i) (bq_pc t i))"

definition bq_rel :: "bq \<Rightarrow> msg_st list \<Rightarrow> bool" where
  "bq_rel s q \<longleftrightarrow> bq_inv s \<and> q = bq_view (bq_mem s)"

text \<open>What the invariant says about the list after a step, by what was written and taken.\<close>

lemma view_after:
  assumes "bq_inv s" and "bq_inv t"
  shows "bq_written t = bq_written s \<Longrightarrow> bq_taken t = bq_taken s \<Longrightarrow> bq_view (bq_mem t) = bq_view (bq_mem s)"
    and "bq_written t = bq_written s @ [m] \<Longrightarrow> bq_taken t = bq_taken s \<Longrightarrow> bq_view (bq_mem t) = bq_view (bq_mem s) @ [m]"
    and "bq_written t = bq_written s \<Longrightarrow> bq_taken t = bq_taken s @ [(i, m)] \<Longrightarrow> bq_view (bq_mem s) = m # bq_view (bq_mem t)"
  using assms by (auto simp: bq_inv_def)

lemma bq_quiet:
  assumes "bq_rel s q" and "bq_inv t" and "bq_written t = bq_written s" and "bq_taken t = bq_taken s"
    and "e = Internal \<or> (\<exists>i. e = Empty i) \<and> mq_list (bq_mem s) = []"
  shows "\<exists>q'. fifo_next e q = Some q' \<and> bq_rel t q'"
  using assms view_after(1) [of s t] by (auto simp: bq_rel_def node_view_def)

lemma ch4_simulates:
  assumes "ch4_emits ptr_size e s t" and "bq_rel s q"
  shows "\<exists>q'. fifo_next e q = Some q' \<and> bq_rel t q'"
proof -
  obtain i where i: "ch4_by ptr_size i s t" and e: "e = ch4_event i (bq_pc s i) (bq_pc t i)"
    using assms(1) by (auto simp: ch4_emits_def)
  have inv: "bq_inv s" using assms(2) by (simp add: bq_rel_def)
  have inv': "bq_inv t" using ch4_step_inv [of ptr_size s t] i inv by (auto simp: ch4_by_def)
  note quiet = bq_quiet [OF assms(2) inv']
  consider "ch4_read_step i s t" | "ch4_write_step i s t" | "bq_pc s i = Idle" "t = go s i (Done (- EINVAL))"
    | r where "bq_pc s i = Done r" "t = go s i Idle"
    using i by (auto simp: ch4_by_def)
  then show ?thesis
  proof cases
    case 1
    then show ?thesis
    proof cases
      case (r_take n ns p m)
      have "bq_view (bq_mem s) = m # bq_view (bq_mem t)" by (rule view_after(3) [OF inv inv', of i]) (simp_all add: r_take(1))
      then show ?thesis using assms(2) inv' e r_take by (auto simp: bq_rel_def ch4_event_def)
    next
      case (r_take_fault n ns e)
      then show ?thesis using inv' by (simp add: bq_inv_def)
    next
      case (r_finish_fault n m e)
      then show ?thesis using inv' by (simp add: bq_inv_def)
    qed (rule quiet; auto simp: e ch4_event_def)+
  next
    case 2
    then show ?thesis
    proof cases
      case (w_link n m)
      have "bq_view (bq_mem t) = bq_view (bq_mem s) @ [m]" by (rule view_after(2) [OF inv inv']) (simp_all add: w_link(1))
      then show ?thesis using assms(2) inv' e w_link by (auto simp: bq_rel_def ch4_event_def)
    qed (rule quiet; auto simp: e ch4_event_def)+
  next
    case 3
    then show ?thesis using e by (intro quiet) (simp_all add: ch4_event_def)
  next
    case 4
    then show ?thesis using e by (intro quiet) (simp_all add: ch4_event_def)
  qed
qed

interpretation ch4_atomic: fifo_impl bq_start "ch4_emits ptr_size" bq_rel
proof
  fix s
  assume "bq_start s"
  then show "bq_rel s []"
    using bq_inv_start by (auto simp: bq_rel_def bq_start_def mq_empty_def node_view_def)
qed (rule ch4_simulates)

text \<open>Every reachable state has such a history, and what it enqueued is what was written.\<close>

lemma ch4_linearizable:
  assumes "ch4_reachable ptr_size s"
  shows "\<exists>es. labelled bq_start (ch4_emits ptr_size) es s \<and> fifo_history es [] = Some (bq_view (bq_mem s)) \<and>
    enqueued es = map snd (dequeued es) @ bq_view (bq_mem s)"
proof -
  have "\<exists>e. ch4_emits ptr_size e s t" if "ch4_step ptr_size s t" for s t
    using ch4_step_by [OF that] by (auto simp: ch4_emits_def)
  then obtain es where es: "labelled bq_start (ch4_emits ptr_size) es s" using reachable_labelled [OF assms] by blast
  then show ?thesis using ch4_atomic.exactly_once [OF es] by (auto simp: bq_rel_def)
qed

subsection \<open>Coming to rest\<close>

text \<open>
  How far a thread is from the end of its call, with \<open>N\<close> threads inside: a wake-up can send
  every sleeper one step back.
\<close>

fun ch4_weight :: "nat \<Rightarrow> ch4_pc \<Rightarrow> nat" where
  "ch4_weight N Idle = 0"
| "ch4_weight N (Done r) = 1"
| "ch4_weight N (R_copy n m) = 2"
| "ch4_weight N R_lock = 3"
| "ch4_weight N R_sleep = 4"
| "ch4_weight N R_check = 5"
| "ch4_weight N W_wake = N + 1"
| "ch4_weight N (W_link n m) = N + 2"
| "ch4_weight N (W_copy n m) = N + 3"
| "ch4_weight N (W_alloc2 n m) = N + 4"
| "ch4_weight N (W_alloc m) = N + 5"

definition bq_live :: "bq \<Rightarrow> bool" where
  "bq_live s \<longleftrightarrow> bq_inv s \<and> finite {i. bq_pc s i \<noteq> Idle}"

lemma wake_all_Idle [simp]: "wake_all pcs i = Idle \<longleftrightarrow> pcs i = Idle"
  by (simp add: wake_all_def)

lemma wake_all_weight: "ch4_weight N (wake_all pcs i) \<le> Suc (ch4_weight N (pcs i))"
  by (simp add: wake_all_def)

lemma ch4_by_inv: "ch4_by ptr_size i s t \<Longrightarrow> bq_inv s \<Longrightarrow> bq_inv t"
  using ch4_step_inv by (auto simp: ch4_by_def)

lemma ch4_by_pc:
  assumes "ch4_by ptr_size i s t" and "bq_inv s"
  shows "\<exists>x. bq_pc t = (bq_pc s)(i := x) \<and>
      (bq_pc s i \<noteq> Idle \<longrightarrow> ch4_weight N x < ch4_weight N (bq_pc s i)) \<or>
    bq_pc s i = W_wake \<and> bq_pc t = (wake_all (bq_pc s))(i := Done 0)"
proof -
  have "\<not> bq_fault t" using ch4_by_inv [OF assms] by (simp add: bq_inv_def)
  consider "ch4_read_step i s t" | "ch4_write_step i s t" | "bq_pc s i = Idle" "t = go s i (Done (- EINVAL))"
    | r where "bq_pc s i = Done r" "t = go s i Idle"
    using assms(1) by (auto simp: ch4_by_def)
  then show ?thesis
  proof cases
    case 1
    then show ?thesis using \<open>\<not> bq_fault t\<close> by cases auto
  next
    case 2
    then show ?thesis using \<open>\<not> bq_fault t\<close> by cases auto
  next
    case 3
    then show ?thesis by auto
  next
    case 4
    then show ?thesis by auto
  qed
qed

text \<open>A thread inside that is not asleep can move at once.\<close>

lemma ch4_awake:
  assumes "bq_inv s" and "bq_pc s i \<notin> {Idle, R_sleep}"
  shows "\<exists>t. ch4_by ptr_size i s t"
proof -
  have rd: "\<exists>t. ch4_by ptr_size i s t" if "ch4_read_step i s t" for t
    using that assms(2) ioctl_read [of s i _ ptr_size t] by (auto simp: ch4_by_def)
  have wr: "\<exists>t. ch4_by ptr_size i s t" if "ch4_write_step i s t" for t
    using that assms(2) ioctl_write [of s i _ ptr_size t] by (auto simp: ch4_by_def)
  have freed: "\<exists>mem. free_node (bq_mem s) n = Inr mem" if "bq_pc s i = R_copy n m \<or> bq_pc s i = W_alloc2 n m \<or> bq_pc s i = W_copy n m" for n m
    using that bq_no_fault(1-3) [OF assms(1), of i n m] by (cases "free_node (bq_mem s) n") auto
  show ?thesis
  proof (cases "bq_pc s i")
    case R_check
    then show ?thesis using r_ready [of s i] r_block [of s i] rd by blast
  next
    case R_lock
    show ?thesis
    proof (cases "mq_list (bq_mem s)")
      case (Cons n ns)
      then show ?thesis using bq_inv_head [OF assms(1) Cons] r_take [OF R_lock Cons] rd by blast
    qed (use r_empty [OF R_lock] rd in blast)
  next
    case (R_copy n m)
    then show ?thesis using freed [of n m] r_finish [OF R_copy] rd by blast
  next
    case (W_alloc m)
    then show ?thesis using w_nomem wr by blast
  next
    case (W_alloc2 n m)
    then show ?thesis using freed [of n m] w_nomem2 [OF W_alloc2] wr by blast
  next
    case (W_copy n m)
    then show ?thesis using freed [of n m] w_copy_short [OF W_copy] wr by blast
  next
    case (W_link n m)
    then show ?thesis using w_link wr by blast
  next
    case W_wake
    then show ?thesis using w_wake wr by blast
  next
    case (Done r)
    then show ?thesis using ioctl_return [OF Done, of ptr_size] by (auto simp: ch4_by_def)
  qed (use assms(2) in auto)
qed

lemma bq_live_step: "ch4_by ptr_size i s t \<Longrightarrow> bq_live s \<Longrightarrow> bq_live t"
  using ch4_by_pc [of ptr_size i s t 0] ch4_by_inv [of ptr_size i s t] by (auto simp: bq_live_def simp del: fun_upd_apply)

interpretation ch4_calls: settling "ch4_by ptr_size" "\<lambda>s i. bq_pc s i \<noteq> Idle" "\<lambda>s i. bq_pc s i = R_sleep"
  "\<lambda>N s i. ch4_weight N (bq_pc s i)" bq_live 5
proof
  fix s t i N
  assume a: "bq_live s" "ch4_by ptr_size i s t" "bq_pc s i \<noteq> Idle"
  show "bq_live t" by (rule bq_live_step [OF a(2,1)])
  note pc = ch4_by_pc [OF a(2), of N]
  show "bq_pc s j \<noteq> Idle" if "bq_pc t j \<noteq> Idle" for j
    using pc that a(1,3) by (cases "j = i") (auto simp: bq_live_def)
  show "ch4_weight N (bq_pc t i) < ch4_weight N (bq_pc s i) \<and>
      (\<forall>j. j \<noteq> i \<longrightarrow> ch4_weight N (bq_pc t j) \<le> ch4_weight N (bq_pc s j)) \<or>
    ch4_weight N (bq_pc t i) + N \<le> ch4_weight N (bq_pc s i) \<and>
      (\<forall>j. j \<noteq> i \<longrightarrow> ch4_weight N (bq_pc t j) \<le> Suc (ch4_weight N (bq_pc s j)))"
    using pc a(1,3) wake_all_weight [of N "bq_pc s"] by (auto simp: bq_live_def)
next
  fix s i N
  show "bq_live s \<Longrightarrow> bq_pc s i \<noteq> Idle \<Longrightarrow> bq_pc s i \<noteq> R_sleep \<Longrightarrow> \<exists>t. ch4_by ptr_size i s t"
    using ch4_awake [of s i] by (auto simp: bq_live_def)
  show "ch4_weight N (bq_pc s i) \<le> N + 5" by (cases "bq_pc s i") auto
  show "bq_live s \<Longrightarrow> finite {i. bq_pc s i \<noteq> Idle}" by (simp add: bq_live_def)
qed

lemma ch4_reachable_live: "ch4_reachable ptr_size s \<Longrightarrow> bq_live s"
proof (induction rule: reachable.induct)
  case (reach_start s)
  then show ?case using bq_inv_start by (auto simp: bq_live_def bq_start_def)
next
  case (reach_step s t)
  then show ?case using ch4_step_by bq_live_step by blast
qed

text \<open>Unloading when nobody holds a node.\<close>

lemma bq_unload_frees:
  assumes "bq_heap (bq_mem s) (bq_pc s)" and "\<forall>i. bq_pc s i \<in> {Idle} \<union> range Done"
  shows "\<exists>s' tr. ch4_exit s = Inr (s', tr) \<and> dom (mq_node (bq_mem s')) = {} \<and> dom (mq_msg (bq_mem s')) = {} \<and>
    mq_list (bq_mem s') = []"
proof -
  have "full_of (bq_pc s i) = None" "half_of (bq_pc s i) = None" for i
    using assms(2) [rule_format, of i] by auto
  then have "held full_of (bq_pc s) = {}" "held half_of (bq_pc s) = {}"
    by (auto simp: held_def)
  then have ok: "heap_ok (bq_mem s) (set (mq_list (bq_mem s))) {}" "distinct (mq_list (bq_mem s))"
    using assms(1) by (auto simp: node_heap_def)
  obtain M where "ch4_drain (mq_list (bq_mem s)) (bq_mem s) = Inr M" "heap_ok M {} {}" "mq_list M = []"
    using ch4_unload.frees_all [OF ok refl] by blast
  then show ?thesis by (simp add: ch4_exit_def heap_ok_def)
qed

subsection \<open>Properties\<close>

text \<open>
  C3. Whatever readers and writers run at the same time and however their steps and
  failures interleave, the blocking queue delivers in order and to one reader each: the
  messages linked so far are, in that order, those unlinked by readers followed by those
  still in the list; and a thread's reads have unlinked its messages in that order, one each.
  A read that unlinked a message and whose copy_to_user left out no byte returns 0 with the
  message in its caller's structure; one whose copy_to_user left out some returns
  \<open>- EFAULT\<close>, and that message is lost; one that unlinked nothing returns \<open>- EFAULT\<close> or
  \<open>- ERESTARTSYS\<close>.
\<close>

theorem ch4_fifo_exactly_once:
  assumes "ch4_reachable ptr_size s"
  shows "bq_written s = map snd (bq_taken s) @ bq_view (bq_mem s) \<and>
    (\<forall>i. map snd (filter (\<lambda>x. fst x = i) (bq_taken s)) = unlinked (bq_result s i) @ in_flight (bq_pc s i)) \<and>
    (\<forall>i r user_buf m left. (r, user_buf, Some (m, left)) \<in> set (bq_result s i) \<longrightarrow>
       (if left = 0 then r = 0 \<and> user_buf = m else r = - EFAULT)) \<and>
    (\<forall>i r user_buf. (r, user_buf, None) \<in> set (bq_result s i) \<longrightarrow> r = - EFAULT \<or> r = - ERESTARTSYS)"
proof -
  note told = bq_told_simps(4) [OF ch4_reachable_told [OF assms]]
  have "if left = 0 then r = 0 \<and> user_buf = m else r = - EFAULT"
    if "(r, user_buf, Some (m, left)) \<in> set (bq_result s i)" for i r user_buf m left
    using told [OF that] by (simp add: returned_ok_def)
  moreover have "r = - EFAULT \<or> r = - ERESTARTSYS" if "(r, user_buf, None) \<in> set (bq_result s i)" for i r user_buf
    using told [OF that] by (simp add: returned_ok_def)
  ultimately show ?thesis
    using ch4_reachable_inv [OF assms] by (fastforce simp: bq_inv_def taken_by_def)
qed

theorem ch4_fifo_exactly_once_witness:
  "\<exists>s. ch4_reachable 4 s \<and> bq_written s = [zero_msg] \<and> bq_result s 1 = [(0, zero_msg, Some (zero_msg, 0))] \<and>
     unlinked (bq_result s 1) @ in_flight (bq_pc s 1) = [zero_msg]"
proof -
  obtain s where s: "ch4_reachable 4 s" "bq_taken s = [(1, zero_msg)]" "mq_list (bq_mem s) = []"
      "bq_result s = (\<lambda>_. [])(1 := [(0, zero_msg, Some (zero_msg, 0))])"
    using sample_delivered by blast
  note p = ch4_fifo_exactly_once [OF s(1)]
  have "bq_written s = [zero_msg]" using p s(2,3) by (simp add: node_view_def)
  moreover have "unlinked (bq_result s 1) @ in_flight (bq_pc s 1) = [zero_msg]"
    using p [THEN conjunct2, THEN conjunct1, THEN spec, of 1] by (simp add: s(2))
  moreover have "bq_result s 1 = [(0, zero_msg, Some (zero_msg, 0))]" by (simp add: s(4))
  ultimately show ?thesis using s(1) by blast
qed

text \<open>
  C13. No wake-up of the blocking queue is lost: if a reader sleeps although a message is
  queued, some writer is about to wake the sleepers, and its next step makes that reader
  test the queue again.
\<close>

theorem ch4_no_lost_wakeup:
  assumes "ch4_reachable ptr_size s" and "bq_pc s i = R_sleep" and "mq_list (bq_mem s) \<noteq> []"
  shows "\<exists>j t. bq_pc s j = W_wake \<and> ch4_step ptr_size s t \<and> bq_pc t i = R_check \<and> bq_pc t j = Done 0"
proof -
  obtain j where j: "bq_pc s j = W_wake"
    using ch4_reachable_inv [OF assms(1)] assms(2,3) by (auto simp: bq_inv_def no_lost_wake_def)
  have "ch4_step ptr_size s (s\<lparr>bq_pc := (wake_all (bq_pc s))(j := Done 0)\<rparr>)"
    using j by (intro ioctl_write [where i = j]) (auto intro: w_wake)
  moreover have "i \<noteq> j" using j assms(2) by auto
  ultimately show ?thesis
    using j assms(2) by (intro exI [of _ j] exI conjI) (assumption | simp add: wake_all_def)+
qed

theorem ch4_no_lost_wakeup_witness:
  "\<exists>s j t. ch4_reachable 4 s \<and> bq_pc s 1 = R_sleep \<and> mq_list (bq_mem s) = [7] \<and>
     bq_pc s j = W_wake \<and> ch4_step 4 s t \<and> bq_pc t 1 = R_check"
proof -
  obtain s where s: "ch4_reachable 4 s" "bq_pc s = (\<lambda>_. Idle)(1 := R_sleep, 0 := W_wake)"
      "mq_list (bq_mem s) = [7]"
    using sample_blocked by blast
  have "bq_pc s 1 = R_sleep" "mq_list (bq_mem s) \<noteq> []" using s by auto
  then show ?thesis
    using ch4_no_lost_wakeup [OF s(1), of 1] s(1,3) by blast
qed

text \<open>
  C21. The blocking queue is memory safe under concurrency and leaks nothing: no reachable
  state has a fault, whoever is inside; in every one the allocated nodes are exactly the
  queued ones and those that threads inside hold; and when no thread is inside, unloading
  frees every one of them.
\<close>

theorem ch4_memory_safe:
  assumes "ch4_reachable ptr_size s"
  shows "\<not> bq_fault s \<and>
    dom (mq_node (bq_mem s)) = set (mq_list (bq_mem s)) \<union>
      {n. \<exists>i. full_of (bq_pc s i) = Some n \<or> half_of (bq_pc s i) = Some n} \<and>
    ((\<forall>i. bq_pc s i \<in> {Idle} \<union> range Done) \<longrightarrow>
      (\<exists>s' tr. ch4_exit s = Inr (s', tr) \<and> dom (mq_node (bq_mem s')) = {} \<and> dom (mq_msg (bq_mem s')) = {} \<and>
        mq_list (bq_mem s') = []))"
proof -
  have inv: "\<not> bq_fault s" "bq_heap (bq_mem s) (bq_pc s)"
    using ch4_reachable_inv [OF assms] by (auto simp: bq_inv_def)
  have "dom (mq_node (bq_mem s)) = set (mq_list (bq_mem s)) \<union> held full_of (bq_pc s) \<union> held half_of (bq_pc s)"
    using node_heap_simps(4) [OF inv(2)] by (simp add: heap_ok_def)
  then have nodes: "dom (mq_node (bq_mem s)) = set (mq_list (bq_mem s)) \<union>
      {n. \<exists>i. full_of (bq_pc s i) = Some n \<or> half_of (bq_pc s i) = Some n}"
    by (auto simp: held_def)
  show ?thesis using inv(1) nodes bq_unload_frees [OF inv(2)] by blast
qed

theorem ch4_memory_safe_witness:
  "\<exists>s s' tr. ch4_reachable 4 s \<and> bq_taken s = [(1, zero_msg)] \<and> \<not> bq_fault s \<and>
    ch4_exit s = Inr (s', tr) \<and> dom (mq_msg (bq_mem s')) = {}"
proof -
  obtain s where s: "ch4_reachable 4 s" "bq_pc s = (\<lambda>_. Idle)(1 := Done 0, 0 := Done 0)"
      "bq_taken s = [(1, zero_msg)]"
    using sample_delivered by blast
  have "bq_pc s i \<in> {Idle} \<union> range Done" for i by (auto simp: s(2))
  then show ?thesis using ch4_memory_safe [OF s(1)] s(1,3) by blast
qed

text \<open>
  C14. The blocking queue comes to rest: from any reachable state, whatever failures and
  signals occur, the \<open>n\<close> threads inside make at most \<open>n (n + 5)\<close> steps until new calls begin,
  whoever is inside and not asleep can move at once, and when all that are still inside are
  asleep, readers wait only because every message written has been taken.
\<close>

theorem ch4_comes_to_rest:
  assumes "ch4_reachable ptr_size s"
    and "((\<lambda>s t. \<exists>i. ch4_by ptr_size i s t \<and> bq_pc s i \<noteq> Idle) ^^ m) s t"
  shows "m \<le> (card {i. bq_pc s i \<noteq> Idle} + 5) * card {i. bq_pc s i \<noteq> Idle} \<and>
    (\<forall>i. bq_pc t i \<notin> {Idle, R_sleep} \<longrightarrow> (\<exists>u. ch4_by ptr_size i t u)) \<and>
    ((\<forall>i. bq_pc t i \<in> {Idle, R_sleep}) \<and> (\<exists>i. bq_pc t i = R_sleep) \<longrightarrow>
      mq_list (bq_mem t) = [] \<and> bq_written t = map snd (bq_taken t))"
proof -
  note r = ch4_calls.settles [OF assms(2) ch4_reachable_live [OF assms(1)]]
  then have inv: "bq_inv t" by (simp add: bq_live_def)
  have "mq_list (bq_mem t) = [] \<and> bq_written t = map snd (bq_taken t)"
    if "\<forall>i. bq_pc t i \<in> {Idle, R_sleep}" "bq_pc t i = R_sleep" for i
  proof -
    have "bq_pc t j \<noteq> W_wake" for j using that(1) by (metis ch4_pc.distinct insertE singletonD)
    then have "mq_list (bq_mem t) = []" using inv that(2) by (auto simp: bq_inv_def no_lost_wake_def)
    then show ?thesis using inv by (simp add: bq_inv_def node_view_def)
  qed
  then show ?thesis using r by blast
qed

theorem ch4_comes_to_rest_witness:
  "\<exists>s t u. ch4_reachable 4 s \<and> bq_pc s 1 = R_sleep \<and>
     ((\<lambda>s t. \<exists>i. ch4_by 4 i s t \<and> bq_pc s i \<noteq> Idle) ^^ 1) s t \<and> bq_pc t 1 = R_check \<and> ch4_by 4 1 t u"
proof -
  obtain s where s: "ch4_reachable 4 s" "bq_pc s = (\<lambda>_. Idle)(1 := R_sleep, 0 := W_wake)"
    using sample_blocked by blast
  let ?t = "s\<lparr>bq_pc := (wake_all (bq_pc s))(0 := Done 0)\<rparr>"
  have "ch4_write_step 0 s ?t" by (rule w_wake) (simp add: s(2))
  then have "ch4_by 4 0 s ?t" using ioctl_write [of s 0 _ 4 ?t] s(2) by (simp add: ch4_by_def)
  moreover have "bq_pc s 0 \<noteq> Idle" by (simp add: s(2))
  ultimately have run: "((\<lambda>s t. \<exists>i. ch4_by 4 i s t \<and> bq_pc s i \<noteq> Idle) ^^ 1) s ?t"
    unfolding relpowp_1 by blast
  moreover have check: "bq_pc ?t 1 = R_check" by (simp add: s(2) wake_all_def)
  moreover obtain u where "ch4_by 4 1 ?t u"
    using ch4_comes_to_rest [OF s(1) run, THEN conjunct2, THEN conjunct1, rule_format, of 1]
    unfolding check by blast
  moreover have "bq_pc s 1 = R_sleep" by (simp add: s(2))
  ultimately show ?thesis using s(1) by blast
qed

text \<open>
  Loading the blocking queue cleans up after itself: when any of its calls fails it
  returns a negative error number with everything released, and otherwise unloading
  releases exactly what loading acquired.
\<close>

lemma ch4_load_unload:
  assumes "kernel_ok k" and "ch4_init k M = (r, M', tr)"
  shows "if r \<noteq> 0 then r < 0 \<and> M' = M \<and> ledger {#} tr = Some {#}
    else mq_list M' = [] \<and> \<not> mq_lock M' \<and>
      (ch4_exit s = Inr (s', tr') \<longrightarrow> ledger {#} (tr @ tr') = Some {#})"
  using assms
  by (auto simp: ch4_init_def ch4_exit_def kernel_ok_def errno ledger_append bindr_eq_Inr Let_def
      split: if_splits)

lemma ch4_load_unload_example:
  "ledger {#} (snd (snd (ch4_init (all_ok\<lparr>ret_cdev_add := - ENOMEM\<rparr>) mq_empty))) = Some {#} \<and>
   fst (ch4_init (all_ok\<lparr>ret_cdev_add := - ENOMEM\<rparr>) mq_empty) = - ENOMEM"
proof -
  obtain r M' tr where i: "ch4_init (all_ok\<lparr>ret_cdev_add := - ENOMEM\<rparr>) mq_empty = (r, M', tr)"
    by (metis prod_cases3)
  have "kernel_ok (all_ok\<lparr>ret_cdev_add := - ENOMEM\<rparr>)" by (simp add: kernel_ok_def all_ok_def errno)
  moreover have "r = - ENOMEM" using i by (simp add: ch4_init_def all_ok_def errno)
  ultimately show ?thesis
    using ch4_load_unload [OF _ i] i by (auto simp: errno)
qed

end
