(* ===== verification/Block_Counter.thy ===== *)
theory Block_Counter
  imports Kernel Ioctl Settling Simulation
begin

text \<open>
  lab5/ex1 and lab5/ex2: the blocking counters simple_block_1 and simple_block_2 with
  their consumer and producer programs. The two ioctl handlers differ in the commands they
  know, that is in the kinds of wait and wake-up; the path through a handler is the same
  and is one step relation here, instantiated with each module's commands. The counter is
  a C long of \<open>n\<close> bytes, so sums wrap. Shown: what the counter holds, how far below zero
  concurrent consumers can take it and that they do, which sleepers a wake-up reaches,
  that none is lost, and that the threads come to rest.
\<close>

subsection \<open>Threads and state\<close>

datatype wait_mode =
    Uninterruptible \<comment> \<open>wait_event\<close>
  | Interruptible \<comment> \<open>wait_event_interruptible\<close>
  | Timeout \<comment> \<open>wait_event_interruptible_timeout\<close>
  | Exclusive \<comment> \<open>wait_event_interruptible_exclusive\<close>

datatype bc_pc =
    Outside
  | Test wait_mode \<comment> \<open>about to test \<open>my_data > 0\<close>\<close>
  | Sleep wait_mode
  | Reduce \<comment> \<open>the wait is over, about to decrement\<close>
  | Wake bool \<comment> \<open>\<open>my_data\<close> raised, about to wake one exclusive waiter (False) or all (True)\<close>
  | Leave \<comment> \<open>about to read \<open>my_data\<close> for the result\<close>
  | Result int

record bc =
  my_data :: int
  bc_pc :: "nat \<Rightarrow> bc_pc"
  bc_produced :: int \<comment> \<open>ghost: sum of the values passed to the producer commands\<close>
  bc_reduced :: nat \<comment> \<open>ghost: number of decrements\<close>
  bc_wrapped :: bool \<comment> \<open>ghost: some result did not fit a long\<close>

definition bc_start :: "bc \<Rightarrow> bool" where
  "bc_start s \<longleftrightarrow> my_data s = 0 \<and> bc_pc s = (\<lambda>_. Outside) \<and> bc_produced s = 0 \<and>
     bc_reduced s = 0 \<and> \<not> bc_wrapped s"

definition bc_goto :: "bc \<Rightarrow> nat \<Rightarrow> bc_pc \<Rightarrow> bc" where
  "bc_goto s i x = s\<lparr>bc_pc := (bc_pc s)(i := x)\<rparr>"

definition store_data :: "nat \<Rightarrow> int \<Rightarrow> bc \<Rightarrow> bc" where
  "store_data n x s =
     s\<lparr>my_data := wrap_long n x, bc_wrapped := (bc_wrapped s \<or> wrap_long n x \<noteq> x)\<rparr>"

subsection \<open>The commands\<close>

datatype bc_call =
    Consume wait_mode
  | Produce bool

definition WQ :: "nat \<Rightarrow> 32 word" where "WQ n = iowr SIMPLE_IOCTL_NUM IOCTL_NUM1 n"
definition WQ_INTERRUPTIBLE :: "nat \<Rightarrow> 32 word" where
  "WQ_INTERRUPTIBLE n = iowr SIMPLE_IOCTL_NUM IOCTL_NUM2 n"
definition WQ_INTERRUPTIBLE_TIMEOUT :: "nat \<Rightarrow> 32 word" where
  "WQ_INTERRUPTIBLE_TIMEOUT n = iowr SIMPLE_IOCTL_NUM IOCTL_NUM3 n"
definition WQ_WAKE_UP :: "nat \<Rightarrow> 32 word" where
  "WQ_WAKE_UP n = iowr SIMPLE_IOCTL_NUM IOCTL_NUM4 n"

definition block_1_call :: "nat \<Rightarrow> 32 word \<Rightarrow> bc_call option" where
  "block_1_call n cmd =
     (if cmd = WQ n then Some (Consume Uninterruptible)
      else if cmd = WQ_INTERRUPTIBLE n then Some (Consume Interruptible)
      else if cmd = WQ_INTERRUPTIBLE_TIMEOUT n then Some (Consume Timeout)
      else if cmd = WQ_WAKE_UP n then Some (Produce False)
      else None)"

text \<open>The second module gives the same numbers other meanings.\<close>

definition WQ2 :: "nat \<Rightarrow> 32 word" where "WQ2 n = iowr SIMPLE_IOCTL_NUM IOCTL_NUM1 n"
definition WQ2_EX :: "nat \<Rightarrow> 32 word" where "WQ2_EX n = iowr SIMPLE_IOCTL_NUM IOCTL_NUM2 n"
definition WQ2_WAKE_UP :: "nat \<Rightarrow> 32 word" where
  "WQ2_WAKE_UP n = iowr SIMPLE_IOCTL_NUM IOCTL_NUM3 n"
definition WQ2_WAKE_UP_ALL :: "nat \<Rightarrow> 32 word" where
  "WQ2_WAKE_UP_ALL n = iowr SIMPLE_IOCTL_NUM IOCTL_NUM4 n"

definition block_2_call :: "nat \<Rightarrow> 32 word \<Rightarrow> bc_call option" where
  "block_2_call n cmd =
     (if cmd = WQ2 n then Some (Consume Interruptible)
      else if cmd = WQ2_EX n then Some (Consume Exclusive)
      else if cmd = WQ2_WAKE_UP n then Some (Produce False)
      else if cmd = WQ2_WAKE_UP_ALL n then Some (Produce True)
      else None)"

subsection \<open>The handlers\<close>

text \<open>
  What a wake-up does to the waiters: everybody who does not wait exclusively tests the
  condition again; of the exclusive waiters all (wake_up_interruptible_all) or the one
  \<open>ex\<close> found first in the queue.
\<close>

definition woken :: "bool \<Rightarrow> nat option \<Rightarrow> (nat \<Rightarrow> bc_pc) \<Rightarrow> nat \<Rightarrow> bc_pc" where
  "woken every ex pcs j =
     (case pcs j of
        Sleep m \<Rightarrow> if m \<noteq> Exclusive \<or> every \<or> ex = Some j then Test m else Sleep m
      | x \<Rightarrow> x)"

definition first_exclusive :: "(nat \<Rightarrow> bc_pc) \<Rightarrow> nat option \<Rightarrow> bool" where
  "first_exclusive pcs ex \<longleftrightarrow>
     (case ex of Some j \<Rightarrow> pcs j = Sleep Exclusive | None \<Rightarrow> \<forall>j. pcs j \<noteq> Sleep Exclusive)"

datatype bc_event =
    Called
  | Passed
  | Blocked
  | Signalled
  | Timed_out
  | Reduced
  | Raised int
  | Woke bool
  | Returned

inductive block_step ::
  "(32 word \<Rightarrow> bc_call option) \<Rightarrow> nat \<Rightarrow> nat \<Rightarrow> bc_event \<Rightarrow> bc \<Rightarrow> bc \<Rightarrow> bool"
  for calls :: "32 word \<Rightarrow> bc_call option" and n :: nat and i :: nat where
  enter: "bc_pc s i = Outside \<Longrightarrow> calls cmd = Some (Consume m) \<Longrightarrow>
    block_step calls n i Called s (bc_goto s i (Test m))"
| unknown: "bc_pc s i = Outside \<Longrightarrow> calls cmd = None \<Longrightarrow>
    block_step calls n i Called s (bc_goto s i (Result (- EINVAL)))"
| pass: "bc_pc s i = Test m \<or> bc_pc s i = Sleep m \<and> m \<noteq> Uninterruptible \<Longrightarrow> my_data s > 0 \<Longrightarrow>
    block_step calls n i Passed s (bc_goto s i Reduce)"
| block: "bc_pc s i = Test m \<Longrightarrow> \<not> my_data s > 0 \<Longrightarrow>
    block_step calls n i Blocked s (bc_goto s i (Sleep m))"
| interrupt: "bc_pc s i = Test m \<or> bc_pc s i = Sleep m \<Longrightarrow> m \<noteq> Uninterruptible \<Longrightarrow> \<not> my_data s > 0 \<Longrightarrow>
    block_step calls n i Signalled s (bc_goto s i (Result (- ERESTARTSYS)))"
| elapse: "bc_pc s i = Sleep Timeout \<Longrightarrow> \<not> my_data s > 0 \<Longrightarrow>
    block_step calls n i Timed_out s (bc_goto s i Reduce)"
| reduce: "bc_pc s i = Reduce \<Longrightarrow>
    block_step calls n i Reduced s
      ((bc_goto (store_data n (my_data s - 1) s) i Leave)\<lparr>bc_reduced := Suc (bc_reduced s)\<rparr>)"
| raise: "bc_pc s i = Outside \<Longrightarrow> calls cmd = Some (Produce every) \<Longrightarrow> wrap_long n a = a \<Longrightarrow>
    block_step calls n i (Raised a) s
      ((bc_goto (store_data n (my_data s + a) s) i (Wake every))\<lparr>bc_produced := bc_produced s + a\<rparr>)"
| wake: "bc_pc s i = Wake every \<Longrightarrow> first_exclusive (bc_pc s) ex \<Longrightarrow>
    block_step calls n i (Woke every) s (s\<lparr>bc_pc := (woken every ex (bc_pc s))(i := Leave)\<rparr>)"
| leave: "bc_pc s i = Leave \<Longrightarrow>
    block_step calls n i Returned s (bc_goto s i (Result (my_data s)))"
| return: "bc_pc s i = Result r \<Longrightarrow> block_step calls n i Returned s (bc_goto s i Outside)"

inductive_cases block_stepE: "block_step calls n i ev s t"

abbreviation simple_block_1_ioctl :: "nat \<Rightarrow> nat \<Rightarrow> bc_event \<Rightarrow> bc \<Rightarrow> bc \<Rightarrow> bool" where
  "simple_block_1_ioctl n \<equiv> block_step (block_1_call n) n"

abbreviation simple_block_2_ioctl :: "nat \<Rightarrow> nat \<Rightarrow> bc_event \<Rightarrow> bc \<Rightarrow> bc \<Rightarrow> bool" where
  "simple_block_2_ioctl n \<equiv> block_step (block_2_call n) n"

text \<open>Any thread may move.\<close>

definition some_thread :: "(nat \<Rightarrow> bc_event \<Rightarrow> bc \<Rightarrow> bc \<Rightarrow> bool) \<Rightarrow> bc \<Rightarrow> bc \<Rightarrow> bool" where
  "some_thread h s t \<longleftrightarrow> (\<exists>i ev. h i ev s t)"

text \<open>
  A history is the list of what happened, each event with its thread. From it: what the
  producers added and how far below zero their values went, the decrements, the waits that
  timed out, and the threads that got past a wait because they found the counter positive.
\<close>

definition block_emits ::
  "(32 word \<Rightarrow> bc_call option) \<Rightarrow> nat \<Rightarrow> nat \<times> bc_event \<Rightarrow> bc \<Rightarrow> bc \<Rightarrow> bool" where
  "block_emits calls n e s t \<longleftrightarrow> block_step calls n (fst e) (snd e) s t"

fun raised :: "bc_event \<Rightarrow> int" where
  "raised (Raised a) = a"
| "raised _ = 0"

definition produced :: "(nat \<times> bc_event) list \<Rightarrow> int" where
  "produced es = (\<Sum>e\<leftarrow>es. raised (snd e))"

definition lowered :: "(nat \<times> bc_event) list \<Rightarrow> int" where
  "lowered es = (\<Sum>e\<leftarrow>es. max 0 (- raised (snd e)))"

definition reductions :: "(nat \<times> bc_event) list \<Rightarrow> nat" where
  "reductions es = length (filter (\<lambda>e. snd e = Reduced) es)"

definition timeouts :: "(nat \<times> bc_event) list \<Rightarrow> nat" where
  "timeouts es = length (filter (\<lambda>e. snd e = Timed_out) es)"

definition passers :: "(nat \<times> bc_event) list \<Rightarrow> nat set" where
  "passers es = fst ` set (filter (\<lambda>e. snd e = Passed) es)"

lemma history_simps [simp]:
  "produced [] = 0" "produced (es @ [(i, ev)]) = produced es + raised ev"
  "lowered [] = 0" "lowered (es @ [(i, ev)]) = lowered es + max 0 (- raised ev)"
  "reductions [] = 0" "reductions (es @ [(i, ev)]) = reductions es + (if ev = Reduced then 1 else 0)"
  "timeouts [] = 0" "timeouts (es @ [(i, ev)]) = timeouts es + (if ev = Timed_out then 1 else 0)"
  "passers [] = {}" "passers (es @ [(i, ev)]) = (if ev = Passed then insert i (passers es) else passers es)"
  "finite (passers es)"
  by (simp_all add: produced_def lowered_def reductions_def timeouts_def passers_def)

lemma lowered_nonneg [simp]: "0 \<le> lowered es"
  by (auto simp: lowered_def intro!: sum_list_nonneg)

subsection \<open>Loading, unloading and the programs\<close>

text \<open>The modules' open and release functions return 0 and change nothing.\<close>

definition simple_block_1_open :: int where "simple_block_1_open = 0"
definition simple_block_1_release :: int where "simple_block_1_release = 0"
definition simple_block_2_open :: int where "simple_block_2_open = 0"
definition simple_block_2_release :: int where "simple_block_2_release = 0"

definition simple_block_1_init :: "kernel \<Rightarrow> (int \<times> kcall list) result" where
  "simple_block_1_init = unchecked_cdev_init"

definition simple_block_1_exit :: "kcall list" where "simple_block_1_exit = cdev_exit"

definition simple_block_2_init :: "kernel \<Rightarrow> (int \<times> kcall list) result" where
  "simple_block_2_init = unchecked_cdev_init"

definition simple_block_2_exit :: "kcall list" where "simple_block_2_exit = cdev_exit"

text \<open>The ioctl a program makes for the number typed in, if any, once the device is open.\<close>

definition block_1_consumer :: "nat \<Rightarrow> int \<Rightarrow> int \<Rightarrow> 32 word option" where
  "block_1_consumer n cmd fd =
     (if fd < 0 then None
      else if cmd = 1 then Some (WQ n)
      else if cmd = 2 then Some (WQ_INTERRUPTIBLE n)
      else if cmd = 3 then Some (WQ_INTERRUPTIBLE_TIMEOUT n)
      else None)"

definition block_1_producer :: "nat \<Rightarrow> int \<Rightarrow> int \<Rightarrow> (32 word \<times> int) option" where
  "block_1_producer n val fd = (if fd < 0 then None else Some (WQ_WAKE_UP n, val))"

definition block_2_consumer :: "nat \<Rightarrow> int \<Rightarrow> int \<Rightarrow> 32 word option" where
  "block_2_consumer n cmd fd =
     (if fd < 0 then None
      else if cmd = 1 then Some (WQ2 n)
      else if cmd = 2 then Some (WQ2_EX n)
      else None)"

definition block_2_producer :: "nat \<Rightarrow> int \<Rightarrow> int \<Rightarrow> int \<Rightarrow> (32 word \<times> int) option" where
  "block_2_producer n cmd val fd =
     (if fd < 0 then None
      else if cmd = 1 then Some (WQ2_WAKE_UP n, val)
      else if cmd = 2 then Some (WQ2_WAKE_UP_ALL n, val)
      else None)"

subsection \<open>Invariants\<close>

lemma bc_goto_simps [simp]:
  "my_data (bc_goto s i x) = my_data s" "bc_pc (bc_goto s i x) = (bc_pc s)(i := x)"
  "bc_produced (bc_goto s i x) = bc_produced s" "bc_reduced (bc_goto s i x) = bc_reduced s"
  "bc_wrapped (bc_goto s i x) = bc_wrapped s"
  by (simp_all add: bc_goto_def)

lemma store_data_simps [simp]:
  "my_data (store_data n x s) = wrap_long n x" "bc_pc (store_data n x s) = bc_pc s"
  "bc_produced (store_data n x s) = bc_produced s" "bc_reduced (store_data n x s) = bc_reduced s"
  "bc_wrapped (store_data n x s) = (bc_wrapped s \<or> wrap_long n x \<noteq> x)"
  by (simp_all add: store_data_def)

text \<open>The ledger of the counter.\<close>

definition balanced :: "bc \<Rightarrow> bool" where
  "balanced s \<longleftrightarrow> bc_wrapped s \<or> my_data s = bc_produced s - int (bc_reduced s)"

lemma balanced_step: "block_step calls n i ev s t \<Longrightarrow> balanced s \<Longrightarrow> balanced t"
  by (cases rule: block_step.cases) (auto simp: balanced_def)

text \<open>
  A positive counter with somebody asleep who does not wait exclusively: a wake-up is due.
\<close>

definition wake_due :: "bc \<Rightarrow> bool" where
  "wake_due s \<longleftrightarrow> bc_wrapped s \<or> \<not> my_data s > 0 \<or> (\<exists>j every. bc_pc s j = Wake every) \<or>
     (\<forall>i m. bc_pc s i = Sleep m \<longrightarrow> m = Exclusive)"

lemma woken_sleepers: "woken every ex pcs j = Sleep m \<Longrightarrow> m = Exclusive"
  by (auto simp: woken_def split: bc_pc.splits if_splits)

lemma woken_Reduce [simp]: "woken every ex pcs j = Reduce \<longleftrightarrow> pcs j = Reduce"
  by (cases "pcs j") (auto simp: woken_def)

lemma wake_due_goto:
  assumes "wake_due s" and "my_data t \<le> my_data s" and "bc_wrapped s \<longrightarrow> bc_wrapped t"
    and "bc_pc t = (bc_pc s)(i := x)" and "\<forall>every. bc_pc s i \<noteq> Wake every"
    and "\<forall>m. x = Sleep m \<longrightarrow> \<not> my_data t > 0"
  shows "wake_due t"
proof -
  have "\<exists>j every. bc_pc t j = Wake every" if "bc_pc s j = Wake every" for j every
    using that assms(4,5) by (metis fun_upd_other)
  moreover have "bc_pc s j = Sleep m" if "bc_pc t j = Sleep m" "my_data t > 0" for j m
    using that assms(4,6) by (auto split: if_splits)
  ultimately show ?thesis
    using assms(1,2,3) unfolding wake_due_def by fastforce
qed

lemma wake_due_step: "block_step calls n i ev s t \<Longrightarrow> wake_due s \<Longrightarrow> wake_due t"
proof (induction rule: block_step.induct)
  case (reduce s)
  show ?case
  proof (cases "wrap_long n (my_data s - 1) = my_data s - 1")
    case True
    then show ?thesis using reduce by (intro wake_due_goto [OF reduce(2)]) auto
  qed (simp add: wake_due_def)
next
  case (wake s every ex)
  then show ?case by (auto simp: wake_due_def dest: woken_sleepers)
next
  case (raise s cmd every a)
  then show ?case by (auto simp: wake_due_def)
next
  case (enter s cmd m)
  then show ?case by (intro wake_due_goto [OF enter(3)]) auto
next
  case (unknown s cmd)
  then show ?case by (intro wake_due_goto [OF unknown(3)]) auto
next
  case (pass s m)
  then show ?case by (intro wake_due_goto [OF pass(3)]) auto
next
  case (block s m)
  then show ?case by (simp add: wake_due_def)
next
  case (interrupt s m)
  then show ?case by (simp add: wake_due_def)
next
  case (elapse s)
  then show ?case by (simp add: wake_due_def)
next
  case (leave s)
  then show ?case by (intro wake_due_goto [OF leave(2)]) auto
next
  case (return s r)
  then show ?case by (intro wake_due_goto [OF return(2)]) auto
qed

text \<open>How far the threads past their wait can still take the counter down.\<close>

definition reducing :: "bc \<Rightarrow> nat set" where
  "reducing s = {i. bc_pc s i = Reduce}"

definition timed_out :: "(nat \<times> bc_event) list \<Rightarrow> nat set" where
  "timed_out es = fst ` set (filter (\<lambda>e. snd e = Timed_out) es)"

lemma timed_out_simps [simp]:
  "timed_out [] = {}" "timed_out (es @ [(i, ev)]) = (if ev = Timed_out then insert i (timed_out es) else timed_out es)"
  by (simp_all add: timed_out_def)

lemma timed_out_card: "finite (timed_out es)" "card (timed_out es) \<le> timeouts es"
proof -
  let ?l = "filter (\<lambda>e. snd e = Timed_out) es"
  show "finite (timed_out es)" by (simp add: timed_out_def)
  have "card (fst ` set ?l) \<le> card (set ?l)" by (rule card_image_le) simp
  also have "\<dots> \<le> length ?l" by (rule card_length)
  finally show "card (timed_out es) \<le> timeouts es" by (simp only: timed_out_def timeouts_def)
qed

definition counted :: "(nat \<times> bc_event) list \<Rightarrow> bc \<Rightarrow> bool" where
  "counted es s \<longleftrightarrow> bc_produced s = produced es \<and> bc_reduced s = reductions es \<and> balanced s \<and>
     reducing s \<subseteq> passers es \<union> timed_out es \<and>
     (bc_wrapped s \<or>
       - int (card (passers es) - 1) - int (timeouts es) - lowered es \<le> my_data s - int (card (reducing s)))"

lemma reducing_card: "reducing s \<subseteq> passers es \<union> timed_out es \<Longrightarrow> card (reducing s) \<le> card (passers es) + timeouts es"
proof -
  assume "reducing s \<subseteq> passers es \<union> timed_out es"
  then have "card (reducing s) \<le> card (passers es \<union> timed_out es)" by (rule card_mono [rotated]) (simp add: timed_out_card)
  then show ?thesis using card_Un_le [of "passers es" "timed_out es"] timed_out_card(2) [of es] by linarith
qed

lemma reducing_upd:
  "bc_pc t = (bc_pc s)(i := x) \<Longrightarrow> reducing t = (if x = Reduce then insert i (reducing s) else reducing s - {i})"
  by (auto simp: reducing_def)

lemma counted_step:
  assumes "block_step calls n i ev s t" and "counted es s"
  shows "counted (es @ [(i, ev)]) t"
proof -
  have bal: "balanced t" using balanced_step [OF assms(1)] assms(2) by (simp add: counted_def)
  have sub: "reducing s \<subseteq> passers es \<union> timed_out es" and prod: "bc_produced s = produced es" "bc_reduced s = reductions es"
    and floor: "bc_wrapped s \<or> - int (card (passers es) - 1) - int (timeouts es) - lowered es \<le> my_data s - int (card (reducing s))"
    using assms(2) by (simp_all add: counted_def)
  have fin: "finite (reducing s)" using sub by (rule finite_subset) (simp add: timed_out_card)
  have quiet: "counted (es @ [(i, ev)]) t"
    if "reducing t = reducing s" "my_data t = my_data s" "bc_wrapped t = bc_wrapped s" "bc_produced t = bc_produced s"
      "bc_reduced t = bc_reduced s" "raised ev = 0" "ev \<notin> {Passed, Timed_out, Reduced}"
    using that bal sub prod floor by (simp add: counted_def)
  show ?thesis
    using assms(1)
  proof cases
    case (pass m)
    have r: "reducing t = insert i (reducing s)" using pass by (auto simp: reducing_def)
    then have "reducing t \<subseteq> passers (es @ [(i, ev)]) \<union> timed_out (es @ [(i, ev)])" using pass sub by auto
    moreover from reducing_card [OF this] have "card (reducing t) \<le> card (insert i (passers es)) + timeouts es"
      using pass by simp
    moreover have "0 < card (insert i (passers es))" by (simp add: card_gt_0_iff)
    moreover have "0 < my_data s" "my_data t = my_data s" using pass by simp_all
    ultimately have "- int (card (insert i (passers es)) - 1) - int (timeouts es) - lowered es \<le> my_data t - int (card (reducing t))"
      using lowered_nonneg [of es] by linarith
    then show ?thesis using pass bal prod \<open>reducing t \<subseteq> _\<close> by (simp add: counted_def)
  next
    case elapse
    have r: "reducing t = insert i (reducing s)" using elapse by (auto simp: reducing_def)
    moreover have "card (insert i (reducing s)) \<le> Suc (card (reducing s))" by (rule card_insert_le_m1) simp_all
    ultimately show ?thesis using elapse bal prod sub floor by (auto simp: counted_def)
  next
    case reduce
    have r: "reducing t = reducing s - {i}" and "i \<in> reducing s" using reduce by (auto simp: reducing_def)
    then have "card (reducing s) = Suc (card (reducing t))" using fin by (metis card.remove)
    moreover have "reducing t \<subseteq> passers es \<union> timed_out es" using r sub by blast
    ultimately show ?thesis using reduce bal prod floor by (auto simp: counted_def)
  next
    case (raise cmd every a)
    have "reducing t = reducing s" using raise by (auto simp: reducing_def)
    then show ?thesis using raise bal prod sub floor by (auto simp: counted_def)
  next
    case (wake every ex)
    then have "reducing t = reducing s" by (auto simp: reducing_def)
    then show ?thesis using wake by (intro quiet) simp_all
  next
    case (unknown cmd)
    then have "reducing t = reducing s" by (auto simp: reducing_def)
    then show ?thesis using unknown by (intro quiet) simp_all
  qed (rule quiet; auto simp: reducing_def split: if_splits)+
qed

lemma counted_start: "bc_start s \<Longrightarrow> counted [] s"
  by (simp add: bc_start_def counted_def balanced_def reducing_def)

lemma labelled_counted: "labelled bc_start (block_emits calls n) es s \<Longrightarrow> counted es s"
proof (induction rule: labelled.induct)
  case (lab_step es s e t)
  then show ?case using counted_step [of calls n "fst e" "snd e" s t es] by (simp add: block_emits_def)
qed (rule counted_start)

lemma wake_due_start: "bc_start s \<Longrightarrow> wake_due s"
  by (simp add: bc_start_def wake_due_def)

lemma reachable_wake_due: "reachable bc_start (some_thread (block_step calls n)) s \<Longrightarrow> wake_due s"
  by (erule reachable_invariant) (auto simp: some_thread_def intro: wake_due_start wake_due_step)

lemma exclusive_exists: "\<exists>ex. first_exclusive pcs ex"
proof (cases "\<exists>j. pcs j = Sleep Exclusive")
  case True
  then obtain j where "pcs j = Sleep Exclusive" by blast
  then have "first_exclusive pcs (Some j)" by (simp add: first_exclusive_def)
  then show ?thesis by blast
next
  case False
  then have "first_exclusive pcs None" by (simp add: first_exclusive_def)
  then show ?thesis by blast
qed

subsection \<open>Coming to rest\<close>

text \<open>How far a thread is from the end of its call, with \<open>N\<close> threads inside.\<close>

fun bc_weight :: "nat \<Rightarrow> bc_pc \<Rightarrow> nat" where
  "bc_weight N Outside = 0"
| "bc_weight N (Result r) = 1"
| "bc_weight N Leave = 2"
| "bc_weight N Reduce = 3"
| "bc_weight N (Sleep m) = 4"
| "bc_weight N (Test m) = 5"
| "bc_weight N (Wake every) = N + 2"

definition bc_live :: "bc \<Rightarrow> bool" where
  "bc_live s \<longleftrightarrow> wake_due s \<and> finite {i. bc_pc s i \<noteq> Outside}"

fun is_asleep :: "bc_pc \<Rightarrow> bool" where
  "is_asleep (Sleep m) = True"
| "is_asleep _ = False"

lemma woken_weight: "bc_weight N (woken every ex pcs j) \<le> Suc (bc_weight N (pcs j))"
  by (auto simp: woken_def split: bc_pc.splits)

lemma woken_Outside [simp]: "woken every ex pcs j = Outside \<longleftrightarrow> pcs j = Outside"
  by (cases "pcs j") (auto simp: woken_def)

lemma block_step_pc:
  assumes "block_step calls n i ev s t"
  shows "(\<exists>x. bc_pc t = (bc_pc s)(i := x) \<and> (bc_pc s i \<noteq> Outside \<longrightarrow> bc_weight N x < bc_weight N (bc_pc s i))) \<or>
    (\<exists>every ex. bc_pc s i = Wake every \<and> bc_pc t = (woken every ex (bc_pc s))(i := Leave))"
  using assms by cases auto

lemma bc_live_step: "block_step calls n i ev s t \<Longrightarrow> bc_live s \<Longrightarrow> bc_live t"
  using block_step_pc [of calls n i ev s t 0] wake_due_step [of calls n i ev s t]
  by (auto simp: bc_live_def simp del: fun_upd_apply)

lemma bc_awake:
  assumes "bc_pc s i \<noteq> Outside" and "\<not> is_asleep (bc_pc s i)"
  shows "\<exists>ev t. block_step calls n i ev s t"
proof (cases "bc_pc s i")
  case (Test m)
  then show ?thesis using pass [of s i m] block [of s i m] by blast
next
  case (Wake every)
  then show ?thesis using wake exclusive_exists by blast
qed (use assms in \<open>auto intro: reduce leave return\<close>)

interpretation block_calls: settling "\<lambda>i s t. \<exists>ev. block_step calls n i ev s t" "\<lambda>s i. bc_pc s i \<noteq> Outside"
  "\<lambda>s i. is_asleep (bc_pc s i)" "\<lambda>N s i. bc_weight N (bc_pc s i)" bc_live 5
proof
  fix s t i N
  assume a: "bc_live s" "\<exists>ev. block_step calls n i ev s t" "bc_pc s i \<noteq> Outside"
  then obtain ev where ev: "block_step calls n i ev s t" by blast
  show "bc_live t" by (rule bc_live_step [OF ev a(1)])
  note pc = block_step_pc [OF ev, of N]
  show "bc_pc s j \<noteq> Outside" if "bc_pc t j \<noteq> Outside" for j
    using pc that a(3) by (cases "j = i") auto
  show "bc_weight N (bc_pc t i) < bc_weight N (bc_pc s i) \<and>
      (\<forall>j. j \<noteq> i \<longrightarrow> bc_weight N (bc_pc t j) \<le> bc_weight N (bc_pc s j)) \<or>
    bc_weight N (bc_pc t i) + N \<le> bc_weight N (bc_pc s i) \<and>
      (\<forall>j. j \<noteq> i \<longrightarrow> bc_weight N (bc_pc t j) \<le> Suc (bc_weight N (bc_pc s j)))"
    using pc a(3) woken_weight [of N] by auto
next
  fix s i N
  show "bc_live s \<Longrightarrow> bc_pc s i \<noteq> Outside \<Longrightarrow> \<not> is_asleep (bc_pc s i) \<Longrightarrow> \<exists>t ev. block_step calls n i ev s t"
    using bc_awake [of s i] by blast
  show "bc_weight N (bc_pc s i) \<le> N + 5" by (cases "bc_pc s i") auto
  show "bc_live s \<Longrightarrow> finite {i. bc_pc s i \<noteq> Outside}" by (simp add: bc_live_def)
qed

lemma reachable_bc_live: "reachable bc_start (some_thread (block_step calls n)) s \<Longrightarrow> bc_live s"
proof (erule reachable_invariant)
  fix s
  assume "bc_start s"
  then show "bc_live s" by (simp add: bc_live_def bc_start_def wake_due_def)
qed (auto simp: some_thread_def intro: bc_live_step)

subsection \<open>Sample runs\<close>

definition bc_zero :: bc where
  "bc_zero = \<lparr>my_data = 0, bc_pc = \<lambda>_. Outside, bc_produced = 0, bc_reduced = 0, bc_wrapped = False\<rparr>"

lemma block_log:
  "labelled bc_start (block_emits calls n) es s \<Longrightarrow> block_step calls n i ev s t \<Longrightarrow> es' = es @ [(i, ev)] \<Longrightarrow>
    labelled bc_start (block_emits calls n) es' t"
  by (simp, rule lab_step) (simp_all add: block_emits_def)

lemma thread_step:
  "reachable bc_start (some_thread h) s \<Longrightarrow> h i ev s t \<Longrightarrow> reachable bc_start (some_thread h) t"
  by (rule reach_step, assumption) (auto simp: some_thread_def)

text \<open>One unit is produced, two consumers see it.\<close>

definition two_consumers_log :: "(nat \<times> bc_event) list" where
  "two_consumers_log = [(0, Raised 1), (0, Woke False), (0, Returned), (0, Returned), (0, Called), (0, Passed), (1, Called), (1, Passed), (0, Reduced), (1, Reduced)]"

lemma two_consumers:
  "\<exists>s. labelled bc_start (block_emits (block_1_call 8) 8) two_consumers_log s \<and> my_data s = - 1 \<and> \<not> bc_wrapped s"
proof -
  let ?R = "labelled bc_start (block_emits (block_1_call 8) 8)"
  have calls: "block_1_call 8 (WQ_WAKE_UP 8) = Some (Produce False)"
    "block_1_call 8 (WQ 8) = Some (Consume Uninterruptible)"
    by (simp_all add: block_1_call_def WQ_WAKE_UP_def WQ_def WQ_INTERRUPTIBLE_def
        WQ_INTERRUPTIBLE_TIMEOUT_def iowr_neq ioctl_nums)
  have "?R [] bc_zero" by (rule lab_start) (simp add: bc_start_def bc_zero_def)
  then have "?R [(0, Raised 1)]
      ((bc_goto (store_data 8 (my_data bc_zero + 1) bc_zero) 0 (Wake False))\<lparr>bc_produced := bc_produced bc_zero + 1\<rparr>)" (is "labelled _ _ _ ?s1")
    by (rule block_log) (rule raise [where calls = "block_1_call 8", OF _ calls(1)], simp_all add: bc_zero_def)
  then have "?R [(0, Raised 1), (0, Woke False)]
      (?s1\<lparr>bc_pc := (woken False None (bc_pc ?s1))(0 := Leave)\<rparr>)" (is "labelled _ _ _ ?s2")
    by (rule block_log) (rule wake, simp_all add: bc_zero_def first_exclusive_def)
  then have "?R [(0, Raised 1), (0, Woke False), (0, Returned)]
      (bc_goto ?s2 0 (Result (my_data ?s2)))" (is "labelled _ _ _ ?s3")
    by (rule block_log) (rule leave, simp_all)
  then have "?R [(0, Raised 1), (0, Woke False), (0, Returned), (0, Returned)]
      (bc_goto ?s3 0 Outside)" (is "labelled _ _ _ ?s4")
    by (rule block_log) (rule return, simp_all)
  then have "?R [(0, Raised 1), (0, Woke False), (0, Returned), (0, Returned), (0, Called)]
      (bc_goto ?s4 0 (Test Uninterruptible))" (is "labelled _ _ _ ?s5")
    by (rule block_log) (rule enter [where calls = "block_1_call 8", OF _ calls(2)], simp_all)
  then have "?R [(0, Raised 1), (0, Woke False), (0, Returned), (0, Returned), (0, Called), (0, Passed)]
      (bc_goto ?s5 0 Reduce)" (is "labelled _ _ _ ?s6")
    by (rule block_log) (rule pass, simp_all add: bc_zero_def)
  then have "?R [(0, Raised 1), (0, Woke False), (0, Returned), (0, Returned), (0, Called), (0, Passed), (1, Called)]
      (bc_goto ?s6 1 (Test Uninterruptible))" (is "labelled _ _ _ ?s7")
    by (rule block_log) (rule enter [where calls = "block_1_call 8", OF _ calls(2)], simp_all add: bc_zero_def woken_def)
  then have "?R [(0, Raised 1), (0, Woke False), (0, Returned), (0, Returned), (0, Called), (0, Passed), (1, Called), (1, Passed)]
      (bc_goto ?s7 1 Reduce)" (is "labelled _ _ _ ?s8")
    by (rule block_log) (rule pass, simp_all add: bc_zero_def)
  then have "?R [(0, Raised 1), (0, Woke False), (0, Returned), (0, Returned), (0, Called), (0, Passed), (1, Called), (1, Passed), (0, Reduced)]
      ((bc_goto (store_data 8 (my_data ?s8 - 1) ?s8) 0 Leave)\<lparr>bc_reduced := Suc (bc_reduced ?s8)\<rparr>)" (is "labelled _ _ _ ?s9")
    by (rule block_log) (rule reduce, simp_all)
  then have "?R [(0, Raised 1), (0, Woke False), (0, Returned), (0, Returned), (0, Called), (0, Passed), (1, Called), (1, Passed), (0, Reduced), (1, Reduced)]
      ((bc_goto (store_data 8 (my_data ?s9 - 1) ?s9) 1 Leave)\<lparr>bc_reduced := Suc (bc_reduced ?s9)\<rparr>)" (is "labelled _ _ _ ?s10")
    by (rule block_log) (rule reduce, simp_all)
  moreover have "my_data ?s10 = - 1 \<and> \<not> bc_wrapped ?s10"
    by (simp add: bc_zero_def)
  ultimately show ?thesis unfolding two_consumers_log_def by blast
qed

lemma two_consumers_counts:
  "produced two_consumers_log = 1" "reductions two_consumers_log = 2" "passers two_consumers_log = {0, 1}"
  "timeouts two_consumers_log = 0" "lowered two_consumers_log = 0"
  by (auto simp: two_consumers_log_def produced_def reductions_def passers_def timeouts_def lowered_def)

text \<open>Nothing is produced, a consumer with a timeout reduces the counter all the same.\<close>

lemma timed_out_consumer:
  "\<exists>s. reachable bc_start (some_thread (simple_block_1_ioctl 8)) s \<and> my_data s = - 1 \<and>
     bc_produced s = 0 \<and> \<not> bc_wrapped s"
proof -
  let ?R = "reachable bc_start (some_thread (simple_block_1_ioctl 8))"
  note step = thread_step [where h = "simple_block_1_ioctl 8" and i = 0]
  have calls: "block_1_call 8 (WQ_INTERRUPTIBLE_TIMEOUT 8) = Some (Consume Timeout)"
    by (simp add: block_1_call_def WQ_def WQ_INTERRUPTIBLE_def
        WQ_INTERRUPTIBLE_TIMEOUT_def iowr_neq ioctl_nums)
  have "?R bc_zero" by (rule reach_start) (simp add: bc_start_def bc_zero_def)
  then have "?R (bc_goto bc_zero 0 (Test Timeout))" (is "reachable _ _ ?s1")
    by (rule step) (rule enter [where calls = "block_1_call 8", OF _ calls], simp_all add: bc_zero_def)
  then have "?R (bc_goto ?s1 0 (Sleep Timeout))" (is "reachable _ _ ?s2")
    by (rule step) (rule block, simp_all add: bc_zero_def)
  then have "?R (bc_goto ?s2 0 Reduce)" (is "reachable _ _ ?s3")
    by (rule step) (rule elapse, simp_all add: bc_zero_def)
  then have "?R ((bc_goto (store_data 8 (my_data ?s3 - 1) ?s3) 0 Leave)\<lparr>bc_reduced := Suc (bc_reduced ?s3)\<rparr>)"
    (is "reachable _ _ ?s4")
    by (rule step) (rule reduce, simp_all)
  moreover have "my_data ?s4 = - 1 \<and> bc_produced ?s4 = 0 \<and> \<not> bc_wrapped ?s4"
    by (simp add: bc_zero_def)
  ultimately show ?thesis by blast
qed

text \<open>A consumer sleeps, a producer has raised the counter and not yet woken anybody.\<close>

lemma sleeper_at_one:
  "\<exists>s. reachable bc_start (some_thread (simple_block_1_ioctl 8)) s \<and> \<not> bc_wrapped s \<and> my_data s = 1 \<and>
     bc_pc s 1 = Sleep Interruptible"
proof -
  let ?R = "reachable bc_start (some_thread (simple_block_1_ioctl 8))"
  note step = thread_step [where h = "simple_block_1_ioctl 8"]
  have calls: "block_1_call 8 (WQ_INTERRUPTIBLE 8) = Some (Consume Interruptible)"
    "block_1_call 8 (WQ_WAKE_UP 8) = Some (Produce False)"
    by (simp_all add: block_1_call_def WQ_def WQ_INTERRUPTIBLE_def WQ_WAKE_UP_def
        WQ_INTERRUPTIBLE_TIMEOUT_def iowr_neq ioctl_nums)
  have "?R bc_zero" by (rule reach_start) (simp add: bc_start_def bc_zero_def)
  then have "?R (bc_goto bc_zero 1 (Test Interruptible))" (is "reachable _ _ ?s1")
    by (rule step) (rule enter [where calls = "block_1_call 8", OF _ calls(1)], simp_all add: bc_zero_def)
  then have "?R (bc_goto ?s1 1 (Sleep Interruptible))" (is "reachable _ _ ?s2")
    by (rule step) (rule block, simp_all add: bc_zero_def)
  then have r: "?R ((bc_goto (store_data 8 (my_data ?s2 + 1) ?s2) 0 (Wake False))\<lparr>bc_produced := bc_produced ?s2 + 1\<rparr>)"
    (is "reachable _ _ ?s3")
    by (rule step) (rule raise [where calls = "block_1_call 8", OF _ calls(2)], simp_all add: bc_zero_def)
  show ?thesis
    by (intro exI [of _ ?s3] conjI) (use r in \<open>simp_all add: bc_zero_def\<close>)
qed

subsection \<open>Properties\<close>

text \<open>
  C22. While no sum overflows a long, the counter of both blocking-counter modules is, in
  every run, exactly what the producers passed less the number of decrements, and it is
  never below \<open>- (k - 1) - t - l\<close>, where \<open>k\<close> threads got past a wait because they found it
  positive, \<open>t\<close> waits timed out and \<open>l\<close> is what producers took away with negative values. So
  with one such thread, no timeout and no negative value it never goes below zero, however
  many producers there are.
\<close>

theorem block_counter_bounded:
  assumes "labelled bc_start (block_emits calls n) es s" and "\<not> bc_wrapped s"
  shows "my_data s = produced es - int (reductions es) \<and>
    - int (card (passers es) - 1) - int (timeouts es) - lowered es \<le> my_data s"
  using labelled_counted [OF assms(1)] assms(2) by (auto simp: counted_def balanced_def)

theorem block_counter_bounded_witness:
  "\<exists>s. labelled bc_start (block_emits (block_1_call 8) 8) two_consumers_log s \<and>
     my_data s = produced two_consumers_log - int (reductions two_consumers_log) \<and> my_data s = - 1 \<and>
     - int (card (passers two_consumers_log) - 1) = (- 1 :: int) \<and> - 1 \<le> my_data s"
proof -
  obtain s where s: "labelled bc_start (block_emits (block_1_call 8) 8) two_consumers_log s"
      "my_data s = - 1" "\<not> bc_wrapped s"
    using two_consumers by blast
  show ?thesis using block_counter_bounded [OF s(1,3)] s by (auto simp: two_consumers_counts)
qed

text \<open>
  The test and the decrement of the blocking counter are not one step, so it goes
  negative: two consumers can both take the one unit there is, and a consumer whose wait
  times out decrements a counter nobody ever raised.
\<close>

lemma block_counter_negative:
  "(\<exists>es s. labelled bc_start (block_emits (block_1_call 8) 8) es s \<and> my_data s = - 1 \<and>
      produced es = 1 \<and> reductions es = 2 \<and> timeouts es = 0) \<and>
   (\<exists>s. reachable bc_start (some_thread (simple_block_1_ioctl 8)) s \<and> my_data s = - 1 \<and>
      bc_produced s = 0)"
  using two_consumers two_consumers_counts timed_out_consumer by blast

text \<open>
  No wake-up of a blocking counter is lost to a process that does not wait
  exclusively: if one sleeps while the counter is positive, some producer is about to wake
  the queue, and its next step makes that process test the counter again.
\<close>

lemma block_counter_wakes:
  assumes "reachable bc_start (some_thread (block_step calls n)) s" and "\<not> bc_wrapped s"
    and "0 < my_data s" and "bc_pc s i = Sleep m" and "m \<noteq> Exclusive"
  shows "\<exists>j every t. bc_pc s j = Wake every \<and> block_step calls n j (Woke every) s t \<and> bc_pc t i = Test m"
proof -
  obtain j every where j: "bc_pc s j = Wake every"
    using reachable_wake_due [OF assms(1)] assms(2-5) by (auto simp: wake_due_def)
  obtain ex where ex: "first_exclusive (bc_pc s) ex" using exclusive_exists by blast
  have "block_step calls n j (Woke every) s (s\<lparr>bc_pc := (woken every ex (bc_pc s))(j := Leave)\<rparr>)"
    using j ex by (rule wake)
  moreover have "i \<noteq> j" using j assms(4) by auto
  ultimately show ?thesis
    using j assms(4,5) by (intro exI conjI) (assumption | simp add: woken_def)+
qed

text \<open>
  What a producer's wake-up reaches: everybody asleep who does not wait exclusively,
  and of the exclusive waiters all of them for the wake-all command but exactly one, if
  there is one, for the plain command.
\<close>

lemma wake_up_reaches:
  assumes "block_step calls n i (Woke every) s t"
  shows "(\<forall>j m. bc_pc s j = Sleep m \<and> m \<noteq> Exclusive \<longrightarrow> bc_pc t j = Test m) \<and>
    (if every then \<forall>j m. bc_pc s j = Sleep m \<longrightarrow> bc_pc t j = Test m
     else card {j. bc_pc s j = Sleep Exclusive \<and> bc_pc t j = Test Exclusive} =
       (if \<exists>j. bc_pc s j = Sleep Exclusive then 1 else 0))"
proof -
  obtain ex where w: "bc_pc s i = Wake every" "first_exclusive (bc_pc s) ex"
      "t = s\<lparr>bc_pc := (woken every ex (bc_pc s))(i := Leave)\<rparr>"
    using assms by (auto elim: block_stepE)
  have asleep: "bc_pc t j = (if m \<noteq> Exclusive \<or> every \<or> ex = Some j then Test m else Sleep m)"
    if "bc_pc s j = Sleep m" for j m
    using that w(1,3) by (auto simp: woken_def)
  have "card {j. bc_pc s j = Sleep Exclusive \<and> bc_pc t j = Test Exclusive} =
      (if \<exists>j. bc_pc s j = Sleep Exclusive then 1 else 0)" if "\<not> every"
  proof -
    have "{j. bc_pc s j = Sleep Exclusive \<and> bc_pc t j = Test Exclusive} = set_option ex"
      using that asleep w(2) by (auto simp: first_exclusive_def split: option.splits if_splits)
    then show ?thesis
      using w(2) by (auto simp: first_exclusive_def split: option.splits)
  qed
  then show ?thesis using asleep by auto
qed

lemma wake_up_reaches_example:
  "\<exists>s t. bc_pc s = (\<lambda>_. Outside)(0 := Wake False, 1 := Sleep Exclusive, 2 := Sleep Exclusive, 3 := Sleep Interruptible) \<and>
     block_step (block_2_call 8) 8 0 (Woke False) s t \<and> bc_pc t 3 = Test Interruptible \<and>
     card {j. bc_pc s j = Sleep Exclusive \<and> bc_pc t j = Test Exclusive} = 1"
proof -
  let ?pcs = "(\<lambda>_. Outside)(0 := Wake False, 1 := Sleep Exclusive, 2 := Sleep Exclusive, 3 := Sleep Interruptible)"
  obtain s :: bc where s: "bc_pc s = ?pcs"
    by (rule that [of "bc_zero\<lparr>bc_pc := ?pcs\<rparr>"]) simp
  obtain t where w: "block_step (block_2_call 8) 8 0 (Woke False) s t"
    by (rule that, rule wake [where ex = "Some 1"]) (simp_all add: s first_exclusive_def)
  have "bc_pc s 1 = Sleep Exclusive" "bc_pc s 3 = Sleep Interruptible" by (simp_all add: s)
  then show ?thesis
    using wake_up_reaches [OF w] s w by (intro exI [of _ s] exI [of _ t]) auto
qed

text \<open>
  C26. The blocking counters come to rest: from any reachable state, whatever signals and
  timeouts occur, the \<open>k\<close> threads inside make at most \<open>k (k + 5)\<close> steps until new calls
  begin, and whoever is inside and not asleep can move at once. When all that are still
  inside are asleep and no sum has overflowed, the counter is not positive, unless every
  one of them waits exclusively.
\<close>

theorem block_counter_comes_to_rest:
  assumes "reachable bc_start (some_thread (block_step calls n)) s"
    and "((\<lambda>s t. \<exists>i. (\<exists>ev. block_step calls n i ev s t) \<and> bc_pc s i \<noteq> Outside) ^^ m) s t"
  shows "m \<le> (card {i. bc_pc s i \<noteq> Outside} + 5) * card {i. bc_pc s i \<noteq> Outside} \<and>
    (\<forall>i. bc_pc t i \<noteq> Outside \<and> \<not> is_asleep (bc_pc t i) \<longrightarrow> (\<exists>u ev. block_step calls n i ev t u)) \<and>
    ((\<forall>i. bc_pc t i = Outside \<or> is_asleep (bc_pc t i)) \<and> \<not> bc_wrapped t \<longrightarrow>
      my_data t \<le> 0 \<or> (\<forall>i m. bc_pc t i = Sleep m \<longrightarrow> m = Exclusive))"
proof -
  note r = block_calls.settles [OF assms(2) reachable_bc_live [OF assms(1)]]
  have "my_data t \<le> 0 \<or> (\<forall>i m. bc_pc t i = Sleep m \<longrightarrow> m = Exclusive)"
    if "\<forall>i. bc_pc t i = Outside \<or> is_asleep (bc_pc t i)" "\<not> bc_wrapped t"
  proof -
    have "bc_pc t j \<noteq> Wake every" for j every using that(1) [rule_format, of j] by auto
    then show ?thesis using r that(2) by (auto simp: bc_live_def wake_due_def)
  qed
  then show ?thesis using r by blast
qed

theorem block_counter_comes_to_rest_witness:
  "\<exists>s t u ev. reachable bc_start (some_thread (simple_block_1_ioctl 8)) s \<and> bc_pc s 1 = Sleep Interruptible \<and>
     my_data s = 1 \<and>
     ((\<lambda>s t. \<exists>i. (\<exists>ev. simple_block_1_ioctl 8 i ev s t) \<and> bc_pc s i \<noteq> Outside) ^^ 1) s t \<and>
     bc_pc t 1 = Test Interruptible \<and> simple_block_1_ioctl 8 1 ev t u"
proof -
  obtain s where s: "reachable bc_start (some_thread (simple_block_1_ioctl 8)) s" "\<not> bc_wrapped s" "my_data s = 1"
      "bc_pc s 1 = Sleep Interruptible"
    using sleeper_at_one by blast
  obtain j every t where t: "bc_pc s j = Wake every" "simple_block_1_ioctl 8 j (Woke every) s t"
      "bc_pc t 1 = Test Interruptible"
    using block_counter_wakes [OF s(1,2) _ s(4)] s(3) by auto
  then have run: "((\<lambda>s t. \<exists>i. (\<exists>ev. simple_block_1_ioctl 8 i ev s t) \<and> bc_pc s i \<noteq> Outside) ^^ 1) s t"
    unfolding relpowp_1 by (metis bc_pc.distinct(7))
  obtain u ev where "simple_block_1_ioctl 8 1 ev t u"
    using block_counter_comes_to_rest [OF s(1) run, THEN conjunct2, THEN conjunct1, rule_format, of 1]
    unfolding t(3) by auto
  then show ?thesis using s(1,3,4) t(3) run by blast
qed

end
