(* ===== verification/Value_Cell.thy ===== *)
theory Value_Cell
  imports Kernel Ioctl
begin

text \<open>
  What lab9/ex1 (simple_rwlock) and lab9/ex2 (simple_rcu) share: a pointer \<open>my_data\<close> to an
  allocated unsigned long, replaced by writers and read twice, with a delay in between, by
  readers. Allocation is explicit and every access is checked. Also here: loading and
  unloading, which differ only in the lock, and the test programs.
\<close>

type_synonym cell_addr = nat

record cell =
  cell_heap :: "cell_addr \<rightharpoonup> nat"
  my_ptr :: "cell_addr option"
  cell_fault :: "fault option"
  cell_seen :: "(nat \<times> nat) list" \<comment> \<open>ghost: the two values each reader printed\<close>

text \<open>Loading: \<open>a\<close> is what kmalloc returns.\<close>

definition cell_init :: "cell_addr option \<Rightarrow> cell result" where
  "cell_init a =
     (case a of
        None \<Rightarrow> Inl Null_deref
      | Some p \<Rightarrow> Inr \<lparr>cell_heap = [p \<mapsto> 0], my_ptr = Some p, cell_fault = None, cell_seen = []\<rparr>)"

text \<open>\<open>kfree\<close> of the cell at \<open>p\<close>; freeing what is not allocated is a double free.\<close>

definition cell_free :: "cell_addr \<Rightarrow> cell \<Rightarrow> cell result" where
  "cell_free p s =
     (if p \<in> dom (cell_heap s) then Inr (s\<lparr>cell_heap := (cell_heap s)(p := None)\<rparr>) else Inl Double_free)"

definition cell_load :: "cell_addr \<Rightarrow> cell \<Rightarrow> nat result" where
  "cell_load p s = (case cell_heap s p of None \<Rightarrow> Inl Use_after_free | Some v \<Rightarrow> Inr v)"

lemma cell_load_iff [simp]:
  "cell_load p c = Inr v \<longleftrightarrow> cell_heap c p = Some v" "cell_load p c = Inl e \<longleftrightarrow> p \<notin> dom (cell_heap c) \<and> e = Use_after_free"
  by (auto simp: cell_load_def split: option.splits)

definition cell_exit :: "cell \<Rightarrow> cell result" where
  "cell_exit s =
     (case my_ptr s of
        None \<Rightarrow> Inr s
      | Some p \<Rightarrow> bindr (cell_free p s) (\<lambda>s1. Inr (s1\<lparr>my_ptr := None\<rparr>)))"

definition CELL_IOCTL_READ :: "nat \<Rightarrow> 32 word" where
  "CELL_IOCTL_READ n = iowr SIMPLE_IOCTL_NUM IOCTL_NUM1 n"

definition CELL_IOCTL_WRITE :: "nat \<Rightarrow> 32 word" where
  "CELL_IOCTL_WRITE n = iowr SIMPLE_IOCTL_NUM IOCTL_NUM2 n"

subsection \<open>The test program\<close>

text \<open>
  The program's ioctl calls and its exit status: \<open>op\<close> and \<open>cnt\<close> are its two arguments as
  atoi reads them, \<open>dev\<close> what open returns. The loop counts from 1.
\<close>

datatype cell_call = Do_read | Do_write int

fun cell_app_loop :: "int \<Rightarrow> int \<Rightarrow> nat \<Rightarrow> int \<times> cell_call list" where
  "cell_app_loop op i 0 = (0, [])"
| "cell_app_loop op i (Suc k) =
     (if op = 1 then (case cell_app_loop op (i + 1) k of (r, cs) \<Rightarrow> (r, Do_read # cs))
      else if op = 2 then (case cell_app_loop op (i + 1) k of (r, cs) \<Rightarrow> (r, Do_write i # cs))
      else (- 1, []))"

definition cell_app_main :: "nat \<Rightarrow> int \<Rightarrow> int \<Rightarrow> int \<Rightarrow> int \<times> cell_call list" where
  "cell_app_main argc op cnt dev =
     (if argc \<noteq> 3 then (- 1, [])
      else if dev = - 1 then (- 1, [])
      else cell_app_loop op 1 (nat cnt))"

end
