(* ===== verification/Rcu.thy ===== *)
theory Rcu
  imports Value_Cell Draining Register
begin

text \<open>
  lab9/ex2: simple_rcu.c. Readers and writers are threads of a step relation, one step per
  access to shared data. \<open>synchronize_rcu\<close> is its documented behaviour: it returns only
  after every read-side section that was open when it was called has ended. Shown: with
  writers one at a time no reader sees freed or changing data, nothing leaks, every call
  returns and a run is a run of an atomic register; with two writers at once, which nothing
  in the module prevents, the old value is freed twice.
\<close>

datatype rcu_pc =
    Out
  | R_begin \<comment> \<open>after rcu_read_lock\<close>
  | R_first cell_addr \<comment> \<open>pointer read, about to print \<open>*old\<close>\<close>
  | R_second cell_addr nat \<comment> \<open>after the delay, about to print \<open>*old\<close> again\<close>
  | R_end \<comment> \<open>about to call rcu_read_unlock\<close>
  | W_alloc nat
  | W_old cell_addr \<comment> \<open>new cell filled, about to read \<open>my_data\<close>\<close>
  | W_assign cell_addr "cell_addr option"
  | W_sync "cell_addr option"
  | W_wait "cell_addr option" "nat set" \<comment> \<open>in synchronize_rcu, waiting for these readers\<close>
  | W_free "cell_addr option"
  | Done int

record rcu = cell +
  rcu_pc :: "nat \<Rightarrow> rcu_pc"

definition rcu_goto :: "rcu \<Rightarrow> nat \<Rightarrow> rcu_pc \<Rightarrow> rcu" where
  "rcu_goto s i x = s\<lparr>rcu_pc := (rcu_pc s)(i := x)\<rparr>"

text \<open>Loading (\<open>a\<close> is what kmalloc returns), unloading and the program.\<close>

definition simple_rcu_init :: "kernel \<Rightarrow> cell_addr option \<Rightarrow> (int \<times> cell \<times> kcall list) result" where
  "simple_rcu_init k a =
     bindr (cell_init a) (\<lambda>s. bindr (unchecked_cdev_init k) (\<lambda>(r, tr). Inr (r, s, tr)))"

definition simple_rcu_exit :: "cell \<Rightarrow> (cell \<times> kcall list) result" where
  "simple_rcu_exit s = bindr (cell_exit s) (\<lambda>s1. Inr (s1, cdev_exit))"

definition simple_rcu_open :: int where "simple_rcu_open = 0"
definition simple_rcu_release :: int where "simple_rcu_release = 0"

definition simple_rcu_app_main :: "nat \<Rightarrow> int \<Rightarrow> int \<Rightarrow> int \<Rightarrow> int \<times> cell_call list" where
  "simple_rcu_app_main = cell_app_main"

lemma simple_rcu_init_Inr:
  "(\<exists>k a r tr. simple_rcu_init k a = Inr (r, s, tr)) \<longleftrightarrow> (\<exists>p. cell_init (Some p) = Inr s)"
proof -
  have "\<exists>k. ret_cdev_alloc k" by (rule exI [of _ "k\<lparr>ret_cdev_alloc := True\<rparr>" for k]) simp
  then show ?thesis
    by (auto simp: simple_rcu_init_def unchecked_cdev_init_def bindr_eq_Inr cell_init_def split: option.splits)
qed

definition rcu_start :: "rcu \<Rightarrow> bool" where
  "rcu_start s \<longleftrightarrow> (\<exists>k a r tr. simple_rcu_init k a = Inr (r, cell.truncate s, tr)) \<and> rcu_pc s = (\<lambda>_. Out)"

fun in_section :: "rcu_pc \<Rightarrow> bool" where
  "in_section R_begin = True"
| "in_section (R_first p) = True"
| "in_section (R_second p v) = True"
| "in_section R_end = True"
| "in_section _ = False"

fun writing :: "rcu_pc \<Rightarrow> bool" where
  "writing (W_alloc v) = True"
| "writing (W_old p) = True"
| "writing (W_assign p old) = True"
| "writing (W_sync old) = True"
| "writing (W_wait old P) = True"
| "writing (W_free old) = True"
| "writing _ = False"

text \<open>The end of a read-side section is seen by every synchronize_rcu waiting for it.\<close>

fun section_over :: "nat \<Rightarrow> rcu_pc \<Rightarrow> rcu_pc" where
  "section_over i (W_wait old P) = W_wait old (P - {i})"
| "section_over i x = x"

text \<open>
  The ioctl handler of thread \<open>i\<close>. With \<open>excl\<close> the callers admit one writer at a time;
  the module itself does not. With \<open>oom\<close> kmalloc may return null.
\<close>

inductive simple_rcu_ioctl :: "bool \<Rightarrow> bool \<Rightarrow> nat \<Rightarrow> nat \<Rightarrow> rcu \<Rightarrow> rcu \<Rightarrow> bool"
  for excl :: bool and oom :: bool and n :: nat and i :: nat where
  unknown: "rcu_pc s i = Out \<Longrightarrow> cmd \<noteq> CELL_IOCTL_READ n \<Longrightarrow> cmd \<noteq> CELL_IOCTL_WRITE n \<Longrightarrow>
    simple_rcu_ioctl excl oom n i s (rcu_goto s i (Done (- 1)))"
| read_lock: "rcu_pc s i = Out \<Longrightarrow> cmd = CELL_IOCTL_READ n \<Longrightarrow>
    simple_rcu_ioctl excl oom n i s (rcu_goto s i R_begin)"
| dereference: "rcu_pc s i = R_begin \<Longrightarrow> my_ptr s = Some p \<Longrightarrow>
    simple_rcu_ioctl excl oom n i s (rcu_goto s i (R_first p))"
| null: "rcu_pc s i = R_begin \<Longrightarrow> my_ptr s = None \<Longrightarrow>
    simple_rcu_ioctl excl oom n i s (rcu_goto s i R_end)"
| first: "rcu_pc s i = R_first p \<Longrightarrow> cell_load p (cell.truncate s) = Inr v \<Longrightarrow>
    simple_rcu_ioctl excl oom n i s (rcu_goto s i (R_second p v))"
| first_fault: "rcu_pc s i = R_first p \<Longrightarrow> cell_load p (cell.truncate s) = Inl e \<Longrightarrow>
    simple_rcu_ioctl excl oom n i s (s\<lparr>cell_fault := Some e\<rparr>)"
| second: "rcu_pc s i = R_second p v \<Longrightarrow> cell_load p (cell.truncate s) = Inr v' \<Longrightarrow>
    simple_rcu_ioctl excl oom n i s ((rcu_goto s i R_end)\<lparr>cell_seen := cell_seen s @ [(v, v')]\<rparr>)"
| second_fault: "rcu_pc s i = R_second p v \<Longrightarrow> cell_load p (cell.truncate s) = Inl e \<Longrightarrow>
    simple_rcu_ioctl excl oom n i s (s\<lparr>cell_fault := Some e\<rparr>)"
| read_unlock: "rcu_pc s i = R_end \<Longrightarrow>
    simple_rcu_ioctl excl oom n i s (s\<lparr>rcu_pc := (\<lambda>j. section_over i (rcu_pc s j))(i := Done 0)\<rparr>)"
| call_write: "rcu_pc s i = Out \<Longrightarrow> cmd = CELL_IOCTL_WRITE n \<Longrightarrow> excl \<longrightarrow> (\<forall>j. \<not> writing (rcu_pc s j)) \<Longrightarrow>
    simple_rcu_ioctl excl oom n i s (rcu_goto s i (W_alloc arg))"
| kmalloc: "rcu_pc s i = W_alloc arg \<Longrightarrow> p \<notin> dom (cell_heap s) \<Longrightarrow>
    simple_rcu_ioctl excl oom n i s ((rcu_goto s i (W_old p))\<lparr>cell_heap := (cell_heap s)(p \<mapsto> arg)\<rparr>)"
| kmalloc_fault: "rcu_pc s i = W_alloc arg \<Longrightarrow> oom \<Longrightarrow>
    simple_rcu_ioctl excl oom n i s (s\<lparr>cell_fault := Some Null_deref\<rparr>)"
| read_old: "rcu_pc s i = W_old p \<Longrightarrow>
    simple_rcu_ioctl excl oom n i s (rcu_goto s i (W_assign p (my_ptr s)))"
| assign_pointer: "rcu_pc s i = W_assign p old \<Longrightarrow>
    simple_rcu_ioctl excl oom n i s ((rcu_goto s i (W_sync old))\<lparr>my_ptr := Some p\<rparr>)"
| synchronize: "rcu_pc s i = W_sync old \<Longrightarrow>
    simple_rcu_ioctl excl oom n i s (rcu_goto s i (W_wait old {j. in_section (rcu_pc s j)}))"
| synchronized: "rcu_pc s i = W_wait old {} \<Longrightarrow>
    simple_rcu_ioctl excl oom n i s (rcu_goto s i (W_free old))"
| free_none: "rcu_pc s i = W_free None \<Longrightarrow>
    simple_rcu_ioctl excl oom n i s (rcu_goto s i (Done 0))"
| free_old: "rcu_pc s i = W_free (Some p) \<Longrightarrow> p \<in> dom (cell_heap s) \<Longrightarrow>
    simple_rcu_ioctl excl oom n i s ((rcu_goto s i (Done 0))\<lparr>cell_heap := (cell_heap s)(p := None)\<rparr>)"
| free_fault: "rcu_pc s i = W_free (Some p) \<Longrightarrow> p \<notin> dom (cell_heap s) \<Longrightarrow>
    simple_rcu_ioctl excl oom n i s (s\<lparr>cell_fault := Some Double_free\<rparr>)"
| return: "rcu_pc s i = Done r \<Longrightarrow> simple_rcu_ioctl excl oom n i s (rcu_goto s i Out)"

inductive_cases simple_rcu_ioctlE: "simple_rcu_ioctl excl oom n i s t"

definition rcu_step :: "bool \<Rightarrow> bool \<Rightarrow> nat \<Rightarrow> rcu \<Rightarrow> rcu \<Rightarrow> bool" where
  "rcu_step excl oom n s t \<longleftrightarrow> (\<exists>i. simple_rcu_ioctl excl oom n i s t)"

subsection \<open>One writer at a time\<close>

fun holds :: "rcu_pc \<Rightarrow> cell_addr option" where
  "holds (R_first p) = Some p"
| "holds (R_second p v) = Some p"
| "holds _ = None"

fun fresh :: "rcu_pc \<Rightarrow> cell_addr option" where
  "fresh (W_old p) = Some p"
| "fresh (W_assign p old) = Some p"
| "fresh _ = None"

fun retired :: "rcu_pc \<Rightarrow> cell_addr option" where
  "retired (W_sync old) = old"
| "retired (W_wait old P) = old"
| "retired (W_free old) = old"
| "retired _ = None"

text \<open>Readers hold allocated cells whose value has not changed.\<close>

definition readers_ok :: "(cell_addr \<rightharpoonup> nat) \<Rightarrow> (nat \<Rightarrow> rcu_pc) \<Rightarrow> bool" where
  "readers_ok h pcs \<longleftrightarrow> (\<forall>i a. holds (pcs i) = Some a \<longrightarrow> a \<in> dom h) \<and>
     (\<forall>i a v. pcs i = R_second a v \<longrightarrow> h a = Some v)"

text \<open>
  What the writer owns is allocated and not published; while it waits, the readers of the
  old cell are among those it waits for, and when it frees the cell there are none.
\<close>

definition writer_ok :: "(cell_addr \<rightharpoonup> nat) \<Rightarrow> cell_addr \<Rightarrow> (nat \<Rightarrow> rcu_pc) \<Rightarrow> nat \<Rightarrow> bool" where
  "writer_ok h p pcs i \<longleftrightarrow>
     (case pcs i of
        W_old a \<Rightarrow> a \<in> dom h \<and> a \<noteq> p
      | W_assign a old \<Rightarrow> a \<in> dom h \<and> a \<noteq> p \<and> old = Some p
      | W_sync old \<Rightarrow> (\<exists>a. old = Some a \<and> a \<in> dom h \<and> a \<noteq> p)
      | W_wait old P \<Rightarrow> (\<exists>a. old = Some a \<and> a \<in> dom h \<and> a \<noteq> p \<and> (\<forall>j. holds (pcs j) = Some a \<longrightarrow> j \<in> P))
      | W_free old \<Rightarrow> (\<exists>a. old = Some a \<and> a \<in> dom h \<and> a \<noteq> p \<and> (\<forall>j. holds (pcs j) \<noteq> Some a))
      | _ \<Rightarrow> True)"

definition one_writer :: "(nat \<Rightarrow> rcu_pc) \<Rightarrow> bool" where
  "one_writer pcs \<longleftrightarrow> (\<forall>i j. writing (pcs i) \<longrightarrow> writing (pcs j) \<longrightarrow> i = j)"

definition owned_cells :: "(nat \<Rightarrow> rcu_pc) \<Rightarrow> cell_addr set" where
  "owned_cells pcs = {a. \<exists>i. fresh (pcs i) = Some a \<or> retired (pcs i) = Some a}"

definition rcu_inv :: "rcu \<Rightarrow> bool" where
  "rcu_inv s \<longleftrightarrow> cell_fault s = None \<and> (\<forall>(v, v') \<in> set (cell_seen s). v = v') \<and>
     one_writer (rcu_pc s) \<and> readers_ok (cell_heap s) (rcu_pc s) \<and>
     (\<exists>p. my_ptr s = Some p \<and> (\<forall>i. writer_ok (cell_heap s) p (rcu_pc s) i) \<and>
       dom (cell_heap s) = insert p (owned_cells (rcu_pc s)))"

lemma rcu_goto_simps [simp]:
  "cell_heap (rcu_goto s i x) = cell_heap s" "my_ptr (rcu_goto s i x) = my_ptr s"
  "cell_fault (rcu_goto s i x) = cell_fault s" "cell_seen (rcu_goto s i x) = cell_seen s"
  "rcu_pc (rcu_goto s i x) = (rcu_pc s)(i := x)"
  by (simp_all add: rcu_goto_def)

lemma one_writer_upd:
  "one_writer pcs \<Longrightarrow> writing x \<longrightarrow> writing (pcs i) \<or> (\<forall>j. \<not> writing (pcs j)) \<Longrightarrow> one_writer (pcs(i := x))"
  unfolding one_writer_def by (metis fun_upd_apply)

lemma readers_ok_upd:
  "readers_ok h pcs \<Longrightarrow> (\<forall>a. holds x = Some a \<longrightarrow> a \<in> dom h) \<Longrightarrow>
    (\<forall>a v. x = R_second a v \<longrightarrow> h a = Some v) \<Longrightarrow> readers_ok h (pcs(i := x))"
  by (simp add: readers_ok_def)

lemma owned_upd:
  assumes "one_writer pcs" and "writing (pcs i)"
  shows "owned_cells (pcs(i := x)) = set_option (fresh x) \<union> set_option (retired x)"
proof -
  have "\<not> writing (pcs j)" if "j \<noteq> i" for j
    using that assms by (auto simp: one_writer_def)
  then have "fresh (pcs j) = None" "retired (pcs j) = None" if "j \<noteq> i" for j
    using that by (cases "pcs j"; force)+
  then show ?thesis by (auto simp: owned_cells_def split: if_splits)
qed

lemma owned_same:
  "fresh x = fresh (pcs i) \<Longrightarrow> retired x = retired (pcs i) \<Longrightarrow> owned_cells (pcs(i := x)) = owned_cells pcs"
  unfolding owned_cells_def by (auto split: if_splits) (metis+)?

lemma not_writing_ok: "\<not> writing (pcs j) \<Longrightarrow> writer_ok h p pcs j"
  by (cases "pcs j") (auto simp: writer_ok_def)

text \<open>A step of a reader.\<close>

lemma writer_ok_reader:
  assumes "\<forall>j. writer_ok h p pcs j" and "\<not> writing x" and "holds x = None \<or> holds x = Some p \<or> holds x = holds (pcs i)"
  shows "\<forall>j. writer_ok h p (pcs(i := x)) j"
proof
  fix j
  have only: "holds (pcs k) = Some a" if "holds ((pcs(i := x)) k) = Some a" "a \<noteq> p" for k a
    using that assms(3) by (auto split: if_splits)
  show "writer_ok h p (pcs(i := x)) j"
  proof (cases "j = i")
    case True
    then show ?thesis using assms(2) by (intro not_writing_ok) simp
  next
    case False
    have ok: "writer_ok h p pcs j" using assms(1) by blast
    show ?thesis
    proof (cases "pcs j")
      case (W_wait old P)
      then obtain a where a: "old = Some a" "a \<in> dom h" "a \<noteq> p" "\<forall>k. holds (pcs k) = Some a \<longrightarrow> k \<in> P"
        using ok by (auto simp: writer_ok_def)
      then have "\<forall>k. holds ((pcs(i := x)) k) = Some a \<longrightarrow> k \<in> P" using only by blast
      then show ?thesis using False W_wait a(1,2,3) by (simp add: writer_ok_def)
    next
      case (W_free old)
      then obtain a where a: "old = Some a" "a \<in> dom h" "a \<noteq> p" "\<forall>k. holds (pcs k) \<noteq> Some a"
        using ok by (auto simp: writer_ok_def)
      then have "\<forall>k. holds ((pcs(i := x)) k) \<noteq> Some a" using only by blast
      then show ?thesis using False W_free a(1,2,3) by (simp add: writer_ok_def)
    qed (use False ok in \<open>simp_all add: writer_ok_def\<close>)
  qed
qed

text \<open>A step of the only writer.\<close>

lemma writer_ok_writer:
  assumes "one_writer pcs" and "writing (pcs i)" and "writer_ok h p (pcs(i := x)) i"
  shows "\<forall>j. writer_ok h p (pcs(i := x)) j"
proof
  fix j
  show "writer_ok h p (pcs(i := x)) j"
  proof (cases "j = i")
    case False
    then have "\<not> writing ((pcs(i := x)) j)" using assms(1,2) by (auto simp: one_writer_def)
    then show ?thesis by (rule not_writing_ok)
  qed (use assms(3) in simp)
qed

lemma rcu_inv_reader:
  assumes "rcu_inv s" and "\<not> writing x" and "\<not> writing (rcu_pc s i)"
    and "holds x = None \<or> holds x = my_ptr s \<or> holds x = holds (rcu_pc s i)"
    and "\<forall>a v. x = R_second a v \<longrightarrow> cell_heap s a = Some v"
    and "\<forall>(v, v') \<in> set vs. v = v'"
  shows "rcu_inv ((rcu_goto s i x)\<lparr>cell_seen := cell_seen s @ vs\<rparr>)"
proof -
  obtain p where p: "my_ptr s = Some p" "\<forall>i. writer_ok (cell_heap s) p (rcu_pc s) i"
      "dom (cell_heap s) = insert p (owned_cells (rcu_pc s))"
    using assms(1) by (auto simp: rcu_inv_def)
  have "retired x = None" "fresh x = None" "retired (rcu_pc s i) = None" "fresh (rcu_pc s i) = None"
    using assms(2,3) by (cases x; cases "rcu_pc s i"; simp)+
  then have "owned_cells ((rcu_pc s)(i := x)) = owned_cells (rcu_pc s)"
    by (intro owned_same) simp_all
  moreover have "one_writer ((rcu_pc s)(i := x))"
    using assms(1,2) by (intro one_writer_upd) (auto simp: rcu_inv_def)
  moreover have "readers_ok (cell_heap s) ((rcu_pc s)(i := x))"
  proof -
    have r: "readers_ok (cell_heap s) (rcu_pc s)" using assms(1) by (simp add: rcu_inv_def)
    moreover have "p \<in> dom (cell_heap s)" using p(3) by simp
    ultimately have "\<forall>a. holds x = Some a \<longrightarrow> a \<in> dom (cell_heap s)"
      using assms(4) p(1) unfolding readers_ok_def by (metis option.inject option.distinct(1))
    then show ?thesis using r assms(5) by (intro readers_ok_upd)
  qed
  moreover have "\<forall>j. writer_ok (cell_heap s) p ((rcu_pc s)(i := x)) j"
    using p(1,2) assms(2,4) by (intro writer_ok_reader) auto
  ultimately show ?thesis
    using assms(1,6) p(1,3) by (auto simp: rcu_inv_def)
qed

lemma rcu_inv_writer:
  assumes "rcu_inv s" and "writing (rcu_pc s i)" and "holds x = None"
    and "one_writer ((rcu_pc s)(i := x))"
    and "\<forall>j a. holds (rcu_pc s j) = Some a \<longrightarrow> h a = cell_heap s a"
    and "writer_ok h p ((rcu_pc s)(i := x)) i"
    and "dom h = insert p (set_option (fresh x) \<union> set_option (retired x))"
  shows "rcu_inv ((rcu_goto s i x)\<lparr>my_ptr := Some p, cell_heap := h\<rparr>)"
proof -
  have r: "readers_ok (cell_heap s) (rcu_pc s)" using assms(1) by (simp add: rcu_inv_def)
  have "readers_ok h (rcu_pc s)"
    unfolding readers_ok_def
  proof (intro conjI allI impI)
    fix j a
    assume "holds (rcu_pc s j) = Some a"
    then show "a \<in> dom h" using r assms(5) unfolding readers_ok_def by (metis domIff)
  next
    fix j a v
    assume "rcu_pc s j = R_second a v"
    then show "h a = Some v" using r assms(5) unfolding readers_ok_def by (metis holds.simps(2))
  qed
  then have "readers_ok h ((rcu_pc s)(i := x))"
    using assms(3) by (intro readers_ok_upd) auto
  moreover have "\<forall>j. writer_ok h p ((rcu_pc s)(i := x)) j"
    using assms(1,2,6) by (intro writer_ok_writer) (auto simp: rcu_inv_def)
  moreover have "owned_cells ((rcu_pc s)(i := x)) = set_option (fresh x) \<union> set_option (retired x)"
    using assms(1,2) by (intro owned_upd) (auto simp: rcu_inv_def)
  moreover have "cell_fault s = None" "\<forall>(v, v') \<in> set (cell_seen s). v = v'"
    using assms(1) by (auto simp: rcu_inv_def)
  ultimately show ?thesis
    using assms(4,7) unfolding rcu_inv_def by auto
qed

lemma rcu_inv_go:
  assumes "rcu_inv s" and "\<not> writing x" and "\<not> writing (rcu_pc s i)"
    and "holds x = None \<or> holds x = my_ptr s \<or> holds x = holds (rcu_pc s i)"
    and "\<forall>a v. x = R_second a v \<longrightarrow> cell_heap s a = Some v"
  shows "rcu_inv (rcu_goto s i x)"
proof -
  have eq: "(rcu_goto s i x)\<lparr>cell_seen := cell_seen s @ []\<rparr> = rcu_goto s i x"
    by (cases s) (simp add: rcu_goto_def)
  show ?thesis using rcu_inv_reader [OF assms, of "[]"] unfolding eq by simp
qed

text \<open>A step of the writer that keeps the heap and the pointer.\<close>

lemma rcu_inv_go_writer:
  assumes "rcu_inv s" and "writing (rcu_pc s i)" and "holds x = None"
    and "fresh x = fresh (rcu_pc s i)" and "retired x = retired (rcu_pc s i)"
    and "\<And>p. my_ptr s = Some p \<Longrightarrow> writer_ok (cell_heap s) p (rcu_pc s) i \<Longrightarrow>
      writer_ok (cell_heap s) p ((rcu_pc s)(i := x)) i"
  shows "rcu_inv (rcu_goto s i x)"
proof -
  obtain p where p: "my_ptr s = Some p" "\<forall>i. writer_ok (cell_heap s) p (rcu_pc s) i"
      "dom (cell_heap s) = insert p (owned_cells (rcu_pc s))"
    using assms(1) by (auto simp: rcu_inv_def)
  have w: "one_writer (rcu_pc s)" using assms(1) by (simp add: rcu_inv_def)
  have "owned_cells (rcu_pc s) = owned_cells ((rcu_pc s)(i := rcu_pc s i))" by simp
  also have "\<dots> = set_option (fresh x) \<union> set_option (retired x)"
    unfolding assms(4,5) by (rule owned_upd [OF w assms(2)])
  finally have d: "dom (cell_heap s) = insert p (set_option (fresh x) \<union> set_option (retired x))"
    using p(3) by simp
  have "one_writer ((rcu_pc s)(i := x))" using w assms(2) by (intro one_writer_upd) auto
  then have "rcu_inv ((rcu_goto s i x)\<lparr>my_ptr := Some p, cell_heap := cell_heap s\<rparr>)"
    using assms(1-3) assms(6) [OF p(1)] p(2) d by (intro rcu_inv_writer) auto
  moreover have "(rcu_goto s i x)\<lparr>my_ptr := Some p, cell_heap := cell_heap s\<rparr> = rcu_goto s i x"
    using p(1) by (cases s) (simp add: rcu_goto_def)
  ultimately show ?thesis by simp
qed

lemma section_over_simps [simp]:
  "holds (section_over i x) = holds x" "fresh (section_over i x) = fresh x"
  "retired (section_over i x) = retired x" "writing (section_over i x) = writing x"
  "section_over i x = R_second a v \<longleftrightarrow> x = R_second a v"
  by (cases x; simp)+

lemma goto_same_ptr:
  "my_ptr s = Some q \<Longrightarrow>
    (rcu_goto s i x)\<lparr>my_ptr := Some q, cell_heap := h\<rparr> = (rcu_goto s i x)\<lparr>cell_heap := h\<rparr>"
  by (cases s) (simp add: rcu_goto_def)

text \<open>The end of a read-side section.\<close>

lemma rcu_inv_unlock:
  assumes "rcu_inv s" and "rcu_pc s i = R_end"
  shows "rcu_inv (s\<lparr>rcu_pc := \<lambda>j. section_over i (rcu_pc s j)\<rparr>)" (is "rcu_inv ?t")
proof -
  have "writer_ok h p (\<lambda>j. section_over i (rcu_pc s j)) k" if "writer_ok h p (rcu_pc s) k" for h p k
    using that assms(2)
    by (cases "rcu_pc s k") (auto simp: writer_ok_def)
  moreover have "owned_cells (\<lambda>j. section_over i (rcu_pc s j)) = owned_cells (rcu_pc s)"
    by (simp add: owned_cells_def)
  ultimately show ?thesis
    using assms(1) unfolding rcu_inv_def one_writer_def readers_ok_def by simp blast
qed

lemma rcu_inv_no_fault:
  assumes "rcu_inv s"
  shows "rcu_pc s i = R_first p \<Longrightarrow> p \<in> dom (cell_heap s)" "rcu_pc s i = R_second p v \<Longrightarrow> cell_heap s p = Some v"
    "rcu_pc s i = W_free old \<Longrightarrow> \<exists>p. old = Some p \<and> p \<in> dom (cell_heap s)"
proof -
  have r: "readers_ok (cell_heap s) (rcu_pc s)" using assms by (simp add: rcu_inv_def)
  then show "rcu_pc s i = R_first p \<Longrightarrow> p \<in> dom (cell_heap s)"
    unfolding readers_ok_def by (metis holds.simps(1))
  show "rcu_pc s i = R_second p v \<Longrightarrow> cell_heap s p = Some v"
    using r by (simp add: readers_ok_def)
  obtain q where "writer_ok (cell_heap s) q (rcu_pc s) i"
    using assms by (auto simp: rcu_inv_def)
  then show "rcu_pc s i = W_free old \<Longrightarrow> \<exists>p. old = Some p \<and> p \<in> dom (cell_heap s)"
    by (auto simp: writer_ok_def)
qed

lemma rcu_step_inv: "simple_rcu_ioctl True False n i s t \<Longrightarrow> rcu_inv s \<Longrightarrow> rcu_inv t"
proof (induction rule: simple_rcu_ioctl.induct)
  case (second s p v v')
  then show ?case
    using rcu_inv_no_fault(2) [OF second(3,1)]
    by (intro rcu_inv_reader) (auto simp: cell.truncate_def)
next
  case (read_unlock s)
  let ?u = "s\<lparr>rcu_pc := \<lambda>j. section_over i (rcu_pc s j)\<rparr>"
  have "rcu_inv (rcu_goto ?u i (Done 0))"
    using rcu_inv_unlock [OF read_unlock(2,1)] read_unlock(1) by (intro rcu_inv_go) auto
  then show ?case by (simp add: rcu_goto_def)
next
  case (call_write s cmd arg)
  then have none: "\<forall>j. \<not> writing (rcu_pc s j)" by simp
  have "\<forall>j. writer_ok (cell_heap s) p ((rcu_pc s)(i := W_alloc arg)) j" for p
  proof
    fix j
    show "writer_ok (cell_heap s) p ((rcu_pc s)(i := W_alloc arg)) j"
      using none not_writing_ok [of "(rcu_pc s)(i := W_alloc arg)" j]
      by (cases "j = i") (auto simp: writer_ok_def)
  qed
  moreover have "owned_cells ((rcu_pc s)(i := W_alloc arg)) = owned_cells (rcu_pc s)"
    using call_write(1) by (intro owned_same) simp_all
  moreover have "one_writer ((rcu_pc s)(i := W_alloc arg))"
    using none by (simp add: one_writer_def)
  moreover have "readers_ok (cell_heap s) ((rcu_pc s)(i := W_alloc arg))"
    using call_write(4) by (intro readers_ok_upd) (auto simp: rcu_inv_def)
  ultimately show ?case using call_write(4) by (auto simp: rcu_inv_def)
next
  case (kmalloc s arg p)
  obtain q where q: "my_ptr s = Some q" "dom (cell_heap s) = insert q (owned_cells (rcu_pc s))"
    using kmalloc(3) by (auto simp: rcu_inv_def)
  have w: "one_writer (rcu_pc s)" and r: "readers_ok (cell_heap s) (rcu_pc s)"
    using kmalloc(3) by (auto simp: rcu_inv_def)
  have "owned_cells (rcu_pc s) = owned_cells ((rcu_pc s)(i := rcu_pc s i))" by simp
  also have "\<dots> = {}" using kmalloc(1) by (subst owned_upd [OF w]) auto
  finally have d: "dom (cell_heap s) = {q}" using q(2) by simp
  have "rcu_inv ((rcu_goto s i (W_old p))\<lparr>my_ptr := Some q, cell_heap := (cell_heap s)(p \<mapsto> arg)\<rparr>)"
  proof (rule rcu_inv_writer [OF kmalloc(3)])
    show "\<forall>j a. holds (rcu_pc s j) = Some a \<longrightarrow> ((cell_heap s)(p \<mapsto> arg)) a = cell_heap s a"
      using r kmalloc(2) by (auto simp: readers_ok_def)
    show "one_writer ((rcu_pc s)(i := W_old p))" using w kmalloc(1) by (intro one_writer_upd) auto
  qed (use kmalloc(1,2) d in \<open>auto simp: writer_ok_def\<close>)
  then show ?case by (simp add: goto_same_ptr [OF q(1)])
next
  case (assign_pointer s p old)
  obtain q where q: "my_ptr s = Some q" "dom (cell_heap s) = insert q (owned_cells (rcu_pc s))"
      "writer_ok (cell_heap s) q (rcu_pc s) i"
    using assign_pointer(2) by (auto simp: rcu_inv_def)
  have w: "one_writer (rcu_pc s)" using assign_pointer(2) by (auto simp: rcu_inv_def)
  have "owned_cells (rcu_pc s) = owned_cells ((rcu_pc s)(i := rcu_pc s i))" by simp
  also have "\<dots> = {p}" using assign_pointer(1) by (subst owned_upd [OF w]) auto
  finally have d: "dom (cell_heap s) = {p, q}" using q(2) by auto
  have "rcu_inv ((rcu_goto s i (W_sync old))\<lparr>my_ptr := Some p, cell_heap := cell_heap s\<rparr>)"
  proof (rule rcu_inv_writer [OF assign_pointer(2)])
    show "one_writer ((rcu_pc s)(i := W_sync old))" using w assign_pointer(1) by (intro one_writer_upd) auto
  qed (use assign_pointer(1) q(1,3) d in \<open>auto simp: writer_ok_def\<close>)
  moreover have "(rcu_goto s i (W_sync old))\<lparr>my_ptr := Some p, cell_heap := cell_heap s\<rparr> = (rcu_goto s i (W_sync old))\<lparr>my_ptr := Some p\<rparr>"
    by (cases s) (simp add: rcu_goto_def)
  ultimately show ?case by simp
next
  case (free_old s p)
  obtain q where q: "my_ptr s = Some q" "dom (cell_heap s) = insert q (owned_cells (rcu_pc s))"
      "writer_ok (cell_heap s) q (rcu_pc s) i"
    using free_old(3) by (auto simp: rcu_inv_def)
  have w: "one_writer (rcu_pc s)" using free_old(3) by (auto simp: rcu_inv_def)
  have "owned_cells (rcu_pc s) = owned_cells ((rcu_pc s)(i := rcu_pc s i))" by simp
  also have "\<dots> = {p}" using free_old(1) by (subst owned_upd [OF w]) auto
  finally have d: "dom (cell_heap s) = {p, q}" using q(2) by auto
  have "rcu_inv ((rcu_goto s i (Done 0))\<lparr>my_ptr := Some q, cell_heap := (cell_heap s)(p := None)\<rparr>)"
  proof (rule rcu_inv_writer [OF free_old(3)])
    show "one_writer ((rcu_pc s)(i := Done 0))" using w free_old(1) by (intro one_writer_upd) auto
  qed (use free_old(1) q(1,3) d in \<open>auto simp: writer_ok_def\<close>)
  then show ?case by (simp add: goto_same_ptr [OF q(1)])
next
  case (read_old s p)
  then show ?case by (intro rcu_inv_go_writer) (auto simp: writer_ok_def)
next
  case (synchronize s old)
  have "j \<in> {j. in_section (rcu_pc s j)}" if "holds (rcu_pc s j) = Some a" for j a
    using that by (cases "rcu_pc s j") auto
  then show ?case
    using synchronize by (intro rcu_inv_go_writer) (auto simp: writer_ok_def)
next
  case (synchronized s old)
  then show ?case by (intro rcu_inv_go_writer) (auto simp: writer_ok_def)
next
  case (first s p v)
  then show ?case by (intro rcu_inv_go) (auto simp: cell.truncate_def)
qed (auto intro: rcu_inv_go simp: cell.truncate_def dest: rcu_inv_no_fault)

lemma rcu_inv_start: "rcu_start s \<Longrightarrow> rcu_inv s"
  by (auto simp: rcu_start_def simple_rcu_init_Inr cell_init_def cell.truncate_def rcu_inv_def one_writer_def
      readers_ok_def writer_ok_def owned_cells_def) (metis dom_eq_singleton_conv)

lemma rcu_reachable_inv: "reachable rcu_start (rcu_step True False n) s \<Longrightarrow> rcu_inv s"
  by (erule reachable_invariant) (auto simp: rcu_step_def intro: rcu_inv_start rcu_step_inv)

subsection \<open>Every call returns\<close>

fun rcu_rank :: "rcu_pc \<Rightarrow> nat" where
  "rcu_rank Out = 0"
| "rcu_rank (Done r) = 1"
| "rcu_rank R_end = 2"
| "rcu_rank (R_second p v) = 3"
| "rcu_rank (R_first p) = 4"
| "rcu_rank R_begin = 5"
| "rcu_rank (W_free old) = 2"
| "rcu_rank (W_wait old P) = 3"
| "rcu_rank (W_sync old) = 4"
| "rcu_rank (W_assign p old) = 5"
| "rcu_rank (W_old p) = 6"
| "rcu_rank (W_alloc v) = 7"

lemma rcu_rank_0 [simp]: "0 < rcu_rank x \<longleftrightarrow> x \<noteq> Out"
  by (cases x) auto

lemma section_over_rank [simp]: "rcu_rank (section_over i x) = rcu_rank x"
  by (cases x) auto

lemma section_over_kind [simp]:
  "section_over i x = Out \<longleftrightarrow> x = Out" "in_section (section_over i x) = in_section x"
  by (cases x; simp)+

text \<open>A writer waits only for threads that are still inside a section.\<close>

definition waits_ok :: "(nat \<Rightarrow> rcu_pc) \<Rightarrow> bool" where
  "waits_ok pcs \<longleftrightarrow> (\<forall>k old P. pcs k = W_wait old P \<longrightarrow> P \<subseteq> {j. in_section (pcs j)})"

lemma waits_upd:
  assumes "waits_ok pcs" and "in_section (pcs i) \<longrightarrow> in_section x"
    and "\<And>old P. x = W_wait old P \<Longrightarrow> P \<subseteq> {j. j \<noteq> i \<and> in_section (pcs j)}"
  shows "waits_ok (pcs(i := x))"
  using assms unfolding waits_ok_def by (auto simp: subset_iff)

lemma waits_unlock:
  assumes "waits_ok pcs"
  shows "waits_ok ((\<lambda>j. section_over i (pcs j))(i := Done r))"
proof -
  have "P \<subseteq> {j. j \<noteq> i \<and> in_section (pcs j)}" if "section_over i (pcs k) = W_wait old P" for k old P
    using that assms by (cases "pcs k") (auto simp: waits_ok_def)
  then show ?thesis by (auto simp: waits_ok_def subset_iff split: if_splits)
qed

definition rcu_live :: "rcu \<Rightarrow> bool" where
  "rcu_live s \<longleftrightarrow> rcu_inv s \<and> finite {i. rcu_pc s i \<noteq> Out} \<and> finite (dom (cell_heap s)) \<and> waits_ok (rcu_pc s)"

lemma rcu_live_step:
  assumes "simple_rcu_ioctl True False n i s t" and "rcu_live s"
  shows "rcu_live t"
proof -
  have "rcu_inv t" using rcu_step_inv assms by (auto simp: rcu_live_def)
  moreover have "finite {i. rcu_pc t i \<noteq> Out}" "finite (dom (cell_heap t))"
    using assms by (auto simp: rcu_live_def simp del: fun_upd_apply elim!: simple_rcu_ioctlE)
  moreover have "waits_ok (rcu_pc s)" using assms(2) by (simp add: rcu_live_def)
  then have "waits_ok (rcu_pc t)"
    using assms(1)
    by (auto simp del: fun_upd_apply intro!: waits_unlock elim!: simple_rcu_ioctlE) (auto intro!: waits_upd)
  ultimately show ?thesis by (simp add: rcu_live_def)
qed

lemma reader_can_move:
  assumes "in_section (rcu_pc s j)"
  shows "\<exists>t. simple_rcu_ioctl True False n j s t"
proof (cases "rcu_pc s j")
  case R_begin
  then show ?thesis by (cases "my_ptr s") (blast intro: simple_rcu_ioctl.intros)+
next
  case (R_first p)
  then show ?thesis by (cases "cell_load p (cell.truncate s)") (blast intro: simple_rcu_ioctl.intros)+
next
  case (R_second p v)
  then show ?thesis by (cases "cell_load p (cell.truncate s)") (blast intro: simple_rcu_ioctl.intros)+
qed (use assms in \<open>auto intro: simple_rcu_ioctl.intros\<close>)

lemma rcu_can_move:
  assumes "rcu_live s" and "rcu_pc s i \<noteq> Out"
  shows "\<exists>j t. simple_rcu_ioctl True False n j s t \<and> rcu_pc s j \<noteq> Out"
proof (cases "in_section (rcu_pc s i)")
  case True
  then show ?thesis using reader_can_move [of s i n] assms(2) by blast
next
  case reading: False
  show ?thesis
  proof (cases "rcu_pc s i")
    case (W_wait old P)
    show ?thesis
    proof (cases "P = {}")
      case True
      then show ?thesis using W_wait assms(2) by (blast intro: simple_rcu_ioctl.intros)
    next
      case False
      then obtain j where "in_section (rcu_pc s j)"
        using assms(1) W_wait by (fastforce simp: rcu_live_def waits_ok_def)
      then show ?thesis using reader_can_move [of s j n] by force
    qed
  next
    case (W_alloc v)
    obtain p where "p \<notin> dom (cell_heap s)"
      using assms(1) infinite_UNIV_nat ex_new_if_finite unfolding rcu_live_def by blast
    then show ?thesis using W_alloc assms(2) by (blast intro: simple_rcu_ioctl.intros)
  next
    case (W_free old)
    then show ?thesis using assms(2) by (cases old) (blast intro: simple_rcu_ioctl.intros)+
  qed (use assms(2) reading in \<open>auto intro!: exI [of _ i] intro: simple_rcu_ioctl.intros\<close>)
qed

lemma rcu_nearer:
  assumes "simple_rcu_ioctl True False n i s t" and "rcu_inv s" and "rcu_pc s i \<noteq> Out"
  shows "rcu_rank (rcu_pc t i) < rcu_rank (rcu_pc s i)"
  using assms(1)
proof cases
  case (first_fault p e)
  then show ?thesis using rcu_inv_no_fault(1) [OF assms(2), of i p] by (auto simp: cell.truncate_def)
next
  case (second_fault p v e)
  then show ?thesis using rcu_inv_no_fault(2) [OF assms(2), of i p v] by (auto simp: cell.truncate_def)
next
  case (free_fault p)
  then show ?thesis using rcu_inv_no_fault(3) [OF assms(2), of i "Some p"] by auto
qed (use assms(3) in auto)

interpretation rcu_calls: draining "simple_rcu_ioctl True False n" "\<lambda>s i. rcu_rank (rcu_pc s i)" rcu_live "\<lambda>_. 7"
proof
  fix s t i j
  assume "rcu_live s" "simple_rcu_ioctl True False n i s t"
  then show "0 < rcu_rank (rcu_pc s i) \<Longrightarrow> rcu_live t"
    and "0 < rcu_rank (rcu_pc s i) \<Longrightarrow> rcu_rank (rcu_pc t i) < rcu_rank (rcu_pc s i)"
    using rcu_live_step rcu_nearer by (auto simp: rcu_live_def)
  show "j \<noteq> i \<Longrightarrow> rcu_rank (rcu_pc t j) = rcu_rank (rcu_pc s j)"
    using \<open>simple_rcu_ioctl True False n i s t\<close> by cases auto
next
  fix s i
  show "rcu_rank (rcu_pc s i) \<le> 7" by (cases "rcu_pc s i") auto
next
  fix s i
  assume "rcu_live s" "0 < rcu_rank (rcu_pc s i)"
  then show "\<exists>j t. simple_rcu_ioctl True False n j s t \<and> 0 < rcu_rank (rcu_pc s j)"
    using rcu_can_move [of s i n] by auto
qed (simp add: rcu_live_def)

lemma rcu_reachable_live: "reachable rcu_start (rcu_step True False n) s \<Longrightarrow> rcu_live s"
proof (erule reachable_invariant)
  show "rcu_start s \<Longrightarrow> rcu_live s" for s
    using rcu_inv_start [of s]
    by (auto simp: rcu_live_def rcu_start_def simple_rcu_init_Inr cell_init_def cell.truncate_def waits_ok_def)
      (metis dom_eq_singleton_conv finite.emptyI finite_insert)
qed (auto simp: rcu_step_def intro: rcu_live_step)

subsection \<open>An atomic register\<close>

text \<open>
  Assigning the pointer publishes the writer's value, dereferencing it obtains the current
  one, and the second print shows both reads. Everything else is silent.
\<close>

fun rcu_event :: "nat \<Rightarrow> (cell_addr \<rightharpoonup> nat) \<Rightarrow> rcu_pc \<Rightarrow> rcu_pc \<Rightarrow> reg_event" where
  "rcu_event i h R_begin (R_first p) = Obtain i"
| "rcu_event i h (R_second p v) R_end = Show i v (the (h p))"
| "rcu_event i h (W_assign p old) (W_sync old') = Publish i (the (h p))"
| "rcu_event i h _ _ = Silent"

definition rcu_emits :: "nat \<Rightarrow> reg_event \<Rightarrow> rcu \<Rightarrow> rcu \<Rightarrow> bool" where
  "rcu_emits n e s t \<longleftrightarrow>
     (\<exists>i. simple_rcu_ioctl True False n i s t \<and> e = rcu_event i (cell_heap s) (rcu_pc s i) (rcu_pc t i))"

definition rcu_reg :: "rcu \<Rightarrow> reg \<Rightarrow> bool" where
  "rcu_reg s r \<longleftrightarrow> rcu_inv s \<and> cell_heap s (the (my_ptr s)) = Some (reg_val r) \<and>
     (\<forall>i p. holds (rcu_pc s i) = Some p \<longrightarrow> cell_heap s p = reg_pend r i)"

lemma holds_section_over [simp]: "holds (section_over i x) = holds x"
  by (cases x) simp_all

lemma rcu_reg_silent:
  assumes "rcu_reg s r" and "rcu_inv t" and "my_ptr t = my_ptr s"
    and "\<And>p. p = the (my_ptr s) \<or> (\<exists>j. holds (rcu_pc s j) = Some p) \<Longrightarrow> cell_heap t p = cell_heap s p"
    and "\<And>j. holds (rcu_pc t j) = None \<or> holds (rcu_pc t j) = holds (rcu_pc s j)"
  shows "rcu_reg t r"
proof -
  have "cell_heap t p = reg_pend r j" if h: "holds (rcu_pc t j) = Some p" for j p
  proof -
    have "holds (rcu_pc s j) = Some p" using assms(5) [of j] h by auto
    then show ?thesis using assms(1) assms(4) [of p] by (auto simp: rcu_reg_def)
  qed
  then show ?thesis using assms(1-3) assms(4) [of "the (my_ptr s)"] by (simp add: rcu_reg_def)
qed

lemma rcu_held: "rcu_inv s \<Longrightarrow> holds (rcu_pc s j) = Some p \<Longrightarrow> p \<in> dom (cell_heap s)"
  by (simp add: rcu_inv_def readers_ok_def)

lemma rcu_simulates:
  assumes "rcu_emits n e s t" and "rcu_reg s r"
  shows "\<exists>r'. reg_next e r = Some r' \<and> rcu_reg t r'"
proof -
  obtain i where i: "simple_rcu_ioctl True False n i s t"
      and e: "e = rcu_event i (cell_heap s) (rcu_pc s i) (rcu_pc t i)"
    using assms(1) by (auto simp: rcu_emits_def)
  have inv: "rcu_inv s" using assms(2) by (simp add: rcu_reg_def)
  have inv': "rcu_inv t" by (rule rcu_step_inv [OF i inv])
  obtain q where q: "my_ptr s = Some q" "q \<in> dom (cell_heap s)"
      "\<forall>j. writer_ok (cell_heap s) q (rcu_pc s) j"
    using inv by (auto simp: rcu_inv_def)
  have quiet: ?thesis if "e = Silent" "rcu_reg t r" using that by simp
  show ?thesis
    using i
  proof cases
    case (dereference p)
    let ?r = "r\<lparr>reg_pend := (reg_pend r)(i \<mapsto> reg_val r)\<rparr>"
    have "reg_next e r = Some ?r" using e dereference by simp
    moreover have "rcu_reg t ?r" using assms(2) inv' dereference by (auto simp: rcu_reg_def)
    ultimately show ?thesis by blast
  next
    case (second p v v')
    let ?r = "r\<lparr>reg_pend := (reg_pend r)(i := None)\<rparr>"
    have "cell_heap s p = Some v" by (rule rcu_inv_no_fault(2) [OF inv second(2)])
    moreover have "cell_heap s p = reg_pend r i" using assms(2) second(2) by (simp add: rcu_reg_def)
    ultimately have "reg_next e r = Some ?r" using e second by simp
    moreover have "rcu_reg t ?r" using assms(2) inv' second by (auto simp: rcu_reg_def)
    ultimately show ?thesis by blast
  next
    case (assign_pointer p old)
    have "p \<in> dom (cell_heap s)" using q(3) assign_pointer(2) by (metis (no_types, lifting) rcu_pc.simps writer_ok_def)
    then obtain v where v: "cell_heap s p = Some v" by blast
    have "reg_next e r = Some (r\<lparr>reg_val := v\<rparr>)" using e assign_pointer v by simp
    moreover have "rcu_reg t (r\<lparr>reg_val := v\<rparr>)"
      using assms(2) inv' assign_pointer v by (auto simp: rcu_reg_def)
    ultimately show ?thesis by blast
  next
    case (kmalloc arg p)
    have "e = Silent" using e kmalloc by simp
    moreover have "rcu_reg t r"
      by (rule rcu_reg_silent [OF assms(2) inv']) (use kmalloc q rcu_held [OF inv] in auto)
    ultimately show ?thesis by (rule quiet)
  next
    case (free_old p)
    have w: "writer_ok (cell_heap s) q (rcu_pc s) i" using q(3) by blast
    have "e = Silent" using e free_old by simp
    moreover have "rcu_reg t r"
      by (rule rcu_reg_silent [OF assms(2) inv']) (use free_old q(1) w in \<open>auto simp: writer_ok_def\<close>)
    ultimately show ?thesis by (rule quiet)
  qed (rule quiet [OF _ rcu_reg_silent [OF assms(2) inv']]; use e in auto)+
qed

interpretation rcu_register: register_impl rcu_start "rcu_emits n" rcu_reg
proof
  fix s
  assume "rcu_start s"
  then show "rcu_reg s reg_zero"
    using rcu_inv_start [of s]
    by (auto simp: rcu_reg_def rcu_start_def simple_rcu_init_Inr cell_init_def cell.truncate_def reg_zero_def)
      (metis fun_upd_same option.sel)
qed (rule rcu_simulates)

subsection \<open>Sample runs\<close>

definition rcu_zero :: rcu where
  "rcu_zero = \<lparr>cell_heap = [1 \<mapsto> 0], my_ptr = Some 1, cell_fault = None, cell_seen = [], rcu_pc = \<lambda>_. Out\<rparr>"

lemma rcu_zero_start: "reachable rcu_start (rcu_step excl oom n) rcu_zero"
  by (rule reach_start) (simp add: rcu_start_def rcu_zero_def simple_rcu_init_Inr cell_init_def cell.truncate_def)

lemma rcu_run: "reachable rcu_start (rcu_step excl oom n) s \<Longrightarrow> simple_rcu_ioctl excl oom n i s t \<Longrightarrow>
    reachable rcu_start (rcu_step excl oom n) t"
  by (rule reach_step, assumption) (auto simp: rcu_step_def)

lemma synchronized_now: "rcu_pc s i = W_wait old P \<Longrightarrow> P = {} \<Longrightarrow>
    simple_rcu_ioctl excl oom n i s (rcu_goto s i (W_free old))"
  using synchronized by simp

lemma rcu_log:
  "labelled rcu_start (rcu_emits n) es s \<Longrightarrow> simple_rcu_ioctl True False n i s t \<Longrightarrow>
    es' = es @ [rcu_event i (cell_heap s) (rcu_pc s i) (rcu_pc t i)] \<Longrightarrow>
    labelled rcu_start (rcu_emits n) es' t"
  by (simp, rule lab_step) (auto simp: rcu_emits_def)

text \<open>A reader overtaken by a writer.\<close>

lemma rcu_overtaken_log:
  "\<exists>s. labelled rcu_start (rcu_emits 8)
       [Silent, Obtain 1, Silent, Silent, Silent, Silent, Publish 0 5, Silent, Show 1 0 0, Silent, Silent, Silent] s \<and>
     cell_seen s = [(0, 0)] \<and> my_ptr s = Some 2 \<and>
     (\<forall>i. \<not> writing (rcu_pc s i))"
proof -
  let ?R = "labelled rcu_start (rcu_emits 8)"
  let ?s0 = rcu_zero
  note step = rcu_log [where n = 8]
  have "?R [] ?s0" by (rule lab_start) (simp add: rcu_start_def rcu_zero_def simple_rcu_init_Inr cell_init_def cell.truncate_def)
  then have "?R [Silent] (rcu_goto ?s0 1 (R_begin))" (is "labelled _ _ _ ?s1")
    by (rule step [where i = 1]) (rule read_lock, simp_all add: rcu_zero_def cell.truncate_def)
  then have "?R [Silent, Obtain 1] (rcu_goto ?s1 1 (R_first 1))" (is "labelled _ _ _ ?s2")
    by (rule step [where i = 1]) (rule dereference, simp_all add: rcu_zero_def cell.truncate_def)
  then have "?R [Silent, Obtain 1, Silent] (rcu_goto ?s2 1 (R_second 1 0))" (is "labelled _ _ _ ?s3")
    by (rule step [where i = 1]) (rule first, simp_all add: rcu_zero_def cell.truncate_def)
  then have "?R [Silent, Obtain 1, Silent, Silent] (rcu_goto ?s3 0 (W_alloc 5))" (is "labelled _ _ _ ?s4")
    by (rule step [where i = 0]) (rule call_write, simp_all add: rcu_zero_def cell.truncate_def)
  then have "?R [Silent, Obtain 1, Silent, Silent, Silent] ((rcu_goto ?s4 0 (W_old 2))\<lparr>cell_heap := (cell_heap ?s4)(2 \<mapsto> 5)\<rparr>)" (is "labelled _ _ _ ?s5")
    by (rule step [where i = 0]) (rule kmalloc, simp_all add: rcu_zero_def cell.truncate_def)
  then have "?R [Silent, Obtain 1, Silent, Silent, Silent, Silent] (rcu_goto ?s5 0 (W_assign 2 (my_ptr ?s5)))" (is "labelled _ _ _ ?s6")
    by (rule step [where i = 0]) (rule read_old, simp_all add: rcu_zero_def cell.truncate_def)
  then have "?R [Silent, Obtain 1, Silent, Silent, Silent, Silent, Publish 0 5] ((rcu_goto ?s6 0 (W_sync (Some 1)))\<lparr>my_ptr := Some 2\<rparr>)" (is "labelled _ _ _ ?s7")
    by (rule step [where i = 0]) (rule assign_pointer [where p = 2], simp_all add: rcu_zero_def cell.truncate_def)
  then have "?R [Silent, Obtain 1, Silent, Silent, Silent, Silent, Publish 0 5, Silent] (rcu_goto ?s7 0 (W_wait (Some 1) {j. in_section (rcu_pc ?s7 j)}))" (is "labelled _ _ _ ?s8")
    by (rule step [where i = 0]) (rule synchronize, simp_all add: rcu_zero_def cell.truncate_def)
  then have "?R [Silent, Obtain 1, Silent, Silent, Silent, Silent, Publish 0 5, Silent, Show 1 0 0] ((rcu_goto ?s8 1 R_end)\<lparr>cell_seen := cell_seen ?s8 @ [(0, 0)]\<rparr>)" (is "labelled _ _ _ ?s9")
    by (rule step [where i = 1]) (rule second [where p = 1], simp_all add: rcu_zero_def cell.truncate_def)
  then have "?R [Silent, Obtain 1, Silent, Silent, Silent, Silent, Publish 0 5, Silent, Show 1 0 0, Silent] (?s9\<lparr>rcu_pc := (\<lambda>j. section_over 1 (rcu_pc ?s9 j))(1 := Done 0)\<rparr>)" (is "labelled _ _ _ ?s10")
    by (rule step [where i = 1]) (rule read_unlock, simp_all add: rcu_zero_def cell.truncate_def)
  then have "?R [Silent, Obtain 1, Silent, Silent, Silent, Silent, Publish 0 5, Silent, Show 1 0 0, Silent, Silent] (rcu_goto ?s10 0 (W_free (Some 1)))" (is "labelled _ _ _ ?s11")
    by (rule step [where i = 0]) (rule synchronized_now, simp add: rcu_zero_def, auto simp: rcu_zero_def)
  then have "?R [Silent, Obtain 1, Silent, Silent, Silent, Silent, Publish 0 5, Silent, Show 1 0 0, Silent, Silent, Silent] ((rcu_goto ?s11 0 (Done 0))\<lparr>cell_heap := (cell_heap ?s11)(1 := None)\<rparr>)" (is "labelled _ _ _ ?s12")
    by (rule step [where i = 0]) (rule free_old, simp_all add: rcu_zero_def cell.truncate_def)
  moreover have "cell_seen ?s12 = [(0, 0)] \<and> my_ptr ?s12 = Some 2 \<and> (\<forall>i. \<not> writing (rcu_pc ?s12 i))"
    by (simp add: rcu_zero_def)
  ultimately show ?thesis by blast
qed

lemma rcu_overtaken:
  "\<exists>s. reachable rcu_start (rcu_step True False 8) s \<and> cell_seen s = [(0, 0)] \<and> my_ptr s = Some 2 \<and>
     (\<forall>i. \<not> writing (rcu_pc s i))"
  using rcu_overtaken_log labelled_reachable [of rcu_start "rcu_emits 8" _ _ "rcu_step True False 8"]
  by (fastforce simp: rcu_emits_def rcu_step_def)

text \<open>Two writers that read the old pointer before either of them replaced it.\<close>

lemma rcu_raced:
  "\<exists>s. reachable rcu_start (rcu_step False False 8) s \<and> cell_fault s = Some Double_free"
proof -
  let ?R = "reachable rcu_start (rcu_step False False 8)"
  let ?s0 = rcu_zero
  note step = rcu_run [where excl = False and oom = False and n = 8]
  have "?R ?s0" by (rule rcu_zero_start)
  then have "?R (rcu_goto ?s0 0 (W_alloc 5))" (is "reachable _ _ ?s1")
    by (rule step [where i = 0]) (rule call_write, simp_all add: rcu_zero_def cell.truncate_def)
  then have "?R (rcu_goto ?s1 1 (W_alloc 6))" (is "reachable _ _ ?s2")
    by (rule step [where i = 1]) (rule call_write, simp_all add: rcu_zero_def cell.truncate_def)
  then have "?R ((rcu_goto ?s2 0 (W_old 2))\<lparr>cell_heap := (cell_heap ?s2)(2 \<mapsto> 5)\<rparr>)" (is "reachable _ _ ?s3")
    by (rule step [where i = 0]) (rule kmalloc, simp_all add: rcu_zero_def cell.truncate_def)
  then have "?R ((rcu_goto ?s3 1 (W_old 3))\<lparr>cell_heap := (cell_heap ?s3)(3 \<mapsto> 6)\<rparr>)" (is "reachable _ _ ?s4")
    by (rule step [where i = 1]) (rule kmalloc, simp_all add: rcu_zero_def cell.truncate_def)
  then have "?R (rcu_goto ?s4 0 (W_assign 2 (my_ptr ?s4)))" (is "reachable _ _ ?s5")
    by (rule step [where i = 0]) (rule read_old, simp_all add: rcu_zero_def cell.truncate_def)
  then have "?R (rcu_goto ?s5 1 (W_assign 3 (my_ptr ?s5)))" (is "reachable _ _ ?s6")
    by (rule step [where i = 1]) (rule read_old, simp_all add: rcu_zero_def cell.truncate_def)
  then have "?R ((rcu_goto ?s6 0 (W_sync (Some 1)))\<lparr>my_ptr := Some 2\<rparr>)" (is "reachable _ _ ?s7")
    by (rule step [where i = 0]) (rule assign_pointer [where p = 2], simp_all add: rcu_zero_def cell.truncate_def)
  then have "?R ((rcu_goto ?s7 1 (W_sync (Some 1)))\<lparr>my_ptr := Some 3\<rparr>)" (is "reachable _ _ ?s8")
    by (rule step [where i = 1]) (rule assign_pointer [where p = 3], simp_all add: rcu_zero_def cell.truncate_def)
  then have "?R (rcu_goto ?s8 0 (W_wait (Some 1) {j. in_section (rcu_pc ?s8 j)}))" (is "reachable _ _ ?s9")
    by (rule step [where i = 0]) (rule synchronize, simp_all add: rcu_zero_def cell.truncate_def)
  then have "?R (rcu_goto ?s9 1 (W_wait (Some 1) {j. in_section (rcu_pc ?s9 j)}))" (is "reachable _ _ ?s10")
    by (rule step [where i = 1]) (rule synchronize, simp_all add: rcu_zero_def cell.truncate_def)
  then have "?R (rcu_goto ?s10 0 (W_free (Some 1)))" (is "reachable _ _ ?s11")
    by (rule step [where i = 0]) (rule synchronized, simp_all add: rcu_zero_def cell.truncate_def)
  then have "?R (rcu_goto ?s11 1 (W_free (Some 1)))" (is "reachable _ _ ?s12")
    by (rule step [where i = 1]) (rule synchronized, simp_all add: rcu_zero_def cell.truncate_def)
  then have "?R ((rcu_goto ?s12 0 (Done 0))\<lparr>cell_heap := (cell_heap ?s12)(1 := None)\<rparr>)" (is "reachable _ _ ?s13")
    by (rule step [where i = 0]) (rule free_old, simp_all add: rcu_zero_def cell.truncate_def)
  then have "?R (?s13\<lparr>cell_fault := Some Double_free\<rparr>)" (is "reachable _ _ ?s14")
    by (rule step [where i = 1]) (rule free_fault [where p = 1], simp_all add: rcu_zero_def cell.truncate_def)
  moreover have "cell_fault ?s14 = Some Double_free" by simp
  ultimately show ?thesis by blast
qed

subsection \<open>Properties\<close>

text \<open>
  C6. With one writer at a time and no failing allocation the RCU module is safe for any
  number of readers and any interleaving: nobody touches freed memory or frees twice, a
  reader prints the same value before and after its delay, and while no write is under way
  one cell is allocated, the published one, which unloading frees.
\<close>

theorem rcu_single_writer_safe:
  assumes "reachable rcu_start (rcu_step True False n) s"
  shows "cell_fault s = None \<and> (\<forall>(v, v') \<in> set (cell_seen s). v = v') \<and>
    ((\<forall>i. \<not> writing (rcu_pc s i)) \<longrightarrow>
      (\<exists>p c. my_ptr s = Some p \<and> dom (cell_heap s) = {p} \<and>
        simple_rcu_exit (cell.truncate s) = Inr (c, cdev_exit) \<and> cell_heap c = Map.empty \<and> my_ptr c = None))"
proof -
  have inv: "rcu_inv s" by (rule rcu_reachable_inv [OF assms])
  then obtain p where p: "my_ptr s = Some p" "dom (cell_heap s) = insert p (owned_cells (rcu_pc s))"
    by (auto simp: rcu_inv_def)
  have "\<exists>c. dom (cell_heap s) = {p} \<and> simple_rcu_exit (cell.truncate s) = Inr (c, cdev_exit) \<and> cell_heap c = Map.empty \<and> my_ptr c = None"
    if w: "\<forall>i. \<not> writing (rcu_pc s i)"
  proof -
    have "fresh (rcu_pc s i) = None" "retired (rcu_pc s i) = None" for i
      using w [rule_format, of i] by (cases "rcu_pc s i"; simp)+
    then have d: "dom (cell_heap s) = {p}" using p(2) by (simp add: owned_cells_def)
    then have "(cell_heap s)(p := None) = Map.empty" by (auto simp: fun_eq_iff dom_def)
    then show ?thesis
      using d p(1) by (simp add: simple_rcu_exit_def cell_exit_def cell_free_def cell.truncate_def)
  qed
  then show ?thesis using inv p(1) by (auto simp: rcu_inv_def)
qed

theorem rcu_single_writer_safe_witness:
  "\<exists>s p. reachable rcu_start (rcu_step True False 8) s \<and> cell_seen s = [(0, 0)] \<and>
     cell_fault s = None \<and> my_ptr s = Some p \<and> p = 2 \<and> dom (cell_heap s) = {2}"
proof -
  obtain s where s: "reachable rcu_start (rcu_step True False 8) s" "cell_seen s = [(0, 0)]"
      "my_ptr s = Some 2" "\<forall>i. \<not> writing (rcu_pc s i)"
    using rcu_overtaken by blast
  show ?thesis using rcu_single_writer_safe [OF s(1)] s by auto
qed

text \<open>
  Nothing in the RCU module keeps two writers apart, and two at once are fatal: both
  read the same old pointer, both wait for its readers, and both free it.
\<close>

lemma rcu_writers_double_free:
  "\<exists>s. reachable rcu_start (rcu_step False False 8) s \<and> cell_fault s = Some Double_free"
  by (rule rcu_raced)

text \<open>
  C19. With one writer at a time, no schedule keeps a call of the RCU module from returning:
  however the threads inside are scheduled they make at most seven steps each until new
  calls begin, and while one is inside one of those inside can move. In particular a writer
  waits only for sections that can go on to their end, so every grace period ends.
\<close>

theorem rcu_calls_return:
  assumes "reachable rcu_start (rcu_step True False n) s"
    and "((\<lambda>s t. \<exists>i. simple_rcu_ioctl True False n i s t \<and> rcu_pc s i \<noteq> Out) ^^ m) s t"
  shows "m \<le> 7 * card {i. rcu_pc s i \<noteq> Out} \<and>
    ((\<exists>i. rcu_pc t i \<noteq> Out) \<longrightarrow> (\<exists>u i. simple_rcu_ioctl True False n i t u \<and> rcu_pc t i \<noteq> Out))"
  using rcu_calls.calls_return [of m n s t] rcu_reachable_live [OF assms(1)] assms(2) by simp

theorem rcu_calls_return_witness:
  "\<exists>u i. simple_rcu_ioctl True False 8 i (rcu_goto (rcu_goto rcu_zero 1 R_begin) 1 (R_first 1)) u"
proof -
  let ?s = "rcu_goto rcu_zero 1 R_begin"
  have "reachable rcu_start (rcu_step True False 8) rcu_zero" by (rule rcu_zero_start)
  then have r: "reachable rcu_start (rcu_step True False 8) ?s"
    by (rule rcu_run [where i = 1]) (rule read_lock, simp_all add: rcu_zero_def)
  have t: "simple_rcu_ioctl True False 8 1 ?s (rcu_goto ?s 1 (R_first 1))"
    by (rule dereference) (simp_all add: rcu_zero_def)
  have "((\<lambda>s t. \<exists>i. simple_rcu_ioctl True False 8 i s t \<and> rcu_pc s i \<noteq> Out) ^^ 1) ?s (rcu_goto ?s 1 (R_first 1))"
    unfolding relpowp_1 using t by (intro exI [of _ 1]) simp
  from rcu_calls_return [OF r this] have
    "(\<exists>i. rcu_pc (rcu_goto ?s 1 (R_first 1)) i \<noteq> Out) \<longrightarrow>
      (\<exists>u i. simple_rcu_ioctl True False 8 i (rcu_goto ?s 1 (R_first 1)) u \<and> rcu_pc (rcu_goto ?s 1 (R_first 1)) i \<noteq> Out)"
    by (rule conjunct2)
  moreover have "rcu_pc (rcu_goto ?s 1 (R_first 1)) 1 \<noteq> Out" by simp
  ultimately show ?thesis by blast
qed

text \<open>
  C7. With one writer at a time the RCU module is an atomic register: every run, reduced to
  its visible events, is a run of the register, and the published cell holds the register's
  value. A reader prints, twice, the value last published before it dereferenced the
  pointer, whatever was published since.
\<close>

theorem rcu_refines_register:
  assumes "labelled rcu_start (rcu_emits n) es s"
  shows "(\<exists>r. reg_run es reg_zero = Some r \<and> cell_heap s (the (my_ptr s)) = Some (reg_val r)) \<and>
    (\<forall>es1 i fs v v'. es = es1 @ Obtain i # fs @ [Show i v v'] \<longrightarrow> Obtain i \<notin> set fs \<longrightarrow>
      (\<forall>w w'. Show i w w' \<notin> set fs) \<longrightarrow> v = v' \<and> v = last_value 0 es1)"
  using rcu_register.refines [OF assms] rcu_register.shown_was_obtained assms unfolding rcu_reg_def by blast

theorem rcu_refines_register_witness:
  "\<exists>s. cell_seen s = [(0, 0)] \<and> cell_heap (s :: rcu) (the (my_ptr s)) = Some 5"
proof -
  obtain s where s: "cell_seen s = [(0, 0)]" and l: "labelled rcu_start (rcu_emits 8)
      [Silent, Obtain 1, Silent, Silent, Silent, Silent, Publish 0 5, Silent, Show 1 0 0, Silent, Silent, Silent] s"
    using rcu_overtaken_log by blast
  show ?thesis using rcu_refines_register [OF l] s by (auto simp: reg_zero_def)
qed

end
