(* ===== verification/Rwlock.thy ===== *)
theory Rwlock
  imports Value_Cell Draining Register Locking
begin

text \<open>
  lab9/ex1: simple_rwlock.c. Readers and writers are threads of a step relation with one
  step per access to shared data. The lock is state, a number of readers and a writer bit,
  which read_lock and write_lock wait for and change and the unlocks give back; a thread
  that waits for it is inside its call. Shown: mutual exclusion, and from it that any number
  of readers and writers touch no freed memory, free nothing twice, see stable values and
  leak nothing; every call returns, those that wait for the lock included; a run is a run of
  an atomic register.
\<close>

datatype rw_pc =
    Out
  | R_wait \<comment> \<open>in read_lock_irqsave\<close>
  | R_read \<comment> \<open>read lock held, about to test \<open>my_data\<close>\<close>
  | R_first cell_addr
  | R_second cell_addr nat
  | R_end
  | W_wait nat \<comment> \<open>in write_lock_irqsave\<close>
  | W_locked nat \<comment> \<open>write lock held, about to allocate\<close>
  | W_old cell_addr
  | W_assign cell_addr "cell_addr option"
  | W_free "cell_addr option"
  | W_end
  | Done int

record rwl = cell +
  rw_readers :: nat \<comment> \<open>\<open>my_lock\<close>: how many hold it to read\<close>
  rw_writer :: bool \<comment> \<open>\<open>my_lock\<close>: whether one holds it to write\<close>
  rw_pc :: "nat \<Rightarrow> rw_pc"

definition rw_goto :: "rwl \<Rightarrow> nat \<Rightarrow> rw_pc \<Rightarrow> rwl" where
  "rw_goto s i x = s\<lparr>rw_pc := (rw_pc s)(i := x)\<rparr>"

text \<open>Loading (\<open>a\<close> is what kmalloc returns), unloading and the program.\<close>

definition simple_rwlock_init :: "kernel \<Rightarrow> cell_addr option \<Rightarrow> (int \<times> cell \<times> kcall list) result" where
  "simple_rwlock_init k a =
     bindr (cell_init a) (\<lambda>s. bindr (unchecked_cdev_init k) (\<lambda>(r, tr). Inr (r, s, tr)))"

definition simple_rwlock_exit :: "cell \<Rightarrow> (cell \<times> kcall list) result" where
  "simple_rwlock_exit s = bindr (cell_exit s) (\<lambda>s1. Inr (s1, cdev_exit))"

definition simple_rwlock_open :: int where "simple_rwlock_open = 0"
definition simple_rwlock_release :: int where "simple_rwlock_release = 0"

definition simple_rwlock_app_main :: "nat \<Rightarrow> int \<Rightarrow> int \<Rightarrow> int \<Rightarrow> int \<times> cell_call list" where
  "simple_rwlock_app_main = cell_app_main"

lemma simple_rwlock_init_Inr:
  "(\<exists>k a r tr. simple_rwlock_init k a = Inr (r, s, tr)) \<longleftrightarrow> (\<exists>p. cell_init (Some p) = Inr s)"
proof -
  have "\<exists>k. ret_cdev_alloc k" by (rule exI [of _ "k\<lparr>ret_cdev_alloc := True\<rparr>" for k]) simp
  then show ?thesis
    by (auto simp: simple_rwlock_init_def unchecked_cdev_init_def bindr_eq_Inr cell_init_def split: option.splits)
qed

definition rw_start :: "rwl \<Rightarrow> bool" where
  "rw_start s \<longleftrightarrow> (\<exists>k a r tr. simple_rwlock_init k a = Inr (r, cell.truncate s, tr)) \<and>
     rw_readers s = 0 \<and> \<not> rw_writer s \<and> rw_pc s = (\<lambda>_. Out)"

fun read_locked :: "rw_pc \<Rightarrow> bool" where
  "read_locked R_read = True"
| "read_locked (R_first p) = True"
| "read_locked (R_second p v) = True"
| "read_locked R_end = True"
| "read_locked _ = False"

fun write_locked :: "rw_pc \<Rightarrow> bool" where
  "write_locked (W_locked v) = True"
| "write_locked (W_old p) = True"
| "write_locked (W_assign p old) = True"
| "write_locked (W_free old) = True"
| "write_locked W_end = True"
| "write_locked _ = False"

inductive simple_rwlock_ioctl :: "bool \<Rightarrow> nat \<Rightarrow> nat \<Rightarrow> rwl \<Rightarrow> rwl \<Rightarrow> bool"
  for oom :: bool and n :: nat and i :: nat where
  unknown: "rw_pc s i = Out \<Longrightarrow> cmd \<noteq> CELL_IOCTL_READ n \<Longrightarrow> cmd \<noteq> CELL_IOCTL_WRITE n \<Longrightarrow>
    simple_rwlock_ioctl oom n i s (rw_goto s i (Done (- 1)))"
| call_read: "rw_pc s i = Out \<Longrightarrow> cmd = CELL_IOCTL_READ n \<Longrightarrow>
    simple_rwlock_ioctl oom n i s (rw_goto s i R_wait)"
| read_lock: "rw_pc s i = R_wait \<Longrightarrow> \<not> rw_writer s \<Longrightarrow>
    simple_rwlock_ioctl oom n i s ((rw_goto s i R_read)\<lparr>rw_readers := rw_readers s + 1\<rparr>)"
| not_null: "rw_pc s i = R_read \<Longrightarrow> my_ptr s = Some p \<Longrightarrow>
    simple_rwlock_ioctl oom n i s (rw_goto s i (R_first p))"
| null: "rw_pc s i = R_read \<Longrightarrow> my_ptr s = None \<Longrightarrow>
    simple_rwlock_ioctl oom n i s (rw_goto s i R_end)"
| first: "rw_pc s i = R_first p \<Longrightarrow> cell_load p (cell.truncate s) = Inr v \<Longrightarrow>
    simple_rwlock_ioctl oom n i s (rw_goto s i (R_second p v))"
| first_fault: "rw_pc s i = R_first p \<Longrightarrow> cell_load p (cell.truncate s) = Inl e \<Longrightarrow>
    simple_rwlock_ioctl oom n i s (s\<lparr>cell_fault := Some e\<rparr>)"
| second: "rw_pc s i = R_second p v \<Longrightarrow> cell_load p (cell.truncate s) = Inr v' \<Longrightarrow>
    simple_rwlock_ioctl oom n i s ((rw_goto s i R_end)\<lparr>cell_seen := cell_seen s @ [(v, v')]\<rparr>)"
| second_fault: "rw_pc s i = R_second p v \<Longrightarrow> cell_load p (cell.truncate s) = Inl e \<Longrightarrow>
    simple_rwlock_ioctl oom n i s (s\<lparr>cell_fault := Some e\<rparr>)"
| read_unlock: "rw_pc s i = R_end \<Longrightarrow>
    simple_rwlock_ioctl oom n i s ((rw_goto s i (Done 0))\<lparr>rw_readers := rw_readers s - 1\<rparr>)"
| call_write: "rw_pc s i = Out \<Longrightarrow> cmd = CELL_IOCTL_WRITE n \<Longrightarrow>
    simple_rwlock_ioctl oom n i s (rw_goto s i (W_wait arg))"
| write_lock: "rw_pc s i = W_wait arg \<Longrightarrow> \<not> rw_writer s \<Longrightarrow> rw_readers s = 0 \<Longrightarrow>
    simple_rwlock_ioctl oom n i s ((rw_goto s i (W_locked arg))\<lparr>rw_writer := True\<rparr>)"
| kmalloc: "rw_pc s i = W_locked arg \<Longrightarrow> p \<notin> dom (cell_heap s) \<Longrightarrow>
    simple_rwlock_ioctl oom n i s ((rw_goto s i (W_old p))\<lparr>cell_heap := (cell_heap s)(p \<mapsto> arg)\<rparr>)"
| kmalloc_fault: "rw_pc s i = W_locked arg \<Longrightarrow> oom \<Longrightarrow>
    simple_rwlock_ioctl oom n i s (s\<lparr>cell_fault := Some Null_deref\<rparr>)"
| read_old: "rw_pc s i = W_old p \<Longrightarrow>
    simple_rwlock_ioctl oom n i s (rw_goto s i (W_assign p (my_ptr s)))"
| assign: "rw_pc s i = W_assign p old \<Longrightarrow>
    simple_rwlock_ioctl oom n i s ((rw_goto s i (W_free old))\<lparr>my_ptr := Some p\<rparr>)"
| free_none: "rw_pc s i = W_free None \<Longrightarrow> simple_rwlock_ioctl oom n i s (rw_goto s i W_end)"
| free_old: "rw_pc s i = W_free (Some p) \<Longrightarrow> p \<in> dom (cell_heap s) \<Longrightarrow>
    simple_rwlock_ioctl oom n i s ((rw_goto s i W_end)\<lparr>cell_heap := (cell_heap s)(p := None)\<rparr>)"
| free_fault: "rw_pc s i = W_free (Some p) \<Longrightarrow> p \<notin> dom (cell_heap s) \<Longrightarrow>
    simple_rwlock_ioctl oom n i s (s\<lparr>cell_fault := Some Double_free\<rparr>)"
| write_unlock: "rw_pc s i = W_end \<Longrightarrow>
    simple_rwlock_ioctl oom n i s ((rw_goto s i (Done 0))\<lparr>rw_writer := False\<rparr>)"
| return: "rw_pc s i = Done r \<Longrightarrow> simple_rwlock_ioctl oom n i s (rw_goto s i Out)"

inductive_cases simple_rwlock_ioctlE: "simple_rwlock_ioctl oom n i s t"

definition rw_step :: "bool \<Rightarrow> nat \<Rightarrow> rwl \<Rightarrow> rwl \<Rightarrow> bool" where
  "rw_step oom n s t \<longleftrightarrow> (\<exists>i. simple_rwlock_ioctl oom n i s t)"

subsection \<open>The invariant\<close>

text \<open>
  The lock counts the readers inside and tells of a writer, who excludes everybody else; what a reader holds is the published cell with
  its value; what is allocated is the published cell and what the writer owns.
\<close>

definition excluded :: "(nat \<Rightarrow> rw_pc) \<Rightarrow> bool" where
  "excluded pcs \<longleftrightarrow>
     (\<forall>i j. write_locked (pcs i) \<longrightarrow> read_locked (pcs j) \<or> write_locked (pcs j) \<longrightarrow> i = j)"

fun owns :: "rw_pc \<Rightarrow> cell_addr option" where
  "owns (W_old p) = Some p"
| "owns (W_assign p old) = Some p"
| "owns (W_free old) = old"
| "owns _ = None"

definition thread_ok :: "(cell_addr \<rightharpoonup> nat) \<Rightarrow> cell_addr \<Rightarrow> rw_pc \<Rightarrow> bool" where
  "thread_ok h p x \<longleftrightarrow>
     (case x of
        R_first a \<Rightarrow> a = p
      | R_second a v \<Rightarrow> a = p \<and> h p = Some v
      | W_old a \<Rightarrow> a \<noteq> p
      | W_assign a old \<Rightarrow> a \<noteq> p \<and> old = Some p
      | W_free old \<Rightarrow> (\<exists>a. old = Some a \<and> a \<noteq> p)
      | _ \<Rightarrow> True)"

definition owned_by :: "(nat \<Rightarrow> rw_pc) \<Rightarrow> cell_addr set" where
  "owned_by pcs = {a. \<exists>i. owns (pcs i) = Some a}"

definition rw_inv :: "rwl \<Rightarrow> bool" where
  "rw_inv s \<longleftrightarrow> cell_fault s = None \<and> (\<forall>(v, v') \<in> set (cell_seen s). v = v') \<and>
     rwlock_ok read_locked write_locked (rw_readers s) (rw_writer s) (rw_pc s) \<and>
     (\<exists>p. my_ptr s = Some p \<and> (\<forall>i. thread_ok (cell_heap s) p (rw_pc s i)) \<and>
       dom (cell_heap s) = insert p (owned_by (rw_pc s)))"

lemma rw_goto_simps [simp]:
  "cell_heap (rw_goto s i x) = cell_heap s" "my_ptr (rw_goto s i x) = my_ptr s"
  "cell_fault (rw_goto s i x) = cell_fault s" "cell_seen (rw_goto s i x) = cell_seen s"
  "rw_pc (rw_goto s i x) = (rw_pc s)(i := x)" "rw_readers (rw_goto s i x) = rw_readers s"
  "rw_writer (rw_goto s i x) = rw_writer s"
  by (simp_all add: rw_goto_def)

lemma rwlock_excluded: "rwlock_ok read_locked write_locked n w pcs \<Longrightarrow> excluded pcs"
  unfolding excluded_def using rwlock_ok_alone by blast

lemma excludedD: "excluded pcs \<Longrightarrow> write_locked (pcs i) \<Longrightarrow> j \<noteq> i \<Longrightarrow>
    \<not> read_locked (pcs j) \<and> \<not> write_locked (pcs j)"
  unfolding excluded_def by metis

lemma only_writer_owns:
  assumes "excluded pcs" and "write_locked (pcs i)"
  shows "owned_by pcs = set_option (owns (pcs i))"
proof -
  have "owns (pcs j) = None" if "j \<noteq> i" for j
    using excludedD [OF assms that] by (cases "pcs j") auto
  then show ?thesis unfolding owned_by_def by (auto, metis option.distinct(1) option.inject)
qed

lemma others_idle:
  "excluded pcs \<Longrightarrow> write_locked (pcs i) \<Longrightarrow> j \<noteq> i \<Longrightarrow> thread_ok h p (pcs j)"
  using excludedD [of pcs i j] by (cases "pcs j") (auto simp: thread_ok_def)

text \<open>Steps that keep the heap and the pointer.\<close>

lemma rw_inv_go:
  assumes "rw_inv s" and "owns x = owns (rw_pc s i)" and "rwlock_ok read_locked write_locked n w ((rw_pc s)(i := x))"
    and "\<And>p. my_ptr s = Some p \<Longrightarrow> thread_ok (cell_heap s) p (rw_pc s i) \<Longrightarrow> thread_ok (cell_heap s) p x"
    and "\<forall>(v, v') \<in> set vs. v = v'"
  shows "rw_inv ((rw_goto s i x)\<lparr>cell_seen := cell_seen s @ vs, rw_readers := n, rw_writer := w\<rparr>)"
proof -
  have "owns (((rw_pc s)(i := x)) j) = owns (rw_pc s j)" for j
    using assms(2) by simp
  then have "owned_by ((rw_pc s)(i := x)) = owned_by (rw_pc s)"
    by (simp only: owned_by_def)
  then show ?thesis
    using assms(1,3,5) assms(4) by (auto simp: rw_inv_def)
qed

lemma rw_inv_lock:
  assumes "rw_inv s" and "owns x = owns (rw_pc s i)" and "rwlock_ok read_locked write_locked n w ((rw_pc s)(i := x))"
    and "\<And>p. my_ptr s = Some p \<Longrightarrow> thread_ok (cell_heap s) p (rw_pc s i) \<Longrightarrow> thread_ok (cell_heap s) p x"
  shows "rw_inv ((rw_goto s i x)\<lparr>rw_readers := n, rw_writer := w\<rparr>)"
proof -
  have eq: "(rw_goto s i x)\<lparr>cell_seen := cell_seen s @ [], rw_readers := n, rw_writer := w\<rparr> =
      (rw_goto s i x)\<lparr>rw_readers := n, rw_writer := w\<rparr>"
    by (cases s) (simp add: rw_goto_def)
  show ?thesis using rw_inv_go [OF assms, of "[]"] unfolding eq by simp
qed

lemma rw_same_lock:
  "(rw_goto s i x)\<lparr>cell_seen := v, rw_readers := rw_readers s, rw_writer := rw_writer s\<rparr> = (rw_goto s i x)\<lparr>cell_seen := v\<rparr>"
  "(rw_goto s i x)\<lparr>rw_readers := rw_readers s, rw_writer := w\<rparr> = (rw_goto s i x)\<lparr>rw_writer := w\<rparr>"
  "(rw_goto s i x)\<lparr>rw_readers := n, rw_writer := rw_writer s\<rparr> = (rw_goto s i x)\<lparr>rw_readers := n\<rparr>"
  "(rw_goto s i x)\<lparr>rw_writer := rw_writer s\<rparr> = rw_goto s i x"
  by (cases s; simp add: rw_goto_def)+

lemma rw_inv_rwlock: "rw_inv s \<Longrightarrow> rwlock_ok read_locked write_locked (rw_readers s) (rw_writer s) (rw_pc s)"
  by (simp add: rw_inv_def)

lemma rw_inv_pc:
  assumes "rw_inv s" and "owns x = owns (rw_pc s i)" and "read_locked x = read_locked (rw_pc s i)"
    and "write_locked x = write_locked (rw_pc s i)"
    and "\<And>p. my_ptr s = Some p \<Longrightarrow> thread_ok (cell_heap s) p (rw_pc s i) \<Longrightarrow> thread_ok (cell_heap s) p x"
  shows "rw_inv (rw_goto s i x)"
  using rw_inv_lock [OF assms(1,2) rwlock_ok_stay [OF rw_inv_rwlock [OF assms(1)] assms(3,4)] assms(5)]
  by (simp add: rw_same_lock)

text \<open>Steps of the writer on the heap and the pointer.\<close>

lemma rw_inv_writer:
  assumes "rw_inv s" and "write_locked (rw_pc s i)" and "write_locked x"
    and "thread_ok h p x" and "dom h = insert p (set_option (owns x))"
  shows "rw_inv ((rw_goto s i x)\<lparr>my_ptr := Some p, cell_heap := h\<rparr>)"
proof -
  note ok = rw_inv_rwlock [OF assms(1)]
  have "\<not> read_locked (rw_pc s i)" "\<not> read_locked x" using assms(2) assms(3) by (cases "rw_pc s i"; simp) (use assms(3) in \<open>cases x; simp\<close>)
  then have ok': "rwlock_ok read_locked write_locked (rw_readers s) (rw_writer s) ((rw_pc s)(i := x))"
    using assms(2,3) by (intro rwlock_ok_stay [OF ok]) simp_all
  have "thread_ok h p (((rw_pc s)(i := x)) j)" for j
    using others_idle [OF rwlock_excluded [OF ok] assms(2), of j] assms(4) by simp
  moreover have "owned_by ((rw_pc s)(i := x)) = set_option (owns x)"
    using only_writer_owns [OF rwlock_excluded [OF ok'], of i] assms(3) by simp
  moreover have "cell_fault s = None" "\<forall>(v, v') \<in> set (cell_seen s). v = v'"
    using assms(1) by (auto simp: rw_inv_def)
  ultimately show ?thesis
    using ok' assms(5) unfolding rw_inv_def by simp
qed

lemma rw_inv_excluded: "rw_inv s \<Longrightarrow> excluded (rw_pc s)"
  using rwlock_excluded rw_inv_rwlock by blast

lemma rw_writer_heap:
  assumes "rw_inv s" and "write_locked (rw_pc s i)"
  shows "\<exists>p. my_ptr s = Some p \<and> thread_ok (cell_heap s) p (rw_pc s i) \<and>
    dom (cell_heap s) = insert p (set_option (owns (rw_pc s i)))"
  using assms only_writer_owns [of "rw_pc s" i] rw_inv_excluded [of s] by (auto simp: rw_inv_def)

lemma rw_same_ptr:
  "my_ptr s = Some q \<Longrightarrow> (rw_goto s i x)\<lparr>my_ptr := Some q, cell_heap := h\<rparr> = (rw_goto s i x)\<lparr>cell_heap := h\<rparr>"
  "(rw_goto s i x)\<lparr>my_ptr := P, cell_heap := cell_heap s\<rparr> = (rw_goto s i x)\<lparr>my_ptr := P\<rparr>"
  by (cases s; simp add: rw_goto_def)+

lemma rw_inv_no_fault:
  assumes "rw_inv s"
  shows "rw_pc s i = R_first p \<Longrightarrow> p \<in> dom (cell_heap s)" "rw_pc s i = R_second p v \<Longrightarrow> cell_heap s p = Some v"
    "rw_pc s i = W_free old \<Longrightarrow> \<exists>p. old = Some p \<and> p \<in> dom (cell_heap s)"
proof -
  obtain q where q: "my_ptr s = Some q" "thread_ok (cell_heap s) q (rw_pc s i)" "q \<in> dom (cell_heap s)"
    using assms by (auto simp: rw_inv_def)
  then show "rw_pc s i = R_first p \<Longrightarrow> p \<in> dom (cell_heap s)" "rw_pc s i = R_second p v \<Longrightarrow> cell_heap s p = Some v"
    by (auto simp: thread_ok_def)
  assume f: "rw_pc s i = W_free old"
  then show "\<exists>p. old = Some p \<and> p \<in> dom (cell_heap s)"
    using q(2) rw_writer_heap [OF assms, of i] by (auto simp: thread_ok_def)
qed

lemma rw_step_inv: "simple_rwlock_ioctl False n i s t \<Longrightarrow> rw_inv s \<Longrightarrow> rw_inv t"
proof (induction rule: simple_rwlock_ioctl.induct)
  case (second s p v v')
  have "rwlock_ok read_locked write_locked (rw_readers s) (rw_writer s) ((rw_pc s)(i := R_end))"
    using second by (intro rwlock_ok_stay [OF rw_inv_rwlock]) simp_all
  from rw_inv_go [OF second(3) _ this, of "[(v, v')]"]
  have "rw_inv ((rw_goto s i R_end)\<lparr>cell_seen := cell_seen s @ [(v, v')], rw_readers := rw_readers s, rw_writer := rw_writer s\<rparr>)"
    using rw_inv_no_fault(2) [OF second(3,1)] second by (auto simp: cell.truncate_def thread_ok_def)
  then show ?case by (simp only: rw_same_lock)
next
  case (kmalloc s arg p)
  obtain q where q: "my_ptr s = Some q" "dom (cell_heap s) = {q}"
    using rw_writer_heap [OF kmalloc(3), of i] kmalloc(1) by auto
  have "rw_inv ((rw_goto s i (W_old p))\<lparr>my_ptr := Some q, cell_heap := (cell_heap s)(p \<mapsto> arg)\<rparr>)"
    using kmalloc q(2) by (intro rw_inv_writer) (auto simp: thread_ok_def)
  then show ?case by (simp add: rw_same_ptr(1) [OF q(1)])
next
  case (assign s p old)
  obtain q where q: "thread_ok (cell_heap s) q (W_assign p old)" "dom (cell_heap s) = {q, p}"
    using rw_writer_heap [OF assign(2), of i] assign(1) by auto
  have "rw_inv ((rw_goto s i (W_free old))\<lparr>my_ptr := Some p, cell_heap := cell_heap s\<rparr>)"
    using assign q by (intro rw_inv_writer) (auto simp: thread_ok_def)
  then show ?case by (simp add: rw_same_ptr(2))
next
  case (free_old s p)
  obtain q where q: "my_ptr s = Some q" "thread_ok (cell_heap s) q (W_free (Some p))" "dom (cell_heap s) = {q, p}"
    using rw_writer_heap [OF free_old(3), of i] free_old(1) by auto
  have "rw_inv ((rw_goto s i W_end)\<lparr>my_ptr := Some q, cell_heap := (cell_heap s)(p := None)\<rparr>)"
    using free_old q by (intro rw_inv_writer) (auto simp: thread_ok_def)
  then show ?case by (simp add: rw_same_ptr(1) [OF q(1)])
next
  case (read_lock s)
  have "rwlock_ok read_locked write_locked (Suc (rw_readers s)) (rw_writer s) ((rw_pc s)(i := R_read))"
    using rwlock_ok_read [of read_locked write_locked "rw_readers s" "rw_pc s" i R_read] rw_inv_rwlock [OF read_lock(3)] read_lock by simp
  from rw_inv_lock [OF read_lock(3) _ this] show ?case using read_lock(1) by (simp add: rw_same_lock thread_ok_def)
next
  case (read_unlock s)
  have "rwlock_ok read_locked write_locked (rw_readers s - 1) (rw_writer s) ((rw_pc s)(i := Done 0))"
    using read_unlock by (intro rwlock_ok_unread [OF rw_inv_rwlock]) simp_all
  from rw_inv_lock [OF read_unlock(2) _ this] show ?case using read_unlock(1) by (simp add: rw_same_lock thread_ok_def)
next
  case (write_lock s arg)
  have "rwlock_ok read_locked write_locked (rw_readers s) True ((rw_pc s)(i := W_locked arg))"
    using rwlock_ok_write [of read_locked write_locked "rw_pc s" "W_locked arg" i] rw_inv_rwlock [OF write_lock(4)] write_lock by simp
  from rw_inv_lock [OF write_lock(4) _ this] show ?case using write_lock(1) by (simp add: rw_same_lock thread_ok_def)
next
  case (write_unlock s)
  have "rwlock_ok read_locked write_locked (rw_readers s) False ((rw_pc s)(i := Done 0))"
    using write_unlock by (intro rwlock_ok_unwrite [OF rw_inv_rwlock]) simp_all
  from rw_inv_lock [OF write_unlock(2) _ this] show ?case using write_unlock(1) by (simp add: rw_same_lock thread_ok_def)
next
  case (first s p v)
  then show ?case by (intro rw_inv_pc) (auto simp: thread_ok_def cell.truncate_def)
next
  case (second_fault s p v e)
  then show ?case using rw_inv_no_fault(2) by (auto simp: cell.truncate_def)
next
  case (first_fault s p e)
  then show ?case using rw_inv_no_fault(1) by (fastforce simp: cell.truncate_def)
next
  case (free_none s)
  then show ?case using rw_inv_no_fault(3) by fastforce
next
  case (free_fault s p)
  then show ?case using rw_inv_no_fault(3) by fastforce
qed (auto intro!: rw_inv_pc simp: thread_ok_def)

lemma rw_inv_start: "rw_start s \<Longrightarrow> rw_inv s"
  by (auto simp: rw_start_def simple_rwlock_init_Inr cell_init_def cell.truncate_def rw_inv_def rwlock_ok_def
      lock_ok_def thread_ok_def owned_by_def) (metis dom_eq_singleton_conv)

lemma rw_reachable_inv: "reachable rw_start (rw_step False n) s \<Longrightarrow> rw_inv s"
  by (erule reachable_invariant) (auto simp: rw_step_def intro: rw_inv_start rw_step_inv)

subsection \<open>Every call returns\<close>

fun rw_rank :: "rw_pc \<Rightarrow> nat" where
  "rw_rank Out = 0"
| "rw_rank (Done r) = 1"
| "rw_rank R_end = 2"
| "rw_rank (R_second p v) = 3"
| "rw_rank (R_first p) = 4"
| "rw_rank R_read = 5"
| "rw_rank R_wait = 6"
| "rw_rank W_end = 2"
| "rw_rank (W_free old) = 3"
| "rw_rank (W_assign p old) = 4"
| "rw_rank (W_old p) = 5"
| "rw_rank (W_locked v) = 6"
| "rw_rank (W_wait v) = 7"

lemma rw_rank_0 [simp]: "0 < rw_rank x \<longleftrightarrow> x \<noteq> Out"
  by (cases x) auto

definition rw_live :: "rwl \<Rightarrow> bool" where
  "rw_live s \<longleftrightarrow> rw_inv s \<and> finite {i. rw_pc s i \<noteq> Out} \<and> finite (dom (cell_heap s))"

lemma rw_live_step: "simple_rwlock_ioctl False n i s t \<Longrightarrow> rw_live s \<Longrightarrow> rw_live t"
  using rw_step_inv [of n i s t]
  by (auto simp: rw_live_def simp del: fun_upd_apply elim!: simple_rwlock_ioctlE)

text \<open>A thread inside can move unless it waits for the lock, and then one that holds it can.\<close>

lemma rw_can_move:
  assumes "rw_live s" and "rw_pc s i \<noteq> Out" and "rw_pc s i = R_wait \<longrightarrow> \<not> rw_writer s"
    and "\<forall>v. rw_pc s i = W_wait v \<longrightarrow> \<not> rw_writer s \<and> rw_readers s = 0"
  shows "\<exists>t. simple_rwlock_ioctl False n i s t"
proof (cases "rw_pc s i")
  case (R_first p)
  then show ?thesis by (cases "cell_load p (cell.truncate s)") (blast intro: simple_rwlock_ioctl.intros)+
next
  case (R_second p v)
  then show ?thesis by (cases "cell_load p (cell.truncate s)") (blast intro: simple_rwlock_ioctl.intros)+
next
  case (W_locked v)
  obtain p where "p \<notin> dom (cell_heap s)"
    using assms(1) infinite_UNIV_nat ex_new_if_finite unfolding rw_live_def by blast
  then show ?thesis using W_locked by (blast intro: simple_rwlock_ioctl.intros)
next
  case (W_free old)
  then show ?thesis by (cases old) (blast intro: simple_rwlock_ioctl.intros)+
next
  case R_read
  then show ?thesis by (cases "my_ptr s") (blast intro: simple_rwlock_ioctl.intros)+
qed (use assms(2-4) in \<open>blast intro: simple_rwlock_ioctl.intros\<close>)+

lemma rw_some_can_move:
  assumes "rw_live s" and "rw_pc s i \<noteq> Out"
  shows "\<exists>j t. simple_rwlock_ioctl False n j s t \<and> rw_pc s j \<noteq> Out"
proof -
  have ok: "rwlock_ok read_locked write_locked (rw_readers s) (rw_writer s) (rw_pc s)"
    using assms(1) by (simp add: rw_live_def rw_inv_def)
  show ?thesis
  proof (cases "\<exists>j. read_locked (rw_pc s j) \<or> write_locked (rw_pc s j)")
    case True
    then obtain j where j: "read_locked (rw_pc s j) \<or> write_locked (rw_pc s j)" by blast
    then have "rw_pc s j \<noteq> Out" "rw_pc s j \<noteq> R_wait" "rw_pc s j \<noteq> W_wait v" for v by auto
    then show ?thesis using rw_can_move [OF assms(1), of j n] by blast
  next
    case False
    then have "\<not> rw_writer s" "rw_readers s = 0" using rwlock_ok_held [OF ok] by auto
    then show ?thesis using rw_can_move [OF assms, of n] assms(2) by blast
  qed
qed

lemma rw_nearer:
  assumes "simple_rwlock_ioctl False n i s t" and "rw_inv s" and "rw_pc s i \<noteq> Out"
  shows "rw_rank (rw_pc t i) < rw_rank (rw_pc s i)"
  using assms(1)
proof cases
  case (first_fault p e)
  then show ?thesis using rw_inv_no_fault(1) [OF assms(2), of i p] by (auto simp: cell.truncate_def)
next
  case (second_fault p v e)
  then show ?thesis using rw_inv_no_fault(2) [OF assms(2), of i p v] by (auto simp: cell.truncate_def)
next
  case (free_fault p)
  then show ?thesis using rw_inv_no_fault(3) [OF assms(2), of i "Some p"] by auto
qed (use assms(3) in auto)

interpretation rwlock_calls: draining "simple_rwlock_ioctl False n" "\<lambda>s i. rw_rank (rw_pc s i)" rw_live "\<lambda>_. 7"
proof
  fix s t i j
  assume "rw_live s" "simple_rwlock_ioctl False n i s t"
  then show "0 < rw_rank (rw_pc s i) \<Longrightarrow> rw_live t"
    and "0 < rw_rank (rw_pc s i) \<Longrightarrow> rw_rank (rw_pc t i) < rw_rank (rw_pc s i)"
    using rw_live_step rw_nearer by (auto simp: rw_live_def)
  show "j \<noteq> i \<Longrightarrow> rw_rank (rw_pc t j) = rw_rank (rw_pc s j)"
    using \<open>simple_rwlock_ioctl False n i s t\<close> by cases auto
next
  fix s i
  show "rw_rank (rw_pc s i) \<le> 7" by (cases "rw_pc s i") auto
next
  fix s i
  assume "rw_live s" "0 < rw_rank (rw_pc s i)"
  then show "\<exists>j t. simple_rwlock_ioctl False n j s t \<and> 0 < rw_rank (rw_pc s j)"
    using rw_some_can_move [of s i n] by auto
qed (simp add: rw_live_def)

lemma rw_reachable_live: "reachable rw_start (rw_step False n) s \<Longrightarrow> rw_live s"
proof (erule reachable_invariant)
  show "rw_start s \<Longrightarrow> rw_live s" for s
    using rw_inv_start [of s]
    by (auto simp: rw_live_def rw_start_def simple_rwlock_init_Inr cell_init_def cell.truncate_def)
      (metis dom_eq_singleton_conv finite.emptyI finite_insert)
qed (auto simp: rw_step_def intro: rw_live_step)

subsection \<open>An atomic register\<close>

text \<open>
  Assigning the pointer publishes the writer's value, reading it under the read lock
  obtains the current one, and the second print shows both reads.
\<close>

fun rw_event :: "nat \<Rightarrow> (cell_addr \<rightharpoonup> nat) \<Rightarrow> rw_pc \<Rightarrow> rw_pc \<Rightarrow> reg_event" where
  "rw_event i h R_read (R_first p) = Obtain i"
| "rw_event i h (R_second p v) R_end = Show i v (the (h p))"
| "rw_event i h (W_assign p old) (W_free old') = Publish i (the (h p))"
| "rw_event i h _ _ = Silent"

definition rw_emits :: "nat \<Rightarrow> reg_event \<Rightarrow> rwl \<Rightarrow> rwl \<Rightarrow> bool" where
  "rw_emits n e s t \<longleftrightarrow>
     (\<exists>i. simple_rwlock_ioctl False n i s t \<and> e = rw_event i (cell_heap s) (rw_pc s i) (rw_pc t i))"

fun rw_holds :: "rw_pc \<Rightarrow> bool" where
  "rw_holds (R_first p) = True"
| "rw_holds (R_second p v) = True"
| "rw_holds _ = False"

definition rw_reg :: "rwl \<Rightarrow> reg \<Rightarrow> bool" where
  "rw_reg s r \<longleftrightarrow> rw_inv s \<and> cell_heap s (the (my_ptr s)) = Some (reg_val r) \<and>
     (\<forall>i. rw_holds (rw_pc s i) \<longrightarrow> reg_pend r i = Some (reg_val r))"

lemma rw_reg_silent:
  assumes "rw_reg s r" and "rw_inv t" and "my_ptr t = my_ptr s"
    and "cell_heap t (the (my_ptr s)) = cell_heap s (the (my_ptr s))"
    and "\<And>j. rw_holds (rw_pc t j) \<Longrightarrow> rw_holds (rw_pc s j)"
  shows "rw_reg t r"
  using assms by (auto simp: rw_reg_def)

lemma rw_holds_locked: "rw_holds x \<Longrightarrow> read_locked x"
  by (cases x) auto

lemma rw_simulates:
  assumes "rw_emits n e s t" and "rw_reg s r"
  shows "\<exists>r'. reg_next e r = Some r' \<and> rw_reg t r'"
proof -
  obtain i where i: "simple_rwlock_ioctl False n i s t"
      and e: "e = rw_event i (cell_heap s) (rw_pc s i) (rw_pc t i)"
    using assms(1) by (auto simp: rw_emits_def)
  have inv: "rw_inv s" using assms(2) by (simp add: rw_reg_def)
  have inv': "rw_inv t" by (rule rw_step_inv [OF i inv])
  obtain q where q: "my_ptr s = Some q" "q \<in> dom (cell_heap s)" "\<forall>j. thread_ok (cell_heap s) q (rw_pc s j)"
    using inv by (auto simp: rw_inv_def)
  have quiet: ?thesis if "e = Silent" "rw_reg t r" using that by simp
  show ?thesis
    using i
  proof cases
    case (not_null p)
    let ?r = "r\<lparr>reg_pend := (reg_pend r)(i \<mapsto> reg_val r)\<rparr>"
    have "reg_next e r = Some ?r" using e not_null by simp
    moreover have "rw_reg t ?r" using assms(2) inv' not_null by (auto simp: rw_reg_def)
    ultimately show ?thesis by blast
  next
    case (second p v v')
    let ?r = "r\<lparr>reg_pend := (reg_pend r)(i := None)\<rparr>"
    have "thread_ok (cell_heap s) q (R_second p v)" using q(3) second(2) by metis
    then have "p = q" "cell_heap s q = Some v" by (simp_all add: thread_ok_def)
    moreover have "reg_pend r i = cell_heap s q" using assms(2) second(2) q(1) by (simp add: rw_reg_def)
    ultimately have "reg_next e r = Some ?r" using e second by simp
    moreover have "rw_reg t ?r" using assms(2) inv' second by (auto simp: rw_reg_def)
    ultimately show ?thesis by blast
  next
    case (assign p old)
    have "p \<in> dom (cell_heap s)" using rw_writer_heap [OF inv, of i] assign(2) by auto
    then obtain v where v: "cell_heap s p = Some v" by blast
    have none: "\<not> rw_holds (rw_pc s j)" for j
      using excludedD [OF rw_inv_excluded [OF inv], of i j] assign(2) rw_holds_locked by (cases "j = i") auto
    have "reg_next e r = Some (r\<lparr>reg_val := v\<rparr>)" using e assign v by simp
    moreover have "rw_reg t (r\<lparr>reg_val := v\<rparr>)" using inv' assign v none by (auto simp: rw_reg_def)
    ultimately show ?thesis by blast
  next
    case (free_old p)
    have w: "thread_ok (cell_heap s) q (rw_pc s i)" using q(3) by blast
    show ?thesis
      by (rule quiet [OF _ rw_reg_silent [OF assms(2) inv']])
        (use e free_old q(1) w in \<open>auto simp: thread_ok_def split: if_splits\<close>)
  qed (rule quiet [OF _ rw_reg_silent [OF assms(2) inv']]; use e q(1,2) in \<open>auto split: if_splits\<close>)+
qed

lemma rw_event_Show: "rw_event j h x y = Show i v v' \<Longrightarrow> \<exists>p. x = R_second p v"
  by (cases x; cases y) auto

interpretation rw_register: register_current rw_start "rw_emits n" rw_reg
proof
  fix s
  assume "rw_start s"
  then show "rw_reg s reg_zero"
    using rw_inv_start [of s]
    by (auto simp: rw_reg_def rw_start_def simple_rwlock_init_Inr cell_init_def cell.truncate_def reg_zero_def)
      (metis fun_upd_same option.sel)
next
  fix i v v' s t r
  assume "rw_emits n (Show i v v') s t" and r: "rw_reg s r"
  then obtain j where j: "simple_rwlock_ioctl False n j s t"
      "Show i v v' = rw_event j (cell_heap s) (rw_pc s j) (rw_pc t j)"
    by (auto simp: rw_emits_def)
  obtain p where p: "rw_pc s j = R_second p v" using rw_event_Show [OF j(2) [symmetric]] by blast
  obtain q where q: "my_ptr s = Some q" "thread_ok (cell_heap s) q (rw_pc s j)"
    using r by (auto simp: rw_reg_def rw_inv_def)
  then have "cell_heap s q = Some v" using p by (simp add: thread_ok_def)
  then show "v = reg_val r" using r q(1) by (simp add: rw_reg_def)
qed (rule rw_simulates)

subsection \<open>A sample run\<close>

definition rw_zero :: rwl where
  "rw_zero = \<lparr>cell_heap = [1 \<mapsto> 0], my_ptr = Some 1, cell_fault = None, cell_seen = [],
    rw_readers = 0, rw_writer = False, rw_pc = \<lambda>_. Out\<rparr>"

lemma rw_zero_start: "reachable rw_start (rw_step oom n) rw_zero"
  by (rule reach_start) (simp add: rw_start_def rw_zero_def simple_rwlock_init_Inr cell_init_def cell.truncate_def)

lemma rw_run: "reachable rw_start (rw_step oom n) s \<Longrightarrow> simple_rwlock_ioctl oom n i s t \<Longrightarrow>
    reachable rw_start (rw_step oom n) t"
  by (rule reach_step, assumption) (auto simp: rw_step_def)

lemma rw_log:
  "labelled rw_start (rw_emits n) es s \<Longrightarrow> simple_rwlock_ioctl False n i s t \<Longrightarrow>
    es' = es @ [rw_event i (cell_heap s) (rw_pc s i) (rw_pc t i)] \<Longrightarrow> labelled rw_start (rw_emits n) es' t"
  by (simp, rule lab_step) (auto simp: rw_emits_def)

text \<open>
  Thread 0 asks to write while thread 1 reads, waits, and then publishes 5; and the moment
  at which it waits.
\<close>

lemma rw_read_and_write_log:
  "\<exists>s. labelled rw_start (rw_emits 8)
       [Silent, Silent, Silent, Obtain 1, Silent, Show 1 0 0, Silent, Silent, Silent, Silent, Publish 0 5, Silent, Silent] s \<and>
     cell_seen s = [(0, 0)] \<and> my_ptr s = Some 2 \<and>
     (\<forall>i. \<not> write_locked (rw_pc s i))"
proof -
  let ?R = "labelled rw_start (rw_emits 8)"
  let ?s0 = rw_zero
  note step = rw_log [where n = 8]
  have "?R [] ?s0"
    by (rule lab_start) (simp add: rw_start_def rw_zero_def simple_rwlock_init_Inr cell_init_def cell.truncate_def)
  then have "?R [Silent] (rw_goto ?s0 1 R_wait)" (is "labelled _ _ _ ?s1")
    by (rule step [where i = 1]) (rule call_read, simp_all add: rw_zero_def cell.truncate_def)
  then have "?R [Silent, Silent] ((rw_goto ?s1 1 R_read)\<lparr>rw_readers := rw_readers ?s1 + 1\<rparr>)" (is "labelled _ _ _ ?s2")
    by (rule step [where i = 1]) (rule read_lock, simp_all add: rw_zero_def cell.truncate_def)
  then have "?R [Silent, Silent, Silent] (rw_goto ?s2 0 (W_wait 5))" (is "labelled _ _ _ ?s3")
    by (rule step [where i = 0]) (rule call_write, simp_all add: rw_zero_def cell.truncate_def)
  then have "?R [Silent, Silent, Silent, Obtain 1] (rw_goto ?s3 1 (R_first 1))" (is "labelled _ _ _ ?s4")
    by (rule step [where i = 1]) (rule not_null, simp_all add: rw_zero_def cell.truncate_def)
  then have "?R [Silent, Silent, Silent, Obtain 1, Silent] (rw_goto ?s4 1 (R_second 1 0))" (is "labelled _ _ _ ?s5")
    by (rule step [where i = 1]) (rule first, simp_all add: rw_zero_def cell.truncate_def)
  then have "?R [Silent, Silent, Silent, Obtain 1, Silent, Show 1 0 0] ((rw_goto ?s5 1 R_end)\<lparr>cell_seen := cell_seen ?s5 @ [(0, 0)]\<rparr>)" (is "labelled _ _ _ ?s6")
    by (rule step [where i = 1]) (rule second [where p = 1], simp_all add: rw_zero_def cell.truncate_def)
  then have "?R [Silent, Silent, Silent, Obtain 1, Silent, Show 1 0 0, Silent] ((rw_goto ?s6 1 (Done 0))\<lparr>rw_readers := rw_readers ?s6 - 1\<rparr>)" (is "labelled _ _ _ ?s7")
    by (rule step [where i = 1]) (rule read_unlock, simp_all add: rw_zero_def cell.truncate_def)
  then have "?R [Silent, Silent, Silent, Obtain 1, Silent, Show 1 0 0, Silent, Silent] ((rw_goto ?s7 0 (W_locked 5))\<lparr>rw_writer := True\<rparr>)" (is "labelled _ _ _ ?s8")
    by (rule step [where i = 0]) (rule write_lock, simp_all add: rw_zero_def cell.truncate_def)
  then have "?R [Silent, Silent, Silent, Obtain 1, Silent, Show 1 0 0, Silent, Silent, Silent] ((rw_goto ?s8 0 (W_old 2))\<lparr>cell_heap := (cell_heap ?s8)(2 \<mapsto> 5)\<rparr>)" (is "labelled _ _ _ ?s9")
    by (rule step [where i = 0]) (rule kmalloc, simp_all add: rw_zero_def cell.truncate_def)
  then have "?R [Silent, Silent, Silent, Obtain 1, Silent, Show 1 0 0, Silent, Silent, Silent, Silent] (rw_goto ?s9 0 (W_assign 2 (my_ptr ?s9)))" (is "labelled _ _ _ ?s10")
    by (rule step [where i = 0]) (rule read_old, simp_all add: rw_zero_def cell.truncate_def)
  then have "?R [Silent, Silent, Silent, Obtain 1, Silent, Show 1 0 0, Silent, Silent, Silent, Silent, Publish 0 5] ((rw_goto ?s10 0 (W_free (Some 1)))\<lparr>my_ptr := Some 2\<rparr>)" (is "labelled _ _ _ ?s11")
    by (rule step [where i = 0]) (rule assign [where p = 2], simp_all add: rw_zero_def cell.truncate_def)
  then have "?R [Silent, Silent, Silent, Obtain 1, Silent, Show 1 0 0, Silent, Silent, Silent, Silent, Publish 0 5, Silent] ((rw_goto ?s11 0 W_end)\<lparr>cell_heap := (cell_heap ?s11)(1 := None)\<rparr>)" (is "labelled _ _ _ ?s12")
    by (rule step [where i = 0]) (rule free_old, simp_all add: rw_zero_def cell.truncate_def)
  then have "?R [Silent, Silent, Silent, Obtain 1, Silent, Show 1 0 0, Silent, Silent, Silent, Silent, Publish 0 5, Silent, Silent] ((rw_goto ?s12 0 (Done 0))\<lparr>rw_writer := False\<rparr>)" (is "labelled _ _ _ ?s13")
    by (rule step [where i = 0]) (rule write_unlock, simp_all add: rw_zero_def cell.truncate_def)
  moreover have "cell_seen ?s13 = [(0, 0)] \<and> my_ptr ?s13 = Some 2 \<and> (\<forall>i. \<not> write_locked (rw_pc ?s13 i))"
    by (simp add: rw_zero_def)
  ultimately show ?thesis by blast
qed

lemma rw_waiting:
  "\<exists>s. reachable rw_start (rw_step False 8) s \<and> rw_pc s = (\<lambda>_. Out)(1 := R_read, 0 := W_wait 5) \<and> rw_readers s = 1 \<and>
     my_ptr s = Some 1"
proof -
  have "reachable rw_start (rw_step False 8) rw_zero" by (rule rw_zero_start)
  then have "reachable rw_start (rw_step False 8) (rw_goto rw_zero 1 R_wait)" (is "reachable _ _ ?s1")
    by (rule rw_run [where i = 1]) (rule call_read, simp_all add: rw_zero_def)
  then have "reachable rw_start (rw_step False 8) ((rw_goto ?s1 1 R_read)\<lparr>rw_readers := rw_readers ?s1 + 1\<rparr>)" (is "reachable _ _ ?s2")
    by (rule rw_run [where i = 1]) (rule read_lock, simp_all add: rw_zero_def)
  then have "reachable rw_start (rw_step False 8) (rw_goto ?s2 0 (W_wait 5))" (is "reachable _ _ ?s3")
    by (rule rw_run [where i = 0]) (rule call_write, simp_all add: rw_zero_def)
  moreover have "rw_pc ?s3 = (\<lambda>_. Out)(1 := R_read, 0 := W_wait 5) \<and> rw_readers ?s3 = 1 \<and> my_ptr ?s3 = Some 1"
    by (simp add: rw_zero_def)
  ultimately show ?thesis by blast
qed

lemma rw_read_and_write:
  "\<exists>s. reachable rw_start (rw_step False 8) s \<and> cell_seen s = [(0, 0)] \<and> my_ptr s = Some 2 \<and>
     (\<forall>i. \<not> write_locked (rw_pc s i))"
  using rw_read_and_write_log labelled_reachable [of rw_start "rw_emits 8" _ _ "rw_step False 8"]
  by (fastforce simp: rw_emits_def rw_step_def)

subsection \<open>Properties\<close>

text \<open>
  C8. The read-write lock module is safe for any number of readers and writers in any
  interleaving, allocations succeeding: a writer is alone, nobody touches freed memory or
  frees twice, a reader prints the same value before and after its delay, and with no
  writer inside exactly the published cell is allocated, which unloading frees.
\<close>

theorem rwlock_safe:
  assumes "reachable rw_start (rw_step False n) s"
  shows "excluded (rw_pc s) \<and> cell_fault s = None \<and> (\<forall>(v, v') \<in> set (cell_seen s). v = v') \<and>
    ((\<forall>i. \<not> write_locked (rw_pc s i)) \<longrightarrow>
      (\<exists>p c. my_ptr s = Some p \<and> dom (cell_heap s) = {p} \<and>
        simple_rwlock_exit (cell.truncate s) = Inr (c, cdev_exit) \<and> cell_heap c = Map.empty \<and> my_ptr c = None))"
proof -
  have inv: "rw_inv s" by (rule rw_reachable_inv [OF assms])
  then obtain p where p: "my_ptr s = Some p" "dom (cell_heap s) = insert p (owned_by (rw_pc s))"
    by (auto simp: rw_inv_def)
  have "\<exists>c. dom (cell_heap s) = {p} \<and> simple_rwlock_exit (cell.truncate s) = Inr (c, cdev_exit) \<and> cell_heap c = Map.empty \<and> my_ptr c = None"
    if w: "\<forall>i. \<not> write_locked (rw_pc s i)"
  proof -
    have "owns (rw_pc s i) = None" for i
      using w [rule_format, of i] by (cases "rw_pc s i") simp_all
    then have d: "dom (cell_heap s) = {p}" using p(2) by (simp add: owned_by_def)
    then have "(cell_heap s)(p := None) = Map.empty" by (auto simp: fun_eq_iff dom_def)
    then show ?thesis
      using d p(1) by (simp add: simple_rwlock_exit_def cell_exit_def cell_free_def cell.truncate_def)
  qed
  then show ?thesis using inv p(1) rw_inv_excluded [OF inv] by (auto simp: rw_inv_def)
qed

theorem rwlock_safe_witness:
  "\<exists>s. reachable rw_start (rw_step False 8) s \<and> cell_seen s = [(0, 0)] \<and> cell_fault s = None \<and>
     my_ptr s = Some 2 \<and> dom (cell_heap s) = {2}"
proof -
  obtain s where s: "reachable rw_start (rw_step False 8) s" "cell_seen s = [(0, 0)]"
      "my_ptr s = Some 2" "\<forall>i. \<not> write_locked (rw_pc s i)"
    using rw_read_and_write by blast
  show ?thesis using rwlock_safe [OF s(1)] s by auto
qed

text \<open>
  C32. No schedule keeps a call of the read-write lock module from returning: from any
  reachable state, however the threads inside are scheduled, they make at most seven steps
  each until new calls begin, waiting for the lock counting as inside, and while one is
  inside one of those inside can move: who waits for the lock waits for a thread that holds
  it and can go on, so when none can move all calls have returned.
\<close>

theorem rwlock_calls_return:
  assumes "reachable rw_start (rw_step False n) s"
    and "((\<lambda>s t. \<exists>i. simple_rwlock_ioctl False n i s t \<and> rw_pc s i \<noteq> Out) ^^ m) s t"
  shows "m \<le> 7 * card {i. rw_pc s i \<noteq> Out} \<and>
    ((\<exists>i. rw_pc t i \<noteq> Out) \<longrightarrow> (\<exists>u i. simple_rwlock_ioctl False n i t u \<and> rw_pc t i \<noteq> Out))"
  using rwlock_calls.calls_return [of m n s t] rw_reachable_live [OF assms(1)] assms(2) by simp

theorem rwlock_calls_return_witness:
  "\<exists>s t u. reachable rw_start (rw_step False 8) s \<and> rw_pc s 0 = W_wait 5 \<and> rw_readers s = 1 \<and>
     ((\<lambda>s t. \<exists>i. simple_rwlock_ioctl False 8 i s t \<and> rw_pc s i \<noteq> Out) ^^ 1) s t \<and>
     rw_pc t = (\<lambda>_. Out)(1 := R_first 1, 0 := W_wait 5) \<and> (\<exists>i. simple_rwlock_ioctl False 8 i t u)"
proof -
  obtain s where s: "reachable rw_start (rw_step False 8) s" "rw_pc s = (\<lambda>_. Out)(1 := R_read, 0 := W_wait 5)"
      "rw_readers s = 1" "my_ptr s = Some 1"
    using rw_waiting by blast
  let ?t = "rw_goto s 1 (R_first 1)"
  have "simple_rwlock_ioctl False 8 1 s ?t" by (rule not_null) (simp_all add: s(2,4))
  moreover have "rw_pc s 1 \<noteq> Out" by (simp add: s(2))
  ultimately have run: "((\<lambda>s t. \<exists>i. simple_rwlock_ioctl False 8 i s t \<and> rw_pc s i \<noteq> Out) ^^ 1) s ?t"
    unfolding relpowp_1 by blast
  have pcs: "rw_pc ?t = (\<lambda>_. Out)(1 := R_first 1, 0 := W_wait 5)" by (auto simp: s(2) fun_eq_iff)
  then have "\<exists>i. rw_pc ?t i \<noteq> Out" by (intro exI [of _ 1]) simp
  then obtain u i where "simple_rwlock_ioctl False 8 i ?t u"
    using rwlock_calls_return [OF s(1) run] by blast
  moreover have "rw_pc s 0 = W_wait 5" by (simp add: s(2))
  ultimately show ?thesis using s(1,3) run pcs by blast
qed

text \<open>
  C9. The read-write lock module is an atomic register: every run, reduced to its visible
  events, is a run of the register, and a reader prints, twice, the value last published
  before it prints: no writer comes between.
\<close>

theorem rwlock_refines_register:
  assumes "labelled rw_start (rw_emits n) es s"
  shows "(\<exists>r. reg_run es reg_zero = Some r \<and> cell_heap s (the (my_ptr s)) = Some (reg_val r)) \<and>
    (\<forall>es1 i v v'. es = es1 @ [Show i v v'] \<longrightarrow> v = v' \<and> v = last_value 0 es1)"
  using rw_register.refines [OF assms] rw_register.shown_is_current assms unfolding rw_reg_def by blast

theorem rwlock_refines_register_witness:
  "\<exists>s. cell_seen s = [(0, 0)] \<and> cell_heap (s :: rwl) (the (my_ptr s)) = Some 5"
proof -
  obtain s where s: "cell_seen s = [(0, 0)]" and l: "labelled rw_start (rw_emits 8)
      [Silent, Silent, Silent, Obtain 1, Silent, Show 1 0 0, Silent, Silent, Silent, Silent, Publish 0 5, Silent, Silent] s"
    using rw_read_and_write_log by blast
  show ?thesis using rwlock_refines_register [OF l] s by (auto simp: reg_zero_def)
qed

end
