(* ===== verification/Stepper.thy ===== *)
theory Stepper
  imports Kernel "HOL-Library.Signed_Division"
begin

text \<open>
  lab10/ch9: the stepper-motor module. The module drives four coils in half steps; what the
  coils do to the rotor is the abstract side: a rotor position counted in half steps (4096
  to the round) that is pulled to the nearest position of the energised phase. Shown: the
  turn of a call of moveDegree from any position, the turn of the whole load sequence, and
  where the 32-bit arithmetic breaks.
\<close>

subsection \<open>The module\<close>

definition PIN1 :: int where "PIN1 = 6"
definition PIN2 :: int where "PIN2 = 13"
definition PIN3 :: int where "PIN3 = 19"
definition PIN4 :: int where "PIN4 = 26"
definition STEPS :: nat where "STEPS = 8"
definition ONEROUND :: "32 word" where "ONEROUND = 512"

lemmas motor_pins = PIN1_def PIN2_def PIN3_def PIN4_def

definition blue :: "int list" where "blue = [1, 1, 0, 0, 0, 0, 0, 1]"
definition pink :: "int list" where "pink = [0, 1, 1, 1, 0, 0, 0, 0]"
definition yellow :: "int list" where "yellow = [0, 0, 0, 1, 1, 1, 0, 0]"
definition orange :: "int list" where "orange = [0, 0, 0, 0, 0, 1, 1, 1]"

datatype motor_act =
    Call kcall
  | Udelay int
  | Mdelay nat

definition setstep :: "int \<Rightarrow> int \<Rightarrow> int \<Rightarrow> int \<Rightarrow> motor_act list" where
  "setstep p1 p2 p3 p4 =
     map Call [Gpio_set_value PIN1 p1, Gpio_set_value PIN2 p2, Gpio_set_value PIN3 p3, Gpio_set_value PIN4 p4]"

text \<open>The product wraps at 32 bits, the division truncates towards zero.\<close>

definition target_rounds :: "32 word \<Rightarrow> int" where
  "target_rounds degree = sint (degree * ONEROUND) sdiv 360"

definition one_step :: "int \<Rightarrow> nat \<Rightarrow> motor_act list" where
  "one_step delay j = setstep (blue ! j) (pink ! j) (yellow ! j) (orange ! j) @ [Udelay delay]"

definition one_round :: "int \<Rightarrow> int \<Rightarrow> motor_act list" where
  "one_round delay direction =
     (if direction = 0 then concat (map (one_step delay) [0..<STEPS])
      else if direction = 1 then concat (map (one_step delay) (rev [0..<STEPS]))
      else [])"

definition moveDegree :: "32 word \<Rightarrow> int \<Rightarrow> int \<Rightarrow> motor_act list" where
  "moveDegree degree delay direction =
     concat (replicate (nat (target_rounds degree)) (one_round delay direction)) @ setstep 0 0 0 0"

definition simple_motor_init :: "kernel \<Rightarrow> int \<times> motor_act list" where
  "simple_motor_init k =
     (0, map (\<lambda>g. Call (Gpio_request_out_low g (ret_gpio_request k g))) [PIN1, PIN2, PIN3, PIN4] @
       moveDegree 90 3000 0 @ [Mdelay 1200] @
       moveDegree 45 3000 1 @ [Mdelay 1200] @
       moveDegree 45 3000 1 @ [Mdelay 1200] @
       moveDegree 180 3000 0)"

definition simple_motor_exit :: "kcall list" where
  "simple_motor_exit = map Gpio_free [PIN1, PIN2, PIN3, PIN4]"

subsection \<open>The rotor\<close>

text \<open>The levels of the four coils each time the program waits for the rotor to follow.\<close>

type_synonym coils = "int \<times> int \<times> int \<times> int"

fun energised :: "(int \<Rightarrow> int) \<Rightarrow> motor_act list \<Rightarrow> coils list" where
  "energised v [] = []"
| "energised v (Call c # as) = energised (\<lambda>g. pin_after g (v g) c) as"
| "energised v (Udelay d # as) = (v PIN1, v PIN2, v PIN3, v PIN4) # energised v as"
| "energised v (Mdelay d # as) = energised v as"

definition pattern :: "nat \<Rightarrow> coils" where
  "pattern j = (blue ! j, pink ! j, yellow ! j, orange ! j)"

definition phase_of :: "coils \<Rightarrow> nat option" where
  "phase_of q = List.find (\<lambda>j. pattern j = q) [0..<8]"

text \<open>The nearest position of a phase; coils in no phase exert no pull.\<close>

definition pull :: "int \<Rightarrow> nat \<Rightarrow> int" where
  "pull pos ph = pos + ((int ph - pos + 4) mod 8 - 4)"

definition turn :: "int \<Rightarrow> coils \<Rightarrow> int" where
  "turn pos q = (case phase_of q of None \<Rightarrow> pos | Some ph \<Rightarrow> pull pos ph)"

definition rotor :: "int \<Rightarrow> motor_act list \<Rightarrow> int" where
  "rotor pos as = foldl turn pos (energised (\<lambda>_. 0) as)"

text \<open>No pull is further than one half step after the first.\<close>

fun smooth :: "int \<Rightarrow> coils list \<Rightarrow> bool" where
  "smooth pos [] = True"
| "smooth pos (q # qs) = (\<bar>turn pos q - pos\<bar> \<le> 1 \<and> smooth (turn pos q) qs)"

subsection \<open>Rounds\<close>

lemma phase_pattern: "j < 8 \<Longrightarrow> phase_of (pattern j) = Some j"
proof -
  have "\<forall>j < 8. phase_of (pattern j) = Some j"
    by (simp add: phase_of_def pattern_def blue_def pink_def yellow_def orange_def
        upt_rec All_less_Suc2 numeral_eq_Suc)
  then show "j < 8 \<Longrightarrow> phase_of (pattern j) = Some j" by blast
qed

lemma energised_step:
  "\<exists>v'. energised v (one_step d j @ rest) = pattern j # energised v' rest"
  by (simp add: one_step_def setstep_def pattern_def motor_pins) blast

lemma energised_steps:
  "\<exists>v'. energised v (concat (map (one_step d) js) @ rest) = map pattern js @ energised v' rest"
proof (induction js arbitrary: v)
  case Nil
  then show ?case by auto
next
  case (Cons j js)
  obtain v1 where "energised v (one_step d j @ concat (map (one_step d) js) @ rest) =
      pattern j # energised v1 (concat (map (one_step d) js) @ rest)"
    using energised_step by blast
  then show ?case using Cons.IH [of v1] by auto
qed

lemma energised_off [simp]: "energised v (setstep a b c d) = []"
  by (simp add: setstep_def)

lemma energised_rounds:
  "\<exists>v'. energised v (concat (replicate m (concat (map (one_step d) js))) @ rest) =
    concat (replicate m (map pattern js)) @ energised v' rest"
proof (induction m arbitrary: v)
  case 0
  then show ?case by auto
next
  case (Suc m)
  obtain v1 where "energised v (concat (map (one_step d) js) @ concat (replicate m (concat (map (one_step d) js))) @ rest) =
      map pattern js @ energised v1 (concat (replicate m (concat (map (one_step d) js))) @ rest)"
    using energised_steps by blast
  then show ?case using Suc.IH [of v1] by auto
qed

lemma turn_pattern: "j < 8 \<Longrightarrow> turn pos (pattern j) = pull pos j"
  by (simp add: turn_def phase_pattern)

lemma pull_by: "8 dvd pos + d - int ph \<Longrightarrow> - 4 \<le> d \<Longrightarrow> d < 4 \<Longrightarrow> pull pos ph = pos + d"
proof -
  assume "8 dvd pos + d - int ph" and d: "- 4 \<le> d" "d < 4"
  then obtain k where "pos + d - int ph = 8 * k" by (auto simp: dvd_def)
  then have "int ph - pos + 4 = (d + 4) + 8 * (- k)" by simp
  then have "(int ph - pos + 4) mod 8 = (d + 4) mod 8" by (simp only: mod_mult_self2)
  then show ?thesis using d by (simp add: pull_def mod_pos_pos_trivial)
qed

lemma pull_phase: "8 dvd pull pos ph - int ph"
  unfolding pull_def by presburger

text \<open>One round forwards ends seven half steps after phase 0, one backwards seven before phase 7.\<close>

lemma round_forwards:
  "foldl turn pos (map pattern [0..<8]) = pull pos 0 + 7 \<and>
   (smooth pos (map pattern [0..<8]) \<longleftrightarrow> \<bar>pull pos 0 - pos\<bar> \<le> 1)"
proof -
  define r where "r = pull pos 0"
  have r: "8 dvd r" using pull_phase [of pos 0] by (simp add: r_def)
  have "pull r 1 = r + 1" "pull (r + 1) 2 = r + 2" "pull (r + 2) 3 = r + 3" "pull (r + 3) 4 = r + 4"
    "pull (r + 4) 5 = r + 5" "pull (r + 5) 6 = r + 6" "pull (r + 6) 7 = r + 7"
    using r pull_by [of _ 1] by simp_all
  moreover have "map pattern [0..<8] = map pattern [0, 1, 2, 3, 4, 5, 6, 7]"
    by (simp add: upt_rec eval_nat_numeral)
  ultimately show ?thesis
    by (simp add: turn_pattern r_def [symmetric])
qed

lemma round_backwards:
  "foldl turn pos (map pattern (rev [0..<8])) = pull pos 7 - 7 \<and>
   (smooth pos (map pattern (rev [0..<8])) \<longleftrightarrow> \<bar>pull pos 7 - pos\<bar> \<le> 1)"
proof -
  define r where "r = pull pos 7"
  have r: "8 dvd r - 7" using pull_phase [of pos 7] by (simp add: r_def)
  have "pull r 6 = r - 1" "pull (r - 1) 5 = r - 2" "pull (r - 2) 4 = r - 3" "pull (r - 3) 3 = r - 4"
    "pull (r - 4) 2 = r - 5" "pull (r - 5) 1 = r - 6" "pull (r - 6) 0 = r - 7"
    using r pull_by [of _ "- 1"] by simp_all
  moreover have "map pattern (rev [0..<8]) = map pattern [7, 6, 5, 4, 3, 2, 1, 0]"
    by (simp add: upt_rec eval_nat_numeral)
  ultimately show ?thesis
    by (simp add: turn_pattern r_def [symmetric])
qed

lemma smooth_append: "smooth pos (xs @ ys) \<longleftrightarrow> smooth pos xs \<and> smooth (foldl turn pos xs) ys"
  by (induction xs arbitrary: pos) auto

lemma rounds_forwards:
  "foldl turn pos (concat (replicate (Suc m) (map pattern [0..<8]))) = pull pos 0 + 8 * int m + 7 \<and>
   (smooth pos (concat (replicate (Suc m) (map pattern [0..<8]))) \<longleftrightarrow> \<bar>pull pos 0 - pos\<bar> \<le> 1)"
proof (induction m arbitrary: pos)
  case 0
  show ?case using round_forwards by simp
next
  case (Suc m)
  have "8 dvd pull pos 0" using pull_phase [of pos 0] by simp
  then have "pull (pull pos 0 + 7) 0 = pull pos 0 + 8"
    using pull_by [of "pull pos 0 + 7" 1 0] by simp
  then show ?case
    using Suc.IH [of "pull pos 0 + 7"] round_forwards [of pos]
    by (simp only: replicate_Suc [of "Suc m"] concat.simps foldl_append smooth_append) simp
qed

lemma rounds_backwards:
  "foldl turn pos (concat (replicate (Suc m) (map pattern (rev [0..<8])))) = pull pos 7 - 8 * int m - 7 \<and>
   (smooth pos (concat (replicate (Suc m) (map pattern (rev [0..<8])))) \<longleftrightarrow> \<bar>pull pos 7 - pos\<bar> \<le> 1)"
proof (induction m arbitrary: pos)
  case 0
  show ?case using round_backwards by simp
next
  case (Suc m)
  have "8 dvd pull pos 7 - 7" using pull_phase [of pos 7] by simp
  then have "8 dvd pull pos 7 - 15" by presburger
  then have "pull (pull pos 7 - 7) 7 = pull pos 7 - 8"
    using pull_by [of "pull pos 7 - 7" "- 1" 7] by (simp add: algebra_simps)
  then show ?case
    using Suc.IH [of "pull pos 7 - 7"] round_backwards [of pos]
    by (simp only: replicate_Suc [of "Suc m"] concat.simps foldl_append smooth_append) simp
qed

subsection \<open>Calls of moveDegree\<close>

definition cycle :: "int \<Rightarrow> coils list" where
  "cycle direction =
     (if direction = 0 then map pattern [0..<8]
      else if direction = 1 then map pattern (rev [0..<8]) else [])"

lemma energised_move:
  "\<exists>v'. energised v (moveDegree degree d direction @ rest) =
     concat (replicate (nat (target_rounds degree)) (cycle direction)) @ energised v' rest"
proof -
  let ?js = "if direction = 0 then [0..<STEPS] else if direction = 1 then rev [0..<STEPS] else []"
  have "one_round d direction = concat (map (one_step d) ?js)" "cycle direction = map pattern ?js"
    by (simp_all add: one_round_def cycle_def STEPS_def)
  then obtain v1 where "energised v (moveDegree degree d direction @ rest) =
      concat (replicate (nat (target_rounds degree)) (cycle direction)) @ energised v1 (setstep 0 0 0 0 @ rest)"
    using energised_rounds [of v "nat (target_rounds degree)" d ?js "setstep 0 0 0 0 @ rest"]
    by (auto simp: moveDegree_def)
  moreover have "\<exists>v'. energised v1 (setstep 0 0 0 0 @ rest) = energised v' rest"
    by (simp add: setstep_def) blast
  ultimately show ?thesis by auto
qed

lemma cycles_turn:
  "foldl turn pos (concat (replicate m (cycle direction))) =
     (if m = 0 \<or> direction \<noteq> 0 \<and> direction \<noteq> 1 then pos
      else if direction = 0 then pull pos 0 + 8 * int m - 1 else pull pos 7 - 8 * int m + 1)"
proof (cases m)
  case (Suc l)
  consider "direction = 0" | "direction = 1" | "direction \<noteq> 0 \<and> direction \<noteq> 1" by blast
  then show ?thesis
  proof cases
    case 1
    then show ?thesis using rounds_forwards [of pos l] by (simp add: cycle_def Suc del: upt_rec_numeral)
  next
    case 2
    then show ?thesis using rounds_backwards [of pos l] by (simp add: cycle_def Suc del: upt_rec_numeral)
  next
    case 3
    have "concat (replicate k []) = []" for k by (induction k) auto
    then show ?thesis using 3 by (simp add: cycle_def del: replicate.simps)
  qed
qed simp

lemma cycles_smooth:
  "smooth pos (concat (replicate m (cycle direction))) \<longleftrightarrow>
     m = 0 \<or> direction \<noteq> 0 \<and> direction \<noteq> 1 \<or>
     (if direction = 0 then \<bar>pull pos 0 - pos\<bar> \<le> 1 else \<bar>pull pos 7 - pos\<bar> \<le> 1)"
proof (cases m)
  case (Suc l)
  have "concat (replicate k []) = []" for k by (induction k) auto
  then show ?thesis
    using rounds_forwards [of pos l] rounds_backwards [of pos l]
    by (simp add: cycle_def Suc del: upt_rec_numeral replicate.simps)
qed simp

text \<open>The 32-bit product, where it is exact and where it is not.\<close>

lemma sint_degree: "sint (word_of_int d * ONEROUND) = signed_take_bit 31 (d * 512)"
proof -
  have "word_of_int d * ONEROUND = (word_of_int (d * 512) :: 32 word)"
    by (simp add: ONEROUND_def)
  then show ?thesis by (simp only: sint_sbintrunc') simp
qed

lemma target_exact:
  "0 \<le> d \<Longrightarrow> d < 4194304 \<Longrightarrow> target_rounds (word_of_int d) = d * 512 div 360"
  by (simp add: target_rounds_def sint_degree signed_take_bit_int_eq_self signed_divide_int_def sgn_if)

fun motor_calls :: "motor_act list \<Rightarrow> kcall list" where
  "motor_calls [] = []"
| "motor_calls (Call c # as) = c # motor_calls as"
| "motor_calls (_ # as) = motor_calls as"

lemma motor_calls_append: "motor_calls (xs @ ys) = motor_calls xs @ motor_calls ys"
  by (induction xs rule: motor_calls.induct) auto

lemma move_ends_off:
  "g \<in> {PIN1, PIN2, PIN3, PIN4} \<Longrightarrow> pin_level g v (motor_calls (moveDegree degree d direction)) = 0"
  by (auto simp: moveDegree_def motor_calls_append pin_level_append setstep_def motor_pins)

lemma target_negative:
  "4194304 \<le> d \<Longrightarrow> d < 8388608 \<Longrightarrow> target_rounds (word_of_int d) \<le> 0"
proof -
  assume d: "4194304 \<le> d" "d < 8388608"
  have "signed_take_bit 31 (d * 512) = signed_take_bit 31 (d * 512 - 4294967296)"
    using mod_add_self2 [of "d * 512 - 2147483648" 4294967296]
    by (simp add: signed_take_bit_eq_take_bit_shift take_bit_eq_mod add.commute)
  also have "\<dots> = d * 512 - 4294967296"
    using d by (intro signed_take_bit_int_eq_self) simp_all
  finally have "sint (word_of_int d * ONEROUND) < 0" using d by (simp add: sint_degree)
  then show ?thesis
    by (simp add: target_rounds_def signed_divide_int_def sgn_if pos_imp_zdiv_nonneg_iff)
qed

subsection \<open>Properties\<close>

text \<open>
  C18. A call of moveDegree for an angle of 0 to 4194303 degrees turns the rotor, from any
  position, by whole rounds of eight half steps in the asked direction, as many as fit the
  angle (less than one round short of it), after the pull to the first phase, never
  skipping a half step after that pull, and leaves all four coils off. Any other direction
  does not turn it.
\<close>

theorem move_degree_turns:
  assumes "0 \<le> d" and "d < 4194304"
  shows "let n = d * 512 div 360; as = moveDegree (word_of_int d) delay direction in
    360 * n \<le> 512 * d \<and> 512 * d < 360 * (n + 1) \<and>
    rotor pos as =
      (if n = 0 \<or> direction \<noteq> 0 \<and> direction \<noteq> 1 then pos
       else if direction = 0 then pull pos 0 + 8 * n - 1 else pull pos 7 - 8 * n + 1) \<and>
    (smooth pos (energised (\<lambda>_. 0) as) \<longleftrightarrow>
      n = 0 \<or> direction \<noteq> 0 \<and> direction \<noteq> 1 \<or>
      (if direction = 0 then \<bar>pull pos 0 - pos\<bar> \<le> 1 else \<bar>pull pos 7 - pos\<bar> \<le> 1)) \<and>
    (\<forall>v. pin_level PIN1 v (motor_calls as) = 0 \<and> pin_level PIN2 v (motor_calls as) = 0 \<and>
      pin_level PIN3 v (motor_calls as) = 0 \<and> pin_level PIN4 v (motor_calls as) = 0)"
proof -
  define n where "n = d * 512 div 360"
  let ?as = "moveDegree (word_of_int d) delay direction"
  have n: "0 \<le> n" "360 * n \<le> 512 * d" "512 * d < 360 * (n + 1)"
    using assms(1) by (simp_all add: n_def pos_imp_zdiv_nonneg_iff)
  have e: "energised (\<lambda>_. 0) ?as = concat (replicate (nat n) (cycle direction))"
    using energised_move [of "\<lambda>_. 0" "word_of_int d" delay direction "[]"] target_exact [OF assms]
    by (auto simp: n_def)
  have "smooth pos (concat (replicate (nat n) (cycle direction))) \<longleftrightarrow>
      n = 0 \<or> direction \<noteq> 0 \<and> direction \<noteq> 1 \<or>
      (if direction = 0 then \<bar>pull pos 0 - pos\<bar> \<le> 1 else \<bar>pull pos 7 - pos\<bar> \<le> 1)"
    using cycles_smooth [of pos "nat n" direction] n(1) by simp
  moreover have "rotor pos ?as =
      (if n = 0 \<or> direction \<noteq> 0 \<and> direction \<noteq> 1 then pos
       else if direction = 0 then pull pos 0 + 8 * n - 1 else pull pos 7 - 8 * n + 1)"
    using n(1) unfolding rotor_def e cycles_turn by simp
  ultimately show ?thesis
    using n by (simp add: Let_def n_def [symmetric] e move_ends_off)
qed

theorem move_degree_turns_witness:
  "rotor 7 (moveDegree 90 3000 0) = 1031 \<and> 90 * 512 div 360 = (128 :: int)"
  using move_degree_turns [of 90 3000 0 7] by (simp add: Let_def pull_def)

text \<open>
  Loading the motor module turns the rotor a quarter forwards, two eighths back and a
  half forwards: from the position of phase 0 it ends 2047 half steps further, so with the
  first half step into phase 0 it has made half a round of 4096, and no half step is
  skipped when the rotor starts within one half step of phase 0.
\<close>

lemma motor_init_half_turn:
  "fst (simple_motor_init k) = 0 \<and> rotor pos (snd (simple_motor_init k)) = pull pos 0 + 2047 \<and>
   (smooth pos (energised (\<lambda>_. 0) (snd (simple_motor_init k))) \<longleftrightarrow> \<bar>pull pos 0 - pos\<bar> \<le> 1)"
proof -
  define r where "r = pull pos 0"
  have r: "8 dvd r" using pull_phase [of pos 0] by (simp add: r_def)
  let ?f = "\<lambda>m. concat (replicate m (cycle 0))" and ?b = "\<lambda>m. concat (replicate m (cycle 1))"
  have t: "nat (target_rounds 90) = 128" "nat (target_rounds 45) = 64" "nat (target_rounds 180) = 256"
    using target_exact [of 90] target_exact [of 45] target_exact [of 180] by simp_all
  let ?m4 = "moveDegree 180 3000 0"
  let ?m3 = "moveDegree 45 3000 1 @ [Mdelay 1200] @ ?m4"
  let ?m2 = "moveDegree 45 3000 1 @ [Mdelay 1200] @ ?m3"
  have 4: "energised v ?m4 = ?f 256" for v
    using energised_move [of v 180 3000 0 "[]"] t(3) by auto
  have 3: "energised v ?m3 = ?b 64 @ ?f 256" for v
    using energised_move [of v 45 3000 1 "[Mdelay 1200] @ ?m4"] t(2) 4 by auto
  have 2: "energised v ?m2 = ?b 64 @ ?b 64 @ ?f 256" for v
    using energised_move [of v 45 3000 1 "[Mdelay 1200] @ ?m3"] t(2) 3 by auto
  have 1: "energised v (moveDegree 90 3000 0 @ [Mdelay 1200] @ ?m2) = ?f 128 @ ?b 64 @ ?b 64 @ ?f 256" for v
    using energised_move [of v 90 3000 0 "[Mdelay 1200] @ ?m2"] t(1) 2 by auto
  have e: "energised (\<lambda>_. 0) (snd (simple_motor_init k)) = ?f 128 @ ?b 64 @ ?b 64 @ ?f 256"
    unfolding simple_motor_init_def by (simp add: 1 [simplified])
  have p: "pull (1023 + r) 7 = 1023 + r" "pull (512 + r) 7 = 511 + r" "pull r 0 = r"
    using r pull_by [of "r + 1023" 0 7] pull_by [of "r + 512" "- 1" 7] pull_by [of r 0 0]
    by (simp_all add: add.commute [of r])
  show ?thesis
    unfolding rotor_def e foldl_append smooth_append cycles_turn cycles_smooth
    by (simp add: simple_motor_init_def r_def [symmetric] p)
qed

text \<open>
  From 4194304 degrees up the 32-bit product of moveDegree is negative, so instead of
  turning it only switches the coils off.
\<close>

lemma move_degree_overflow:
  assumes "4194304 \<le> d" and "d < 8388608"
  shows "moveDegree (word_of_int d) delay direction = setstep 0 0 0 0 \<and>
    rotor pos (moveDegree (word_of_int d) delay direction) = pos"
  using target_negative [OF assms] by (simp add: moveDegree_def rotor_def)

lemma move_degree_overflow_example:
  "moveDegree 4194304 3000 0 = setstep 0 0 0 0 \<and> moveDegree 4194303 3000 0 \<noteq> setstep 0 0 0 0"
proof -
  have "rotor 0 (moveDegree 4194303 3000 0) \<noteq> 0"
    using energised_move [of "\<lambda>_. 0" 4194303 3000 0 "[]"] target_exact [of 4194303]
    by (auto simp: rotor_def cycles_turn pull_def)
  then show ?thesis
    using move_degree_overflow [of 4194304 3000 0 0] by (auto simp: rotor_def)
qed

end
