(* ===== verification/Pir_Led.thy ===== *)
theory Pir_Led
  imports Kernel
begin

text \<open>
  lab8/ch7: the motion sensor that lights an LED for ten seconds. The state is the module's
  variables together with the kernel's clock and the pending timer; time moves in jiffies,
  of which \<open>hz\<close> make a second. Shown: the LED is lit exactly while the last detection is
  less than ten seconds old, a detection while lit blinks the LED off first, loading and
  unloading are balanced, and an interrupt during unloading leaves a timer behind.
\<close>

definition PIR_GPIO :: int where "PIR_GPIO = 17"
definition LED_GPIO :: int where "LED_GPIO = 5"

record pir =
  pir_irq :: int
  led_on :: bool
  jiffies :: nat
  led_timer :: "nat option" \<comment> \<open>when the pending timer expires\<close>

subsection \<open>The timer function and the interrupt handler\<close>

definition led_timer_func :: "pir \<Rightarrow> pir \<times> kcall list" where
  "led_timer_func s =
     (s\<lparr>led_on := False\<rparr>,
      [Take_lock ''led_lock'', Gpio_set_value LED_GPIO 0, Drop_lock ''led_lock''])"

definition pir_irq_handler :: "nat \<Rightarrow> pir \<Rightarrow> pir \<times> kcall list" where
  "pir_irq_handler hz s =
     (s\<lparr>led_on := True, led_timer := Some (jiffies s + 10 * hz)\<rparr>,
      [Take_lock ''led_lock''] @ (if led_on s then [Gpio_set_value LED_GPIO 0] else []) @
      [Gpio_set_value LED_GPIO 1, Mod_timer (jiffies s + 10 * hz), Drop_lock ''led_lock''])"

subsection \<open>Loading and unloading\<close>

definition ch7_mod_init :: "kernel \<Rightarrow> pir \<Rightarrow> int \<times> pir \<times> kcall list" where
  "ch7_mod_init k s =
     (let ret = ret_gpio_request k PIR_GPIO; t1 = [Gpio_request PIR_GPIO ret] in
      if ret \<noteq> 0 then (ret, s, t1)
      else let ret = ret_gpio_input k PIR_GPIO; t2 = t1 @ [Gpio_direction_input PIR_GPIO ret] in
      if ret \<noteq> 0 then (ret, s, t2 @ [Gpio_free PIR_GPIO])
      else let ret = ret_gpio_request k LED_GPIO; t3 = t2 @ [Gpio_request LED_GPIO ret] in
      if ret \<noteq> 0 then (ret, s, t3 @ [Gpio_free PIR_GPIO])
      else let ret = ret_gpio_output k LED_GPIO; t4 = t3 @ [Gpio_direction_output LED_GPIO 0 ret] in
      if ret \<noteq> 0 then (ret, s, t4 @ [Gpio_free LED_GPIO, Gpio_free PIR_GPIO])
      else let s = s\<lparr>led_timer := None, pir_irq := ret_gpio_to_irq k PIR_GPIO\<rparr>;
               t5 = t4 @ [Timer_setup, Gpio_to_irq PIR_GPIO (pir_irq s)] in
      if pir_irq s < 0 then (pir_irq s, s, t5 @ [Gpio_free LED_GPIO, Gpio_free PIR_GPIO])
      else let ret = ret_request_irq k (pir_irq s); t6 = t5 @ [Request_irq (pir_irq s) ret] in
      if ret \<noteq> 0 then (ret, s, t6 @ [Del_timer_sync, Gpio_free LED_GPIO, Gpio_free PIR_GPIO])
      else (0, s, t6))"

text \<open>Unloading; with \<open>irq\<close> a detection arrives after the timer was deleted.\<close>

definition ch7_mod_exit :: "nat \<Rightarrow> bool \<Rightarrow> pir \<Rightarrow> pir \<times> kcall list" where
  "ch7_mod_exit hz irq s =
     (let s1 = s\<lparr>led_timer := None\<rparr>;
          (s2, t2) = (if irq then pir_irq_handler hz s1 else (s1, []))
      in (s2\<lparr>led_on := False\<rparr>,
          [Del_timer_sync] @ t2 @
          [Free_irq (pir_irq s2), Gpio_set_value LED_GPIO 0, Gpio_free LED_GPIO, Gpio_free PIR_GPIO]))"

subsection \<open>Time\<close>

datatype pir_event = Detect | Tick

text \<open>The clock advances; a timer that is due runs at once.\<close>

fun pir_handle :: "nat \<Rightarrow> pir_event \<Rightarrow> pir \<Rightarrow> pir \<times> kcall list" where
  "pir_handle hz Detect s = pir_irq_handler hz s"
| "pir_handle hz Tick s =
     (let s1 = s\<lparr>jiffies := jiffies s + 1\<rparr> in
      case led_timer s1 of
        None \<Rightarrow> (s1, [])
      | Some t \<Rightarrow> if t \<le> jiffies s1 then led_timer_func (s1\<lparr>led_timer := None\<rparr>) else (s1, []))"

text \<open>What should be seen: jiffies since the last detection, if there was one.\<close>

fun since :: "nat option \<Rightarrow> pir_event list \<Rightarrow> nat option" where
  "since d [] = d"
| "since d (Detect # es) = since (Some 0) es"
| "since d (Tick # es) = since (map_option Suc d) es"

definition recent :: "nat \<Rightarrow> nat option \<Rightarrow> bool" where
  "recent hz d \<longleftrightarrow> (case d of None \<Rightarrow> False | Some n \<Rightarrow> n < 10 * hz)"

subsection \<open>Library lemmas\<close>

definition pir_owned :: "pir \<Rightarrow> kres multiset" where
  "pir_owned s = {#Gpio PIR_GPIO, Gpio LED_GPIO, Irq (pir_irq s)#}"

lemma led_timer_func_ledger:
  "led_timer_func s = (s', tr) \<Longrightarrow> ledger H tr = Some H \<and> pir_irq s' = pir_irq s"
  by (auto simp: led_timer_func_def)

lemma pir_irq_handler_ledger:
  "pir_irq_handler hz s = (s', tr) \<Longrightarrow> ledger H tr = Some H \<and> pir_irq s' = pir_irq s"
  by (auto simp: pir_irq_handler_def)

lemma pir_handle_ledger:
  "pir_handle hz e s = (s', tr) \<Longrightarrow> ledger H tr = Some H \<and> pir_irq s' = pir_irq s"
  by (cases e) (auto simp: Let_def pir_irq_handler_ledger dest: led_timer_func_ledger
      split: option.splits if_splits)

lemma pir_init_ledger:
  "ch7_mod_init k s = (r, s', tr) \<Longrightarrow> ledger {#} tr = Some (if r = 0 then pir_owned s' else {#})"
  by (auto simp: ch7_mod_init_def Let_def pir_owned_def PIR_GPIO_def LED_GPIO_def split: if_splits)

lemma pir_exit_ledger:
  "ch7_mod_exit hz irq s = (s', tr) \<Longrightarrow> ledger (pir_owned s) tr = Some {#}"
  by (auto simp: ch7_mod_exit_def Let_def ledger_append pir_irq_handler_def pir_owned_def
      PIR_GPIO_def LED_GPIO_def split: if_splits prod.splits)

interpretation pir_module: kmodule ch7_mod_init "pir_handle hz" "ch7_mod_exit hz irq" pir_owned
  for hz irq
proof (unfold_locales, goal_cases)
  case (1 k s r s' tr)
  then show ?case using pir_init_ledger by fastforce
next
  case (2 k s s' tr)
  then show ?case using pir_init_ledger by fastforce
next
  case (3 h s s' tr)
  then show ?case by (metis pir_handle_ledger pir_owned_def)
next
  case (4 s s' tr)
  then show ?case by (rule pir_exit_ledger)
qed

text \<open>
  The state agrees with the age \<open>d\<close> of the last detection: the LED is on, and the timer
  pending for the right moment, exactly while it is recent.
\<close>

definition pir_agrees :: "nat \<Rightarrow> nat option \<Rightarrow> pir \<Rightarrow> int \<Rightarrow> bool" where
  "pir_agrees hz d s v \<longleftrightarrow> led_on s = recent hz d \<and> v = of_bool (led_on s) \<and>
     (case d of None \<Rightarrow> led_timer s = None
      | Some n \<Rightarrow> n \<le> jiffies s \<and> led_timer s = (if recent hz d then Some (jiffies s - n + 10 * hz) else None))"

lemma pir_agrees_detect:
  assumes "pir_agrees hz d s v" and "0 < hz"
  shows "pir_agrees hz (Some 0) (fst (pir_irq_handler hz s)) (pin_level LED_GPIO v (snd (pir_irq_handler hz s)))"
  using assms by (auto simp: pir_agrees_def pir_irq_handler_def recent_def pin_level_append)

lemma pir_agrees_tick:
  assumes "pir_agrees hz d s v" and "pir_handle hz Tick s = (s', tr)"
  shows "pir_agrees hz (map_option Suc d) s' (pin_level LED_GPIO v tr)"
  using assms
  by (auto simp: pir_agrees_def recent_def Let_def led_timer_func_def split: option.splits if_splits)

lemma pir_agrees_run:
  "pir_agrees hz d s v \<Longrightarrow> 0 < hz \<Longrightarrow> run_handlers (pir_handle hz) es s = (s', tr) \<Longrightarrow>
    pir_agrees hz (since d es) s' (pin_level LED_GPIO v tr)"
proof (induction es arbitrary: d s v tr)
  case Nil
  then show ?case by simp
next
  case (Cons e es)
  obtain s1 t1 where h: "pir_handle hz e s = (s1, t1)" by force
  obtain t2 where r: "run_handlers (pir_handle hz) es s1 = (s', t2)" and tr: "tr = t1 @ t2"
    using Cons.prems(3) h by (auto split: prod.splits)
  show ?case
  proof (cases e)
    case Detect
    then have "pir_agrees hz (Some 0) s1 (pin_level LED_GPIO v t1)"
      using pir_agrees_detect [OF Cons.prems(1,2)] h by simp
    then show ?thesis using Cons.IH [OF _ Cons.prems(2) r] Detect by (simp add: tr pin_level_append)
  next
    case Tick
    then have "pir_agrees hz (map_option Suc d) s1 (pin_level LED_GPIO v t1)"
      using pir_agrees_tick [OF Cons.prems(1)] h by simp
    then show ?thesis using Cons.IH [OF _ Cons.prems(2) r] Tick by (simp add: tr pin_level_append)
  qed
qed

lemma pir_init_success:
  assumes "ch7_mod_init k s = (0, s', tr)"
  shows "led_on s' = led_on s \<and> led_timer s' = None \<and> pin_level LED_GPIO v tr = 0"
  using assms
  by (auto simp: ch7_mod_init_def Let_def PIR_GPIO_def LED_GPIO_def split: if_splits)

subsection \<open>Properties\<close>

text \<open>
  C16. After a successful load, and after any detections and any passing of time, the LED of
  the motion sensor is lit, and its timer pending, exactly when the last detection is less
  than ten seconds old; the next detection then first switches a lit LED off and on again,
  and switches a dark one on.
\<close>

theorem pir_led_ten_seconds:
  assumes "ch7_mod_init k s = (0, s1, t1)" and "\<not> led_on s" and "0 < hz"
    and "run_handlers (pir_handle hz) es s1 = (s2, t2)"
  shows "pin_level LED_GPIO v (t1 @ t2) = of_bool (recent hz (since None es)) \<and>
    (led_timer s2 \<noteq> None \<longleftrightarrow> recent hz (since None es)) \<and>
    pin_writes LED_GPIO (snd (pir_irq_handler hz s2)) = (if recent hz (since None es) then [0, 1] else [1])"
proof -
  have i: "pir_agrees hz None s1 (pin_level LED_GPIO v t1)"
    using pir_init_success [OF assms(1), of v] assms(2) by (simp add: pir_agrees_def recent_def)
  have a: "pir_agrees hz (since None es) s2 (pin_level LED_GPIO v (t1 @ t2))"
    using pir_agrees_run [OF i assms(3,4)] by (simp add: pin_level_append)
  then have "led_on s2 = recent hz (since None es)" by (simp add: pir_agrees_def)
  moreover have "led_timer s2 \<noteq> None \<longleftrightarrow> recent hz (since None es)"
    using a by (auto simp: pir_agrees_def recent_def split: option.splits if_splits)
  ultimately show ?thesis
    using a by (simp add: pir_agrees_def pir_irq_handler_def)
qed

definition pir_static :: pir where
  "pir_static = \<lparr>pir_irq = 0, led_on = False, jiffies = 100, led_timer = None\<rparr>"

theorem pir_led_ten_seconds_witness:
  "\<exists>s1 t1 s2 t2. ch7_mod_init all_ok pir_static = (0, s1, t1) \<and>
     run_handlers (pir_handle 1) ([Detect, Tick, Tick, Tick, Tick, Detect] @ replicate 9 Tick) s1 = (s2, t2) \<and>
     pin_level LED_GPIO 0 (t1 @ t2) = 1"
proof -
  obtain s1 t1 where i: "ch7_mod_init all_ok pir_static = (0, s1, t1)"
    by (auto simp: ch7_mod_init_def all_ok_def Let_def PIR_GPIO_def)
  obtain s2 t2 where r: "run_handlers (pir_handle 1) ([Detect, Tick, Tick, Tick, Tick, Detect] @ replicate 9 Tick) s1 = (s2, t2)"
    by force
  have "recent 1 (since None ([Detect, Tick, Tick, Tick, Tick, Detect] @ replicate 9 Tick))"
    by (simp add: recent_def eval_nat_numeral)
  then show ?thesis
    using pir_led_ten_seconds [OF i _ _ r, of 0] i r by (auto simp: pir_static_def)
qed

text \<open>
  The motion sensor module releases what it acquires: over any number of attempts to
  load it, each failing at any call or followed by detections, time and an unload, also
  one with a detection in the middle, everything is freed exactly once.
\<close>

lemma pir_sessions_balanced:
  assumes "\<And>k es. (k, es) \<in> set ss \<Longrightarrow> kernel_ok k"
  shows "ledger {#} (module_sessions ch7_mod_init (pir_handle hz) (ch7_mod_exit hz irq) ss s) = Some {#}"
  by (rule pir_module.sessions_balanced) (rule assms)

lemma pir_sessions_example:
  "ledger {#} (module_sessions ch7_mod_init (pir_handle 100) (ch7_mod_exit 100 True)
      [(all_ok\<lparr>ret_request_irq := (\<lambda>_. - EINVAL)\<rparr>, []), (all_ok, [Detect, Tick])] pir_static) = Some {#}"
  by (rule pir_sessions_balanced) (auto simp: kernel_ok_def all_ok_def)

text \<open>
  The unload of the motion sensor deletes the timer before it gives the interrupt back,
  so a detection in between arms the timer again: it is still pending, with its function in
  the module being removed, when the unload has finished. Without such a detection no timer
  is left.
\<close>

lemma pir_exit_leaves_timer:
  "led_timer (fst (ch7_mod_exit hz irq s)) = (if irq then Some (jiffies s + 10 * hz) else None)"
  by (simp add: ch7_mod_exit_def pir_irq_handler_def)

end
