(* ===== verification/Pir_Threads.thy ===== *)
theory Pir_Threads
  imports Pir_Led Locking Draining
begin

text \<open>
  lab8/ch7 (ch7_mod_202111360.c) on several processors: detections, the expired timer's
  function and the unload side by side, one access to shared data a step, with the spin lock
  and the passing of time explicit. The kernel runs the handler of the line, and the function
  of the timer, one at a time each; del_timer_sync waits for the function and free_irq for
  the handler. Shown, for every interleaving: the pin follows led_on under the lock, the LED
  never stays lit without a timer that will switch it off, a pending timer was set by the
  last detection and means a lit LED unless an older expiry switched it off afterwards
  (which happens), every call returns, and alone each function is that of Pir_Led.
\<close>

subsection \<open>Contexts and steps\<close>

datatype pir_pc =
    Outside
  | I_lock \<comment> \<open>in the interrupt handler\<close>
  | I_test
  | I_off
  | I_on
  | I_flag
  | I_timer
  | I_unlock
  | T_lock \<comment> \<open>in the function of the expired timer\<close>
  | T_off
  | T_flag
  | T_unlock

datatype exit_pc = Loaded | X_timer | X_irq | X_sync | X_off | X_flag | X_free | Gone

record pir_threads = pir +
  pt_pin :: int \<comment> \<open>the level of the LED pin\<close>
  pt_lock :: bool
  pt_pc :: "nat \<Rightarrow> pir_pc"
  pt_exit :: exit_pc \<comment> \<open>how far the unload is\<close>
  pt_fault :: "fault option"
  pt_last :: "nat option" \<comment> \<open>ghost: when a detection last set the timer\<close>
  pt_cut :: bool \<comment> \<open>ghost: since then an older expiry switched the LED off\<close>
  pt_late :: bool \<comment> \<open>ghost: a detection set the timer after the unload had deleted it\<close>

definition pt_goto :: "pir_threads \<Rightarrow> nat \<Rightarrow> pir_pc \<Rightarrow> pir_threads" where
  "pt_goto s i x = s\<lparr>pt_pc := (pt_pc s)(i := x)\<rparr>"

fun in_isr :: "pir_pc \<Rightarrow> bool" where
  "in_isr Outside = False"
| "in_isr T_lock = False"
| "in_isr T_off = False"
| "in_isr T_flag = False"
| "in_isr T_unlock = False"
| "in_isr _ = True"

fun in_func :: "pir_pc \<Rightarrow> bool" where
  "in_func T_lock = True"
| "in_func T_off = True"
| "in_func T_flag = True"
| "in_func T_unlock = True"
| "in_func _ = False"

text \<open>The timer has been deleted, and the line is given back, by the unload.\<close>

definition deleted :: "pir_threads \<Rightarrow> bool" where
  "deleted s \<longleftrightarrow> pt_exit s \<notin> {Loaded, X_timer}"

definition line_given_back :: "pir_threads \<Rightarrow> bool" where
  "line_given_back s \<longleftrightarrow> pt_exit s \<notin> {Loaded, X_timer, X_irq}"

text \<open>The start: a load that succeeded, with the LED off.\<close>

definition pt_start :: "pir_threads \<Rightarrow> bool" where
  "pt_start s \<longleftrightarrow>
     (\<exists>k s0 tr v. ch7_mod_init k s0 = (0, pir.truncate s, tr) \<and> \<not> led_on s0 \<and> pt_pin s = pin_level LED_GPIO v tr) \<and>
     \<not> pt_lock s \<and> pt_pc s = (\<lambda>_. Outside) \<and> pt_exit s = Loaded \<and> pt_fault s = None \<and> pt_last s = None \<and>
     \<not> pt_cut s \<and> \<not> pt_late s"

text \<open>A step of context \<open>i\<close>: the handler, or the timer's function once the timer is due.\<close>

inductive pir_step :: "nat \<Rightarrow> nat \<Rightarrow> pir_threads \<Rightarrow> pir_threads \<Rightarrow> bool" for hz :: nat and i :: nat where
  detect: "pt_pc s i = Outside \<Longrightarrow> \<not> line_given_back s \<Longrightarrow> \<forall>j. \<not> in_isr (pt_pc s j) \<Longrightarrow>
    pir_step hz i s (pt_goto s i I_lock)"
| isr_lock: "pt_pc s i = I_lock \<Longrightarrow> \<not> pt_lock s \<Longrightarrow> pir_step hz i s ((pt_goto s i I_test)\<lparr>pt_lock := True\<rparr>)"
| was_lit: "pt_pc s i = I_test \<Longrightarrow> led_on s \<Longrightarrow> pir_step hz i s (pt_goto s i I_off)"
| was_dark: "pt_pc s i = I_test \<Longrightarrow> \<not> led_on s \<Longrightarrow> pir_step hz i s (pt_goto s i I_on)"
| briefly_off: "pt_pc s i = I_off \<Longrightarrow> pir_step hz i s ((pt_goto s i I_on)\<lparr>pt_pin := 0\<rparr>)"
| switch_on: "pt_pc s i = I_on \<Longrightarrow> pir_step hz i s ((pt_goto s i I_flag)\<lparr>pt_pin := 1\<rparr>)"
| set_on: "pt_pc s i = I_flag \<Longrightarrow> pir_step hz i s ((pt_goto s i I_timer)\<lparr>led_on := True\<rparr>)"
| mod_timer: "pt_pc s i = I_timer \<Longrightarrow>
    pir_step hz i s ((pt_goto s i I_unlock)\<lparr>led_timer := Some (jiffies s + 10 * hz), pt_last := Some (jiffies s),
      pt_cut := False, pt_late := (pt_late s \<or> deleted s)\<rparr>)"
| isr_unlock: "pt_pc s i = I_unlock \<Longrightarrow> pir_step hz i s ((pt_goto s i Outside)\<lparr>pt_lock := False\<rparr>)"
| expire: "pt_pc s i = Outside \<Longrightarrow> led_timer s = Some t \<Longrightarrow> t \<le> jiffies s \<Longrightarrow> pt_exit s \<noteq> Gone \<Longrightarrow>
    \<forall>j. \<not> in_func (pt_pc s j) \<Longrightarrow> pir_step hz i s ((pt_goto s i T_lock)\<lparr>led_timer := None\<rparr>)"
| expire_gone: "pt_pc s i = Outside \<Longrightarrow> led_timer s = Some t \<Longrightarrow> t \<le> jiffies s \<Longrightarrow> pt_exit s = Gone \<Longrightarrow>
    pir_step hz i s (s\<lparr>led_timer := None, pt_fault := Some Use_after_free\<rparr>)"
| func_lock: "pt_pc s i = T_lock \<Longrightarrow> pt_exit s \<noteq> Gone \<Longrightarrow> \<not> pt_lock s \<Longrightarrow>
    pir_step hz i s ((pt_goto s i T_off)\<lparr>pt_lock := True\<rparr>)"
| switch_off: "pt_pc s i = T_off \<Longrightarrow> pt_exit s \<noteq> Gone \<Longrightarrow> pir_step hz i s ((pt_goto s i T_flag)\<lparr>pt_pin := 0\<rparr>)"
| set_off: "pt_pc s i = T_flag \<Longrightarrow> pt_exit s \<noteq> Gone \<Longrightarrow>
    pir_step hz i s ((pt_goto s i T_unlock)\<lparr>led_on := False, pt_cut := (led_timer s \<noteq> None)\<rparr>)"
| func_unlock: "pt_pc s i = T_unlock \<Longrightarrow> pt_exit s \<noteq> Gone \<Longrightarrow>
    pir_step hz i s ((pt_goto s i Outside)\<lparr>pt_lock := False\<rparr>)"
| func_gone: "in_func (pt_pc s i) \<Longrightarrow> pt_exit s = Gone \<Longrightarrow>
    pir_step hz i s ((pt_goto s i Outside)\<lparr>pt_lock := (pt_lock s \<and> pt_pc s i = T_lock), pt_fault := Some Use_after_free\<rparr>)"

text \<open>The unload, and time.\<close>

inductive pir_exit_step :: "pir_threads \<Rightarrow> pir_threads \<Rightarrow> bool" where
  rmmod: "pt_exit s = Loaded \<Longrightarrow> pir_exit_step s (s\<lparr>pt_exit := X_timer\<rparr>)"
| del_timer_sync: "pt_exit s = X_timer \<Longrightarrow> \<forall>j. \<not> in_func (pt_pc s j) \<Longrightarrow>
    pir_exit_step s (s\<lparr>pt_exit := X_irq, led_timer := None\<rparr>)"
| free_irq: "pt_exit s = X_irq \<Longrightarrow> pir_exit_step s (s\<lparr>pt_exit := X_sync\<rparr>)"
| synchronize: "pt_exit s = X_sync \<Longrightarrow> \<forall>j. \<not> in_isr (pt_pc s j) \<Longrightarrow> pir_exit_step s (s\<lparr>pt_exit := X_off\<rparr>)"
| exit_off: "pt_exit s = X_off \<Longrightarrow> pir_exit_step s (s\<lparr>pt_exit := X_flag, pt_pin := 0\<rparr>)"
| exit_flag: "pt_exit s = X_flag \<Longrightarrow> pir_exit_step s (s\<lparr>pt_exit := X_free, led_on := False\<rparr>)"
| exit_free: "pt_exit s = X_free \<Longrightarrow> pir_exit_step s (s\<lparr>pt_exit := Gone\<rparr>)"

definition pir_moves :: "nat \<Rightarrow> pir_threads \<Rightarrow> pir_threads \<Rightarrow> bool" where
  "pir_moves hz s t \<longleftrightarrow> (\<exists>i. pir_step hz i s t) \<or> pir_exit_step s t \<or> t = s\<lparr>jiffies := Suc (jiffies s)\<rparr>"

abbreviation pir_reachable :: "nat \<Rightarrow> pir_threads \<Rightarrow> bool" where
  "pir_reachable hz \<equiv> reachable pt_start (pir_moves hz)"

inductive_cases pir_stepE: "pir_step hz i s t"
inductive_cases pir_exit_stepE: "pir_exit_step s t"

lemma pt_goto_simps [simp]:
  "led_on (pt_goto s i x) = led_on s" "jiffies (pt_goto s i x) = jiffies s" "led_timer (pt_goto s i x) = led_timer s"
  "pt_pin (pt_goto s i x) = pt_pin s" "pt_lock (pt_goto s i x) = pt_lock s" "pt_pc (pt_goto s i x) = (pt_pc s)(i := x)"
  "pt_exit (pt_goto s i x) = pt_exit s" "pt_fault (pt_goto s i x) = pt_fault s" "pt_last (pt_goto s i x) = pt_last s"
  "pt_cut (pt_goto s i x) = pt_cut s" "pt_late (pt_goto s i x) = pt_late s"
  by (simp_all add: pt_goto_def)

subsection \<open>The invariant\<close>

fun critical :: "pir_pc \<Rightarrow> bool" where
  "critical Outside = False"
| "critical I_lock = False"
| "critical T_lock = False"
| "critical _ = True"

text \<open>What the one in the critical section knows of the pin and the variable.\<close>

fun agrees :: "int \<Rightarrow> bool \<Rightarrow> pir_pc \<Rightarrow> bool" where
  "agrees p on I_test = (p = of_bool on)"
| "agrees p on I_off = (p = 1 \<and> on)"
| "agrees p on I_flag = (p = 1)"
| "agrees p on I_timer = (p = 1 \<and> on)"
| "agrees p on I_unlock = (p = 1 \<and> on)"
| "agrees p on T_off = (p = of_bool on)"
| "agrees p on T_flag = (p = 0)"
| "agrees p on T_unlock = (p = 0 \<and> \<not> on)"
| "agrees p on _ = True"

text \<open>Somebody will switch a lit LED off, or set the timer that will.\<close>

fun takes_care :: "pir_pc \<Rightarrow> bool" where
  "takes_care I_timer = True"
| "takes_care T_lock = True"
| "takes_care T_off = True"
| "takes_care T_flag = True"
| "takes_care _ = False"

definition pt_locking :: "pir_threads \<Rightarrow> bool" where
  "pt_locking s \<longleftrightarrow> lock_ok critical (pt_lock s) (pt_pc s) \<and> exclusive in_isr (pt_pc s) \<and> exclusive in_func (pt_pc s)"

definition pt_lamp :: "nat \<Rightarrow> pir_threads \<Rightarrow> bool" where
  "pt_lamp hz s \<longleftrightarrow>
     (\<forall>i. agrees (pt_pin s) (led_on s) (pt_pc s i)) \<and> (\<not> pt_lock s \<longrightarrow> pt_pin s = of_bool (led_on s)) \<and>
     (led_on s \<longrightarrow> led_timer s \<noteq> None \<or> (\<exists>i. takes_care (pt_pc s i))) \<and>
     (led_timer s \<noteq> None \<longrightarrow> led_on s \<or> pt_cut s) \<and>
     (\<forall>t. led_timer s = Some t \<longrightarrow> (\<exists>l. pt_last s = Some l \<and> l \<le> jiffies s \<and> t = l + 10 * hz))"

text \<open>After the deletion of the timer, if no detection came too late.\<close>

definition pt_unloading :: "pir_threads \<Rightarrow> bool" where
  "pt_unloading s \<longleftrightarrow> led_timer s = None \<and> (\<forall>i. \<not> in_func (pt_pc s i)) \<and>
     (pt_exit s = X_flag \<longrightarrow> pt_pin s = 0) \<and> (pt_exit s \<in> {X_free, Gone} \<longrightarrow> pt_pin s = 0 \<and> \<not> led_on s)"

definition pt_inv :: "nat \<Rightarrow> pir_threads \<Rightarrow> bool" where
  "pt_inv hz s \<longleftrightarrow> pt_locking s \<and> (\<not> deleted s \<longrightarrow> pt_lamp hz s) \<and> (deleted s \<and> \<not> pt_late s \<longrightarrow> pt_unloading s) \<and>
     (pt_exit s \<in> {X_off, X_flag, X_free, Gone} \<longrightarrow> (\<forall>i. \<not> in_isr (pt_pc s i))) \<and>
     (pt_fault s \<noteq> None \<longrightarrow> pt_late s) \<and> (pt_late s \<longrightarrow> deleted s)"

lemma agrees_outside: "\<not> critical x \<Longrightarrow> agrees p on x"
  by (cases x) auto

lemma locking_simps:
  assumes "pt_locking s"
  shows "lock_ok critical (pt_lock s) (pt_pc s)" "exclusive in_isr (pt_pc s)" "exclusive in_func (pt_pc s)"
  using assms by (simp_all add: pt_locking_def)

lemma pt_locking_step: "pir_step hz i s t \<Longrightarrow> pt_locking s \<Longrightarrow> pt_locking t"
proof (induction rule: pir_step.induct)
  case (detect s)
  then show ?case by (auto simp: pt_locking_def intro: lock_ok_stay exclusive_enter exclusive_go)
next
  case (expire s t)
  then show ?case by (auto simp: pt_locking_def intro: lock_ok_stay exclusive_enter exclusive_go)
next
  case (isr_unlock s)
  then show ?case by (auto simp: pt_locking_def intro!: lock_ok_leave exclusive_go)
next
  case (func_unlock s)
  then show ?case by (auto simp: pt_locking_def intro!: lock_ok_leave exclusive_go)
next
  case (func_gone s)
  have "lock_ok critical (pt_lock s \<and> pt_pc s i = T_lock) ((pt_pc s)(i := Outside))"
  proof (cases "critical (pt_pc s i)")
    case True
    then have "pt_pc s i \<noteq> T_lock" by auto
    then show ?thesis using True func_gone by (auto simp: pt_locking_def intro!: lock_ok_leave)
  next
    case False
    then have "pt_pc s i = T_lock" using func_gone(1) by (cases "pt_pc s i") auto
    then show ?thesis using func_gone by (auto simp: pt_locking_def intro!: lock_ok_stay)
  qed
  then show ?case using func_gone by (auto simp: pt_locking_def intro!: exclusive_go)
qed (auto simp: pt_locking_def lock_ok_enter intro!: lock_ok_stay exclusive_go)

lemma lamp_upd:
  assumes "pt_lamp hz s" and "pt_locking s" and pc: "pt_pc t = (pt_pc s)(i := x)"
    and "pt_pin t = pt_pin s \<and> led_on t = led_on s \<or> critical (pt_pc s i)"
    and "agrees (pt_pin t) (led_on t) x" and "\<not> pt_lock t \<Longrightarrow> pt_pin t = of_bool (led_on t)"
    and "led_on t \<Longrightarrow> led_timer t \<noteq> None \<or> takes_care x \<or>
      led_on s \<and> led_timer t = led_timer s \<and> \<not> takes_care (pt_pc s i)"
    and "led_timer t \<noteq> None \<Longrightarrow> led_on t \<or> pt_cut t"
    and "\<And>e. led_timer t = Some e \<Longrightarrow> \<exists>l. pt_last t = Some l \<and> l \<le> jiffies t \<and> e = l + 10 * hz"
  shows "pt_lamp hz t"
proof -
  have "agrees (pt_pin t) (led_on t) (pt_pc t j)" for j
  proof (cases "j = i")
    case False
    then show ?thesis
      using assms(1,4) lock_ok_excludes [OF locking_simps(1) [OF assms(2)], of i j] agrees_outside
      by (auto simp: pc pt_lamp_def)
  qed (use assms(5) in \<open>simp add: pc\<close>)
  moreover have "led_timer t \<noteq> None \<or> (\<exists>j. takes_care (pt_pc t j))" if on: "led_on t"
  proof -
    consider "led_timer t \<noteq> None" | "takes_care x" | "led_on s" "led_timer t = led_timer s" "\<not> takes_care (pt_pc s i)"
      using assms(7) [OF on] by blast
    then show ?thesis
    proof cases
      case 3
      then show ?thesis using assms(1) by (auto simp: pt_lamp_def pc)
    qed (auto simp: pc)
  qed
  ultimately show ?thesis using assms(6,8,9) by (simp add: pt_lamp_def)
qed

lemma lamp_simps:
  assumes "pt_lamp hz s"
  shows "agrees (pt_pin s) (led_on s) (pt_pc s i)" "\<not> pt_lock s \<Longrightarrow> pt_pin s = of_bool (led_on s)"
    "led_timer s \<noteq> None \<Longrightarrow> led_on s \<or> pt_cut s"
    "led_timer s = Some e \<Longrightarrow> \<exists>l. pt_last s = Some l \<and> l \<le> jiffies s \<and> e = l + 10 * hz"
  using assms by (auto simp: pt_lamp_def)

lemma pt_lamp_step:
  assumes "pir_step hz i s t" and "pt_lamp hz s" and "pt_locking s" and "\<not> deleted s"
  shows "pt_lamp hz t"
proof -
  note l = lamp_simps [OF assms(2)]
  note ai = l(1) [of i]
  have held: "critical (pt_pc s i) \<Longrightarrow> pt_lock s"
    using lock_ok_held [OF locking_simps(1) [OF assms(3)]] .
  show ?thesis
    using assms(1)
  proof cases
    case (expire_gone e)
    then show ?thesis using assms(4) by (simp add: deleted_def)
  next
    case func_gone
    then show ?thesis using assms(4) by (simp add: deleted_def)
  qed (rule lamp_upd [OF assms(2,3), where i = i and x = "pt_pc t i"]; use l(2-4) ai held in auto; fail)+
qed

text \<open>
  Once the timer is deleted only a detection can do anything, and it is then a late one.
\<close>

lemma pt_unloading_step:
  assumes "pir_step hz i s t" and "pt_unloading s" and "\<not> pt_late t" and "deleted s"
    and "pt_exit s \<in> {X_off, X_flag, X_free, Gone} \<Longrightarrow> \<not> in_isr (pt_pc s i)"
  shows "pt_unloading t"
proof -
  have f: "\<not> in_func (pt_pc s i)" "led_timer s = None" using assms(2) by (simp_all add: pt_unloading_def)
  show ?thesis
    using assms(1) f assms(2-5) by cases (auto simp: pt_unloading_def deleted_def)
qed

lemma pt_inv_step:
  assumes "pir_step hz i s t" and "pt_inv hz s"
  shows "pt_inv hz t"
proof -
  have lock: "pt_locking t" using pt_locking_step [OF assms(1)] assms(2) by (simp add: pt_inv_def)
  have x: "pt_exit t = pt_exit s" using assms(1) by cases simp_all
  have late: "pt_late t \<longrightarrow> deleted t" "pt_late s \<longrightarrow> pt_late t"
    using assms(1) assms(2) by (cases; auto simp: deleted_def pt_inv_def)+
  have "\<not> deleted t \<longrightarrow> pt_lamp hz t"
    using pt_lamp_step [OF assms(1)] assms(2) x by (auto simp: pt_inv_def deleted_def)
  moreover have "deleted t \<and> \<not> pt_late t \<longrightarrow> pt_unloading t"
    using pt_unloading_step [OF assms(1)] assms(2) x late(2) by (auto simp: pt_inv_def deleted_def)
  moreover have "\<not> in_isr (pt_pc t j)" if "pt_exit t \<in> {X_off, X_flag, X_free, Gone}" for j
  proof -
    have f: "\<not> in_isr (pt_pc s j)" "\<not> in_isr (pt_pc s i)" "line_given_back s"
      using that assms(2) x by (auto simp: pt_inv_def line_given_back_def)
    show ?thesis using assms(1) f by cases auto
  qed
  moreover have "pt_fault t \<noteq> None \<longrightarrow> pt_late t"
  proof (cases "pt_late s")
    case False
    have "pt_fault t = pt_fault s"
      using assms(1)
    proof cases
      case (expire_gone e)
      then show ?thesis using assms(2) False by (auto simp: pt_inv_def pt_unloading_def deleted_def)
    next
      case func_gone
      then show ?thesis using assms(2) False by (auto simp: pt_inv_def pt_unloading_def deleted_def)
    qed simp_all
    then show ?thesis using assms(2) False by (simp add: pt_inv_def)
  qed (use late(2) in simp)
  ultimately show ?thesis using lock late(1) by (simp add: pt_inv_def)
qed

lemma pt_inv_exit_step: "pir_exit_step s t \<Longrightarrow> pt_inv hz s \<Longrightarrow> pt_inv hz t"
proof (induction rule: pir_exit_step.induct)
  case (rmmod s)
  then show ?case by (auto simp: pt_inv_def pt_locking_def pt_lamp_def deleted_def)
next
  case (del_timer_sync s)
  then show ?case by (auto simp: pt_inv_def pt_locking_def pt_unloading_def deleted_def)
next
  case (exit_off s)
  then show ?case by (auto simp: pt_inv_def pt_locking_def pt_unloading_def deleted_def)
qed (auto simp: pt_inv_def pt_locking_def pt_unloading_def deleted_def)

lemma pt_inv_tick: "pt_inv hz s \<Longrightarrow> pt_inv hz (s\<lparr>jiffies := Suc (jiffies s)\<rparr>)"
  by (simp add: pt_inv_def pt_locking_def pt_lamp_def pt_unloading_def deleted_def) (metis le_SucI)

lemma pt_inv_start: "pt_start s \<Longrightarrow> pt_inv hz s"
proof -
  assume s: "pt_start s"
  then obtain k s0 tr v where i: "ch7_mod_init k s0 = (0, pir.truncate s, tr)" "\<not> led_on s0" "pt_pin s = pin_level LED_GPIO v tr"
    by (auto simp: pt_start_def)
  have "led_on (pir.truncate s) = led_on s" "led_timer (pir.truncate s) = led_timer s" by (simp_all add: pir.truncate_def)
  then have "\<not> led_on s \<and> led_timer s = None \<and> pt_pin s = 0"
    using pir_init_success [OF i(1), of v] i(2,3) by simp
  then show ?thesis
    using s by (auto simp: pt_start_def pt_inv_def pt_locking_def pt_lamp_def deleted_def exclusive_def intro!: lock_ok_start)
qed

lemma pir_moves_inv: "pir_moves hz s t \<Longrightarrow> pt_inv hz s \<Longrightarrow> pt_inv hz t"
  using pt_inv_step pt_inv_exit_step pt_inv_tick by (auto simp: pir_moves_def)

lemma pir_reachable_inv: "pir_reachable hz s \<Longrightarrow> pt_inv hz s"
  by (erule reachable_invariant) (auto intro: pt_inv_start pir_moves_inv)

subsection \<open>Calls return\<close>

fun pir_rank :: "pir_pc \<Rightarrow> nat" where
  "pir_rank Outside = 0"
| "pir_rank I_lock = 7"
| "pir_rank I_test = 6"
| "pir_rank I_off = 5"
| "pir_rank I_on = 4"
| "pir_rank I_flag = 3"
| "pir_rank I_timer = 2"
| "pir_rank I_unlock = 1"
| "pir_rank T_lock = 4"
| "pir_rank T_off = 3"
| "pir_rank T_flag = 2"
| "pir_rank T_unlock = 1"

fun exit_rank :: "exit_pc \<Rightarrow> nat" where
  "exit_rank Loaded = 0"
| "exit_rank X_timer = 6"
| "exit_rank X_irq = 5"
| "exit_rank X_sync = 4"
| "exit_rank X_off = 3"
| "exit_rank X_flag = 2"
| "exit_rank X_free = 1"
| "exit_rank Gone = 0"

text \<open>The unload counts as context 0, the others follow.\<close>

fun pir_act :: "nat \<Rightarrow> nat \<Rightarrow> pir_threads \<Rightarrow> pir_threads \<Rightarrow> bool" where
  "pir_act hz 0 s t = pir_exit_step s t"
| "pir_act hz (Suc i) s t = pir_step hz i s t"

fun pir_left :: "pir_threads \<Rightarrow> nat \<Rightarrow> nat" where
  "pir_left s 0 = exit_rank (pt_exit s)"
| "pir_left s (Suc i) = pir_rank (pt_pc s i)"

definition pt_live :: "nat \<Rightarrow> pir_threads \<Rightarrow> bool" where
  "pt_live hz s \<longleftrightarrow> pt_inv hz s \<and> finite {i. pt_pc s i \<noteq> Outside}"

lemma pir_rank_0 [simp]: "0 < pir_rank x \<longleftrightarrow> x \<noteq> Outside"
  by (cases x) auto

lemma pir_step_pc: "pir_step hz i s t \<Longrightarrow> pt_exit t = pt_exit s \<and> (\<exists>x. pt_pc t = (pt_pc s)(i := x))"
proof (induction rule: pir_step.induct)
  case (expire_gone s t)
  show ?case by (intro conjI exI [of _ "pt_pc s i"]) simp_all
qed auto

lemma pir_exit_step_pc: "pir_exit_step s t \<Longrightarrow> pt_pc t = pt_pc s"
  by (cases rule: pir_exit_step.cases) auto

lemma pir_step_nearer: "pir_step hz i s t \<Longrightarrow> pt_pc s i \<noteq> Outside \<Longrightarrow> pir_rank (pt_pc t i) < pir_rank (pt_pc s i)"
  by (cases rule: pir_step.cases) auto

lemma pir_exit_nearer: "pir_exit_step s t \<Longrightarrow> 0 < exit_rank (pt_exit s) \<Longrightarrow> exit_rank (pt_exit t) < exit_rank (pt_exit s)"
  by (cases rule: pir_exit_step.cases) auto

lemma pt_live_step: "pir_act hz i s t \<Longrightarrow> pt_live hz s \<Longrightarrow> pt_live hz t"
proof (cases i)
  case 0
  then show "pir_act hz i s t \<Longrightarrow> pt_live hz s \<Longrightarrow> pt_live hz t"
    using pt_inv_exit_step pir_exit_step_pc by (auto simp: pt_live_def)
next
  case (Suc j)
  assume a: "pir_act hz i s t" "pt_live hz s"
  then obtain x where "pt_pc t = (pt_pc s)(j := x)" using pir_step_pc Suc by fastforce
  moreover have "pt_inv hz t" using pt_inv_step a Suc by (auto simp: pt_live_def)
  ultimately show "pt_live hz t" using a(2) by (simp add: pt_live_def del: fun_upd_apply)
qed

lemma pir_critical_moves: "critical (pt_pc s i) \<Longrightarrow> \<exists>t. pir_step hz i s t"
proof (cases "in_func (pt_pc s i)")
  case True
  then show "critical (pt_pc s i) \<Longrightarrow> \<exists>t. pir_step hz i s t"
    using func_gone [of s i hz] switch_off [of s i hz] set_off [of s i hz] func_unlock [of s i hz]
    by (cases "pt_pc s i"; cases "pt_exit s = Gone") auto
next
  case False
  then show "critical (pt_pc s i) \<Longrightarrow> \<exists>t. pir_step hz i s t"
    by (cases "pt_pc s i") (auto intro: pir_step.intros, (blast intro: was_lit was_dark))
qed

lemma pir_inside_moves:
  assumes "pt_inv hz s" and "pt_pc s i \<noteq> Outside"
  shows "\<exists>j t. pir_step hz j s t \<and> pt_pc s j \<noteq> Outside"
proof (cases "pt_lock s")
  case True
  then obtain j where j: "critical (pt_pc s j)" using assms(1) by (auto simp: pt_inv_def pt_locking_def lock_ok_def)
  then show ?thesis using pir_critical_moves [OF j] by (metis critical.simps(1))
next
  case False
  consider "critical (pt_pc s i)" | "pt_pc s i = I_lock" | "pt_pc s i = T_lock" "pt_exit s \<noteq> Gone"
    | "pt_pc s i = T_lock" "pt_exit s = Gone"
    using assms(2) by (cases "pt_pc s i") auto
  then have "\<exists>t. pir_step hz i s t"
  proof cases
    case 1
    then show ?thesis by (rule pir_critical_moves)
  next
    case 2
    then show ?thesis using isr_lock [OF _ False] by blast
  next
    case 3
    then show ?thesis using func_lock [OF _ _ False] by blast
  next
    case 4
    then show ?thesis using func_gone [of s i hz] by auto
  qed
  then show ?thesis using assms(2) by blast
qed

lemma pir_unload_moves:
  assumes "pt_inv hz s" and "0 < exit_rank (pt_exit s)"
  shows "(\<exists>t. pir_exit_step s t) \<or> (\<exists>j t. pir_step hz j s t \<and> pt_pc s j \<noteq> Outside)"
proof (cases "\<exists>i. pt_pc s i \<noteq> Outside")
  case True
  then show ?thesis using pir_inside_moves [OF assms(1)] by blast
next
  case False
  then have "\<forall>j. \<not> in_func (pt_pc s j)" "\<forall>j. \<not> in_isr (pt_pc s j)" by auto
  then show ?thesis using assms(2) by (cases "pt_exit s") (auto intro: pir_exit_step.intros)
qed

interpretation pir_calls: draining "pir_act hz" pir_left "pt_live hz" "\<lambda>_. 7"
proof
  fix s t i
  assume a: "pt_live hz s" "pir_act hz i s t" "0 < pir_left s i"
  show "pt_live hz t" by (rule pt_live_step [OF a(2,1)])
  show "pir_left t i < pir_left s i"
    using a(2,3) pir_step_nearer pir_exit_nearer by (cases i) auto
  show "pir_left t j = pir_left s j" if "j \<noteq> i" for j
  proof (cases i)
    case 0
    then show ?thesis using a(2) that pir_exit_step_pc by (cases j) auto
  next
    case (Suc k)
    then show ?thesis using a(2) that pir_step_pc [of hz k s t] by (cases j) auto
  qed
next
  fix s i
  show "\<exists>j t. pir_act hz j s t \<and> 0 < pir_left s j" if a: "pt_live hz s" "0 < pir_left s i"
  proof (cases i)
    case 0
    then consider t where "pir_exit_step s t" | j t where "pir_step hz j s t" "pt_pc s j \<noteq> Outside"
      using pir_unload_moves [of hz s] a by (auto simp: pt_live_def)
    then show ?thesis
    proof cases
      case 1
      then show ?thesis using a(2) 0 by (intro exI [of _ 0] exI [of _ t]) simp
    next
      case 2
      then show ?thesis by (intro exI [of _ "Suc j"] exI [of _ t]) simp
    qed
  next
    case (Suc k)
    then obtain j t where "pir_step hz j s t" "pt_pc s j \<noteq> Outside"
      using pir_inside_moves [of hz s k] a by (auto simp: pt_live_def)
    then show ?thesis by (intro exI [of _ "Suc j"] exI [of _ t]) simp
  qed
  show "pir_left s i \<le> 7"
  proof (cases i)
    case 0
    then show ?thesis by (cases "pt_exit s") auto
  next
    case (Suc k)
    then show ?thesis by (cases "pt_pc s k") auto
  qed
  show "finite {i. 0 < pir_left s i}" if "pt_live hz s"
  proof -
    have "{i. 0 < pir_left s i} \<subseteq> insert 0 (Suc ` {i. pt_pc s i \<noteq> Outside})"
    proof
      fix i
      assume "i \<in> {i. 0 < pir_left s i}"
      then show "i \<in> insert 0 (Suc ` {i. pt_pc s i \<noteq> Outside})" by (cases i) auto
    qed
    then show ?thesis using that by (auto simp: pt_live_def intro: finite_subset)
  qed
qed

lemma pir_reachable_live: "pir_reachable hz s \<Longrightarrow> pt_live hz s"
proof (induction rule: reachable.induct)
  case (reach_start s)
  then show ?case using pt_inv_start by (auto simp: pt_live_def pt_start_def)
next
  case (reach_step s t)
  then consider i where "pir_step hz i s t" | "pir_exit_step s t" | "t = s\<lparr>jiffies := Suc (jiffies s)\<rparr>"
    by (auto simp: pir_moves_def)
  then show ?case
  proof cases
    case (1 i)
    then show ?thesis using pt_live_step [of hz "Suc i" s t] reach_step.IH by simp
  next
    case 2
    then show ?thesis using pt_live_step [of hz 0 s t] reach_step.IH by simp
  next
    case 3
    then show ?thesis using reach_step.IH pt_inv_tick by (simp add: pt_live_def)
  qed
qed

text \<open>
  No schedule keeps the handler, the timer's function or the unload from returning, whoever
  waits for whom.
\<close>

lemma pir_calls_return:
  assumes "pir_reachable hz s" and "((\<lambda>s t. \<exists>i. pir_act hz i s t \<and> 0 < pir_left s i) ^^ m) s t"
  shows "m \<le> 7 * card {i. 0 < pir_left s i} \<and>
    ((\<exists>i. 0 < pir_left t i) \<longrightarrow> (\<exists>u i. pir_act hz i t u \<and> 0 < pir_left t i))"
  by (rule pir_calls.calls_return [OF assms(2) pir_reachable_live [OF assms(1)]])

subsection \<open>Each function alone\<close>

definition detected :: "nat \<Rightarrow> pir_threads \<Rightarrow> pir_threads" where
  "detected hz s = s\<lparr>led_on := True, led_timer := Some (jiffies s + 10 * hz), pt_pin := 1,
     pt_last := Some (jiffies s), pt_cut := False, pt_late := (pt_late s \<or> deleted s)\<rparr>"

definition expired :: "pir_threads \<Rightarrow> nat \<Rightarrow> pir_threads" where
  "expired s i = s\<lparr>pt_pc := (pt_pc s)(i := Outside), led_on := False, pt_pin := 0, pt_cut := (led_timer s \<noteq> None)\<rparr>"

lemma handler_undisturbed:
  assumes "pt_pc s i = Outside" and "\<not> line_given_back s" and "\<forall>j. \<not> in_isr (pt_pc s j)" and "\<not> pt_lock s"
  shows "(pir_step hz i)\<^sup>*\<^sup>* s (detected hz s)"
proof -
  let ?s1 = "pt_goto s i I_lock"
  let ?s2 = "(pt_goto ?s1 i I_test)\<lparr>pt_lock := True\<rparr>"
  have 1: "pir_step hz i s ?s1" "pir_step hz i ?s1 ?s2"
    by (rule detect [OF assms(1-3)], rule isr_lock) (use assms(4) in simp_all)
  obtain s3 where s3: "(pir_step hz i)\<^sup>*\<^sup>* ?s2 s3" "s3 = (pt_goto ?s2 i I_on)\<lparr>pt_pin := (if led_on s then 0 else pt_pin s)\<rparr>"
  proof (cases "led_on s")
    case True
    let ?u = "pt_goto ?s2 i I_off"
    have "pir_step hz i ?s2 ?u" by (rule was_lit) (use True in simp_all)
    moreover have "pir_step hz i ?u ((pt_goto ?u i I_on)\<lparr>pt_pin := 0\<rparr>)" by (rule briefly_off) simp
    ultimately have "(pir_step hz i)\<^sup>*\<^sup>* ?s2 ((pt_goto ?u i I_on)\<lparr>pt_pin := 0\<rparr>)"
      by (rule rtranclp.rtrancl_into_rtrancl [OF r_into_rtranclp])
    then show ?thesis using that True by (simp add: pt_goto_def)
  next
    case False
    have "pir_step hz i ?s2 (pt_goto ?s2 i I_on)" by (rule was_dark) (use False in simp_all)
    then show ?thesis using that False by (simp add: pt_goto_def r_into_rtranclp)
  qed
  let ?s4 = "(pt_goto s3 i I_flag)\<lparr>pt_pin := 1\<rparr>"
  let ?s5 = "(pt_goto ?s4 i I_timer)\<lparr>led_on := True\<rparr>"
  let ?s6 = "(pt_goto ?s5 i I_unlock)\<lparr>led_timer := Some (jiffies ?s5 + 10 * hz), pt_last := Some (jiffies ?s5),
    pt_cut := False, pt_late := (pt_late ?s5 \<or> deleted ?s5)\<rparr>"
  let ?s7 = "(pt_goto ?s6 i Outside)\<lparr>pt_lock := False\<rparr>"
  have "pir_step hz i s3 ?s4" by (rule switch_on) (simp add: s3(2))
  moreover have "pir_step hz i ?s4 ?s5" by (rule set_on) simp
  moreover have "pir_step hz i ?s5 ?s6" by (rule mod_timer) simp
  moreover have "pir_step hz i ?s6 ?s7" by (rule isr_unlock) simp
  ultimately have "(pir_step hz i)\<^sup>*\<^sup>* s ?s7"
    using 1 s3(1) by (meson converse_rtranclp_into_rtranclp rtranclp.rtrancl_into_rtrancl)
  moreover have "?s7 = detected hz s"
    using assms(1,4) by (cases s) (auto simp: s3(2) detected_def deleted_def pt_goto_def)
  ultimately show ?thesis by simp
qed

lemma func_undisturbed:
  assumes "pt_pc s i = T_lock" and "pt_exit s \<noteq> Gone" and "\<not> pt_lock s"
  shows "(pir_step hz i)\<^sup>*\<^sup>* s (expired s i)"
proof -
  let ?s1 = "(pt_goto s i T_off)\<lparr>pt_lock := True\<rparr>"
  let ?s2 = "(pt_goto ?s1 i T_flag)\<lparr>pt_pin := 0\<rparr>"
  let ?s3 = "(pt_goto ?s2 i T_unlock)\<lparr>led_on := False, pt_cut := (led_timer ?s2 \<noteq> None)\<rparr>"
  let ?s4 = "(pt_goto ?s3 i Outside)\<lparr>pt_lock := False\<rparr>"
  have "pir_step hz i s ?s1" by (rule func_lock [OF assms])
  moreover have "pir_step hz i ?s1 ?s2" by (rule switch_off) (use assms(2) in simp_all)
  moreover have "pir_step hz i ?s2 ?s3" by (rule set_off) (use assms(2) in simp_all)
  moreover have "pir_step hz i ?s3 ?s4" by (rule func_unlock) (use assms(2) in simp_all)
  ultimately have "(pir_step hz i)\<^sup>*\<^sup>* s ?s4" by (meson converse_rtranclp_into_rtranclp rtranclp.rtrancl_refl)
  moreover have "?s4 = expired s i" using assms(3) by (cases s) (simp add: expired_def pt_goto_def)
  ultimately show ?thesis by simp
qed

text \<open>They do what the functions of Pir_Led do, to the variables, the timer and the pin.\<close>

lemma detected_sequential:
  "pir.truncate (detected hz s) = fst (pir_irq_handler hz (pir.truncate s))"
  "pt_pin (detected hz s) = pin_level LED_GPIO (pt_pin s) (snd (pir_irq_handler hz (pir.truncate s)))"
  by (simp_all add: detected_def pir_irq_handler_def pir.truncate_def pin_level_append)

lemma expired_sequential:
  "pir.truncate (expired s i) = fst (led_timer_func (pir.truncate s))"
  "pt_pin (expired s i) = pin_level LED_GPIO (pt_pin s) (snd (led_timer_func (pir.truncate s)))"
  by (simp_all add: expired_def led_timer_func_def pir.truncate_def)

lemma exit_undisturbed:
  assumes "pt_pc s = (\<lambda>_. Outside)" and "pt_exit s = Loaded"
  shows "pir_exit_step\<^sup>*\<^sup>* s (s\<lparr>led_timer := None, pt_pin := 0, led_on := False, pt_exit := Gone\<rparr>)"
    and "fst (ch7_mod_exit hz False (pir.truncate s)) =
      pir.truncate (s\<lparr>led_timer := None, pt_pin := 0, led_on := False, pt_exit := Gone\<rparr>)"
proof -
  let ?s1 = "s\<lparr>pt_exit := X_timer\<rparr>"
  let ?s2 = "?s1\<lparr>pt_exit := X_irq, led_timer := None\<rparr>"
  let ?s3 = "?s2\<lparr>pt_exit := X_sync\<rparr>"
  let ?s4 = "?s3\<lparr>pt_exit := X_off\<rparr>"
  let ?s5 = "?s4\<lparr>pt_exit := X_flag, pt_pin := 0\<rparr>"
  let ?s6 = "?s5\<lparr>pt_exit := X_free, led_on := False\<rparr>"
  have "pir_exit_step s ?s1" by (rule rmmod [OF assms(2)])
  moreover have "pir_exit_step ?s1 ?s2" by (rule del_timer_sync) (simp_all add: assms(1))
  moreover have "pir_exit_step ?s2 ?s3" by (rule free_irq) simp
  moreover have "pir_exit_step ?s3 ?s4" by (rule synchronize) (simp_all add: assms(1))
  moreover have "pir_exit_step ?s4 ?s5" by (rule exit_off) simp
  moreover have "pir_exit_step ?s5 ?s6" by (rule exit_flag) simp
  moreover have "pir_exit_step ?s6 (?s6\<lparr>pt_exit := Gone\<rparr>)" by (rule exit_free) simp
  ultimately have "pir_exit_step\<^sup>*\<^sup>* s (?s6\<lparr>pt_exit := Gone\<rparr>)"
    by (meson converse_rtranclp_into_rtranclp rtranclp.rtrancl_refl)
  then show "pir_exit_step\<^sup>*\<^sup>* s (s\<lparr>led_timer := None, pt_pin := 0, led_on := False, pt_exit := Gone\<rparr>)" by simp
  show "fst (ch7_mod_exit hz False (pir.truncate s)) =
      pir.truncate (s\<lparr>led_timer := None, pt_pin := 0, led_on := False, pt_exit := Gone\<rparr>)"
    by (simp add: ch7_mod_exit_def pir.truncate_def)
qed

subsection \<open>Sample runs\<close>

lemma pir_reach_step:
  "pir_reachable hz s \<Longrightarrow> pir_step hz i s t \<Longrightarrow> pir_reachable hz t"
  "pir_reachable hz s \<Longrightarrow> pir_exit_step s t \<Longrightarrow> pir_reachable hz t"
  by (erule reach_step, auto simp: pir_moves_def)+

lemma pir_reach_steps: "(pir_step hz i)\<^sup>*\<^sup>* s t \<Longrightarrow> pir_reachable hz s \<Longrightarrow> pir_reachable hz t"
  by (induction rule: rtranclp_induct) (blast intro: pir_reach_step(1))+

lemma pir_reach_exit: "pir_exit_step\<^sup>*\<^sup>* s t \<Longrightarrow> pir_reachable hz s \<Longrightarrow> pir_reachable hz t"
  by (induction rule: rtranclp_induct) (blast intro: pir_reach_step(2))+

lemma pir_reach_time: "pir_reachable hz s \<Longrightarrow> pir_reachable hz (s\<lparr>jiffies := jiffies s + n\<rparr>)"
proof (induction n)
  case (Suc n)
  then have "pir_reachable hz (s\<lparr>jiffies := jiffies s + n\<rparr>)" by simp
  moreover have "pir_moves hz (s\<lparr>jiffies := jiffies s + n\<rparr>) (s\<lparr>jiffies := jiffies s + Suc n\<rparr>)"
    by (simp add: pir_moves_def)
  ultimately show ?case by (rule reach_step)
qed simp

definition pt_zero :: pir_threads where
  "pt_zero = \<lparr>pir_irq = 117, led_on = False, jiffies = 0, led_timer = None, pt_pin = 0, pt_lock = False,
     pt_pc = \<lambda>_. Outside, pt_exit = Loaded, pt_fault = None, pt_last = None, pt_cut = False, pt_late = False\<rparr>"

lemma pt_zero_reachable: "pir_reachable hz pt_zero"
proof (rule reach_start)
  obtain tr where i: "ch7_mod_init all_ok \<lparr>pir_irq = 0, led_on = False, jiffies = 0, led_timer = None\<rparr> =
      (0, pir.truncate pt_zero, tr)"
    by (simp add: ch7_mod_init_def all_ok_def Let_def PIR_GPIO_def pt_zero_def pir.truncate_def)
  moreover have "pt_pin pt_zero = pin_level LED_GPIO 0 tr"
    using pir_init_success [OF i, of 0] by (simp add: pt_zero_def)
  ultimately show "pt_start pt_zero"
    unfolding pt_start_def by (intro conjI exI) (assumption | simp add: pt_zero_def)+
qed

text \<open>
  A detection at 0, its timer expires at 10, its function starts on another processor, and
  before that takes the lock a second detection blinks the LED and renews the timer: the
  function then switches the LED off, ten seconds too early.
\<close>

lemma pir_detection_cut:
  "\<exists>s. pir_reachable 1 s \<and> (\<forall>i. pt_pc s i = Outside) \<and> \<not> pt_lock s \<and> pt_exit s = Loaded \<and> jiffies s = 10 \<and>
     pt_last s = Some 10 \<and> led_timer s = Some 20 \<and> \<not> led_on s"
proof -
  let ?s1 = "detected 1 pt_zero"
  have r1: "pir_reachable 1 ?s1"
    by (rule pir_reach_steps [OF handler_undisturbed [where i = 0] pt_zero_reachable])
      (simp_all add: pt_zero_def line_given_back_def)
  let ?s2 = "?s1\<lparr>jiffies := jiffies ?s1 + 10\<rparr>"
  let ?s3 = "(pt_goto ?s2 1 T_lock)\<lparr>led_timer := None\<rparr>"
  have "pir_step 1 1 ?s2 ?s3" by (rule expire [where t = 10]) (simp_all add: detected_def pt_zero_def)
  then have r3: "pir_reachable 1 ?s3" using pir_reach_steps [OF r_into_rtranclp pir_reach_time [OF r1, of 10]] by blast
  let ?s4 = "detected 1 ?s3"
  have r4: "pir_reachable 1 ?s4"
    by (rule pir_reach_steps [OF handler_undisturbed [where i = 0] r3])
      (simp_all add: detected_def pt_zero_def line_given_back_def)
  have "pir_reachable 1 (expired ?s4 1)"
    by (rule pir_reach_steps [OF func_undisturbed r4]) (simp_all add: detected_def pt_zero_def)
  then show ?thesis
    by (intro exI [of _ "expired ?s4 1"]) (simp add: expired_def detected_def pt_zero_def)
qed

text \<open>
  A detection between del_timer_sync and free_irq arms the timer again; when it expires the
  module with its function is gone.
\<close>

lemma pir_unload_fault: "\<exists>s. pir_reachable 1 s \<and> pt_exit s = Gone \<and> pt_fault s = Some Use_after_free"
proof -
  let ?s1 = "pt_zero\<lparr>pt_exit := X_timer\<rparr>"
  let ?s2 = "?s1\<lparr>pt_exit := X_irq, led_timer := None\<rparr>"
  have "pir_exit_step pt_zero ?s1" by (rule rmmod) (simp add: pt_zero_def)
  moreover have "pir_exit_step ?s1 ?s2" by (rule del_timer_sync) (simp_all add: pt_zero_def)
  ultimately have r2: "pir_reachable 1 ?s2"
    using pir_reach_exit [OF rtranclp.rtrancl_into_rtrancl [OF r_into_rtranclp] pt_zero_reachable] by blast
  let ?s3 = "detected 1 ?s2"
  have r3: "pir_reachable 1 ?s3"
    by (rule pir_reach_steps [OF handler_undisturbed [where i = 0] r2]) (simp_all add: pt_zero_def line_given_back_def)
  let ?s4 = "?s3\<lparr>pt_exit := X_sync\<rparr>"
  let ?s5 = "?s4\<lparr>pt_exit := X_off\<rparr>"
  let ?s6 = "?s5\<lparr>pt_exit := X_flag, pt_pin := 0\<rparr>"
  let ?s7 = "?s6\<lparr>pt_exit := X_free, led_on := False\<rparr>"
  let ?s8 = "?s7\<lparr>pt_exit := Gone\<rparr>"
  have "pir_exit_step ?s3 ?s4" by (rule free_irq) (simp add: detected_def)
  moreover have "pir_exit_step ?s4 ?s5" by (rule synchronize) (simp_all add: detected_def pt_zero_def)
  moreover have "pir_exit_step ?s5 ?s6" by (rule exit_off) simp
  moreover have "pir_exit_step ?s6 ?s7" by (rule exit_flag) simp
  moreover have "pir_exit_step ?s7 ?s8" by (rule exit_free) simp
  ultimately have "pir_exit_step\<^sup>*\<^sup>* ?s3 ?s8" by (meson converse_rtranclp_into_rtranclp rtranclp.rtrancl_refl)
  then have r9: "pir_reachable 1 (?s8\<lparr>jiffies := jiffies ?s8 + 10\<rparr>)" (is "pir_reachable _ ?s9")
    by (intro pir_reach_time pir_reach_exit [OF _ r3])
  have "pir_step 1 0 ?s9 (?s9\<lparr>led_timer := None, pt_fault := Some Use_after_free\<rparr>)"
    by (rule expire_gone [where t = 10]) (simp_all add: detected_def pt_zero_def)
  then have "pir_reachable 1 (?s9\<lparr>led_timer := None, pt_fault := Some Use_after_free\<rparr>)"
    using pir_reach_steps [OF r_into_rtranclp r9] by blast
  then show ?thesis by (intro exI conjI) (assumption | simp)+
qed

subsection \<open>Properties\<close>

text \<open>
  C17. The motion sensor under concurrency: wherever detections, an expiring timer and the
  unload interleave, while the module is in use and the lock is free the pin is what led_on
  says, a lit LED has a timer pending or its function about to switch it off, and a pending
  timer, set ten seconds ahead by the last detection, means a lit LED, unless the function of
  an older expiry switched it off since. Nothing faults, and after the unload the LED is dark
  and no timer or function is left, unless a detection came after the unload had deleted the
  timer.
\<close>

theorem pir_threads_lamp:
  assumes "pir_reachable hz s"
  shows "(\<not> deleted s \<and> \<not> pt_lock s \<longrightarrow> pt_pin s = of_bool (led_on s) \<and>
      (led_on s \<longrightarrow> led_timer s \<noteq> None \<or> (\<exists>i. pt_pc s i = T_lock)) \<and>
      (\<forall>t. led_timer s = Some t \<longrightarrow> (led_on s \<or> pt_cut s) \<and> (\<exists>l. pt_last s = Some l \<and> l \<le> jiffies s \<and> t = l + 10 * hz))) \<and>
    (\<not> pt_late s \<longrightarrow> pt_fault s = None \<and>
      (pt_exit s = Gone \<longrightarrow> pt_pin s = 0 \<and> \<not> led_on s \<and> led_timer s = None \<and> (\<forall>i. pt_pc s i = Outside)))"
proof -
  have inv: "pt_inv hz s" by (rule pir_reachable_inv [OF assms])
  have "\<exists>i. pt_pc s i = T_lock" if h: "\<not> deleted s" "\<not> pt_lock s" "led_on s" "led_timer s = None"
  proof -
    have lamp: "pt_lamp hz s" using inv h(1) by (simp add: pt_inv_def)
    obtain i where i: "takes_care (pt_pc s i)" using lamp h(3,4) by (auto simp: pt_lamp_def)
    have "pt_locking s" using inv by (simp add: pt_inv_def)
    then have "\<not> critical (pt_pc s i)" using lock_ok_held [OF locking_simps(1)] h(2) by blast
    then have "pt_pc s i = T_lock" using i by (cases "pt_pc s i") auto
    then show ?thesis by blast
  qed
  moreover have "pt_pc s i = Outside" if "pt_exit s = Gone" "\<not> pt_late s" for i
  proof -
    have "\<not> in_isr (pt_pc s i)" "\<not> in_func (pt_pc s i)"
      using inv that by (auto simp: pt_inv_def pt_unloading_def deleted_def)
    then show ?thesis by (cases "pt_pc s i") auto
  qed
  moreover have "\<not> deleted s \<longrightarrow> pt_lamp hz s" "deleted s \<and> \<not> pt_late s \<longrightarrow> pt_unloading s" "\<not> pt_late s \<longrightarrow> pt_fault s = None"
    using inv by (auto simp: pt_inv_def)
  moreover have "pt_exit s = Gone \<longrightarrow> deleted s" by (simp add: deleted_def)
  ultimately show ?thesis by (auto simp: pt_lamp_def pt_unloading_def)
qed

theorem pir_threads_lamp_witness:
  "\<exists>s. pir_reachable 1 s \<and> led_timer s = Some 20 \<and> \<not> led_on s \<and> pt_cut s \<and> pt_pin s = 0 \<and> pt_last s = Some 10"
proof -
  obtain s where s: "pir_reachable 1 s" "\<not> pt_lock s" "pt_exit s = Loaded" "pt_last s = Some 10"
      "led_timer s = Some 20" "\<not> led_on s"
    using pir_detection_cut by blast
  have "\<not> deleted s" using s(3) by (simp add: deleted_def)
  then show ?thesis using pir_threads_lamp [OF s(1)] s by auto
qed

end
