(* ===== verification/Proc_Files.thy ===== *)
theory Proc_Files
  imports Kernel
begin

text \<open>
  lab12: the three modules with a text file for an interface: ch11 (a line and the number
  of its spaces, in /proc), ex1 simple_proc (a number and a name, in /proc) and ex2
  simple_sysfs (a word, in /sys). Buffers are character lists of the declared size, every
  indexed access is checked. sscanf is the kernel's: white space in the format and before a
  conversion skips white space, a conversion that finds nothing ends the scan.
\<close>

subsection \<open>Checked access and scanning\<close>

definition store_at :: "char list \<Rightarrow> nat \<Rightarrow> char \<Rightarrow> char list result" where
  "store_at b i c = (if i < length b then Inr (b[i := c]) else Inl Out_of_bounds)"

definition is_space :: "char \<Rightarrow> bool" where
  "is_space c \<longleftrightarrow> c \<in> set [CHR '' '', CHR 0x09, NL, CHR 0x0B, CHR 0x0C, CHR 0x0D, CHR 0xA0]"

definition is_digit :: "char \<Rightarrow> bool" where
  "is_digit c \<longleftrightarrow> 48 \<le> (of_char c :: nat) \<and> (of_char c :: nat) \<le> 57"

text \<open>The scanners read on until a character stops them; past the last byte is out of bounds.\<close>

fun skip_spaces :: "char list \<Rightarrow> char list result" where
  "skip_spaces [] = Inl Out_of_bounds"
| "skip_spaces (c # m) = (if is_space c then skip_spaces m else Inr (c # m))"

fun scan_digits :: "nat \<Rightarrow> char list \<Rightarrow> (nat \<times> char list) result" where
  "scan_digits n [] = Inl Out_of_bounds"
| "scan_digits n (c # m) =
     (if is_digit c then scan_digits (10 * n + (of_char c - 48)) m else Inr (n, c # m))"

fun scan_word :: "char list \<Rightarrow> string result" where
  "scan_word [] = Inl Out_of_bounds"
| "scan_word (c # m) =
     (if c = NUL \<or> is_space c then Inr [] else bindr (scan_word m) (\<lambda>w. Inr (c # w)))"

text \<open>\<open>%d\<close>: the number stored in an int, and the rest; None when there is no number.\<close>

definition scan_int :: "char list \<Rightarrow> (int \<times> char list) option result" where
  "scan_int m =
     bindr (skip_spaces m) (\<lambda>m.
       let neg = (hd m = CHR ''-''); ds = (if neg then tl m else m) in
       case ds of
         [] \<Rightarrow> Inl Out_of_bounds
       | c # _ \<Rightarrow>
           if \<not> is_digit c then Inr None
           else bindr (scan_digits 0 ds) (\<lambda>(n, rest).
             Inr (Some (sint (word_of_int (if neg then - int n else int n) :: 32 word), rest))))"

text \<open>\<open>%s\<close> into the buffer \<open>b\<close>: the word and its terminator must fit.\<close>

definition store_string :: "char list \<Rightarrow> string \<Rightarrow> char list result" where
  "store_string b w = (if length w < length b then Inr (overwrite b (w @ [NUL])) else Inl Out_of_bounds)"

definition scan_string :: "char list \<Rightarrow> char list \<Rightarrow> char list result" where
  "scan_string m b =
     (if m = [] then Inl Out_of_bounds
      else if hd m = NUL then Inr b
      else bindr (skip_spaces m) (\<lambda>m. bindr (scan_word m) (store_string b)))"

subsection \<open>ch11: the line and its spaces\<close>

definition BUF_SIZE :: nat where "BUF_SIZE = 50"

definition ch11_read_str :: "char list" where
  "ch11_read_str = replicate (BUF_SIZE + 1) NUL"

function ch11_count :: "char list \<Rightarrow> nat \<Rightarrow> int \<Rightarrow> int result" where
  "ch11_count str i c =
     (if \<not> i < length str then Inl Out_of_bounds
      else if str ! i = NUL then Inr c
      else ch11_count str (i + 1) (if str ! i = CHR '' '' then c + 1 else c))"
  by auto
termination by (relation "measure (\<lambda>(str, i, c). length str - i)") auto

declare ch11_count.simps [simp del]

definition ch11_proc_info_show :: "char list \<Rightarrow> string result" where
  "ch11_proc_info_show read_str =
     bindr (ch11_count read_str 0 0) (\<lambda>c.
       Inr (''str : '' @ cstring read_str @ [NL] @ ''count: '' @ dec_int c @ [NL]))"

text \<open>Opening binds the file to the show function; a read returns what that prints.\<close>

definition ch11_proc_info_open :: "char list \<Rightarrow> string result" where
  "ch11_proc_info_open = ch11_proc_info_show"

definition ch11_proc_info_write :: "char list \<Rightarrow> char list \<Rightarrow> nat \<Rightarrow> (int \<times> char list) result" where
  "ch11_proc_info_write read_str ubuf ubuf_len =
     (let len = (if ubuf_len > BUF_SIZE then BUF_SIZE else ubuf_len);
          (str, left) = copy_from_user read_str ubuf len
      in if left \<noteq> 0 then Inr (- EFAULT, str)
         else bindr (store_at str len NUL) (\<lambda>str.
           bindr (if 0 < len \<and> str ! (len - 1) = NL then store_at str (len - 1) NUL else Inr str)
             (\<lambda>str. Inr (int ubuf_len, str))))"

subsection \<open>ex1: a number and a name\<close>

record simple_proc =
  proc_id :: int
  proc_name :: "char list" \<comment> \<open>100 bytes\<close>

definition simple_proc_static :: simple_proc where
  "simple_proc_static =
     \<lparr>proc_id = 202077777, proc_name = ''Embedded_System_Software'' @ replicate 76 NUL\<rparr>"

definition PROC_BUF_SIZE :: nat where "PROC_BUF_SIZE = 128"

definition simple_proc_show :: "simple_proc \<Rightarrow> string" where
  "simple_proc_show s = dec_int (proc_id s) @ [NL] @ cstring (proc_name s) @ [NL]"

definition simple_proc_open :: "simple_proc \<Rightarrow> string" where
  "simple_proc_open = simple_proc_show"

text \<open>\<open>buf\<close> is the uninitialised local buffer.\<close>

definition simple_proc_write ::
  "char list \<Rightarrow> simple_proc \<Rightarrow> char list \<Rightarrow> nat \<Rightarrow> (int \<times> simple_proc) result" where
  "simple_proc_write buf s ubuf ubuf_len =
     (if ubuf_len > PROC_BUF_SIZE then Inr (- 1, s)
      else let (buf, left) = copy_from_user buf ubuf ubuf_len in
      if left \<noteq> 0 then Inr (- 1, s)
      else let s1 = s\<lparr>proc_name := replicate 100 NUL\<rparr> in
      bindr (scan_int buf) (\<lambda>x.
        case x of
          None \<Rightarrow> Inr (int ubuf_len, s1)
        | Some (n, rest) \<Rightarrow>
            bindr (skip_spaces rest) (\<lambda>rest.
              bindr (scan_string rest (proc_name s1)) (\<lambda>nm.
                Inr (int ubuf_len, s1\<lparr>proc_id := n, proc_name := nm\<rparr>)))))"

text \<open>Loading and unloading are the same in ch11 and ex1.\<close>

definition simple_proc_init :: "kernel \<Rightarrow> unit \<Rightarrow> int \<times> unit \<times> kcall list" where
  "simple_proc_init k s =
     (let t1 = [Proc_mkdir (ret_proc_mkdir k)] in
      if \<not> ret_proc_mkdir k then (- ENOMEM, s, t1) else (0, s, t1 @ [Proc_create]))"

definition simple_proc_exit :: "unit \<Rightarrow> unit \<times> kcall list" where
  "simple_proc_exit s = (s, [Proc_remove])"

definition ch11_init :: "kernel \<Rightarrow> unit \<Rightarrow> int \<times> unit \<times> kcall list" where
  "ch11_init = simple_proc_init"

definition ch11_exit :: "unit \<Rightarrow> unit \<times> kcall list" where
  "ch11_exit = simple_proc_exit"

subsection \<open>ex2: a word\<close>

definition PAGE_SIZE :: nat where "PAGE_SIZE = 4096"

definition sysfs_value :: "char list" where "sysfs_value = replicate 1024 NUL"

text \<open>snprintf writes at most a page, terminator included, and returns the full length.\<close>

definition simple_show_value :: "char list \<Rightarrow> int \<times> string" where
  "simple_show_value val =
     (let out = cstring val @ [NL] in (int (length out), take (PAGE_SIZE - 1) out))"

text \<open>\<open>buf\<close> is the page the kernel passes, with a NUL after the bytes written.\<close>

definition simple_store_value :: "char list \<Rightarrow> char list \<Rightarrow> (int \<times> char list) result" where
  "simple_store_value val buf =
     bindr (scan_string buf val) (\<lambda>val.
       Inr (int (min PAGE_SIZE (length (cstring buf))), val))"

definition simple_sysfs_init :: "kernel \<Rightarrow> char list \<Rightarrow> int \<times> char list \<times> kcall list" where
  "simple_sysfs_init k val =
     (let val = replicate (length val) NUL; err = ret_platform_register k; t1 = [Platform_device_register err] in
      if err \<noteq> 0 then (err, val, t1)
      else let err = ret_create_file k; t2 = t1 @ [Device_create_file err] in
      if err \<noteq> 0 then (err, val, t2 @ [Platform_device_unregister])
      else (0, val, t2))"

definition simple_sysfs_exit :: "char list \<Rightarrow> char list \<times> kcall list" where
  "simple_sysfs_exit val = (val, [Device_remove_file, Platform_device_unregister])"

fun no_calls :: "unit \<Rightarrow> 's \<Rightarrow> 's \<times> kcall list" where
  "no_calls u s = (s, [])"

interpretation proc_module: kmodule simple_proc_init no_calls simple_proc_exit "\<lambda>_. {#Proc_dir#}"
  by unfold_locales
    (auto simp: simple_proc_init_def simple_proc_exit_def errno Let_def split: if_splits)

interpretation ch11_module: kmodule ch11_init no_calls ch11_exit "\<lambda>_. {#Proc_dir#}"
  unfolding ch11_init_def ch11_exit_def by (rule proc_module.kmodule_axioms)

interpretation sysfs_module: kmodule simple_sysfs_init no_calls simple_sysfs_exit "\<lambda>_. {#Platform_device, Device_file#}"
  by unfold_locales (auto simp: simple_sysfs_init_def simple_sysfs_exit_def Let_def split: if_splits)

subsection \<open>Lemmas on ch11\<close>

definition ch11_ok :: "char list \<Rightarrow> bool" where
  "ch11_ok str \<longleftrightarrow> length str = 51 \<and> str ! 50 = NUL"

lemma ch11_ok_start [simp]: "ch11_ok ch11_read_str"
  by (simp add: ch11_ok_def ch11_read_str_def BUF_SIZE_def del: replicate.simps)

lemma ch11_count_spaces:
  assumes "NUL \<in> set str" and "i \<le> length (cstring str)"
  shows "ch11_count str i c = Inr (c + int (count_list (drop i (cstring str)) (CHR '' '')))"
  using assms(2)
proof (induction "length (cstring str) - i" arbitrary: i c)
  case 0
  then have i: "i = length (cstring str)" by simp
  have "str ! i = NUL" "i < length str"
    using assms(1) nth_length_takeWhile [of "\<lambda>c. c \<noteq> NUL" str] length_cstring_less [OF assms(1)]
    by (auto simp: i cstring_def)
  then show ?case using i by (subst ch11_count.simps) simp
next
  case (Suc k)
  then have i: "i < length (cstring str)" by simp
  have same: "cstring str ! i = str ! i" using i by (simp add: cstring_def takeWhile_nth)
  have "str ! i \<noteq> NUL" using NUL_notin_cstring [of str] nth_mem [OF i] same by metis
  moreover have "i < length str" using i length_cstring_le [of str] by simp
  moreover have "drop i (cstring str) = str ! i # drop (Suc i) (cstring str)"
    using Cons_nth_drop_Suc [OF i] same by simp
  ultimately show ?case
    using Suc.hyps(1) [of "Suc i"] Suc.hyps(2) i by (subst ch11_count.simps) simp
qed

lemma ch11_show:
  "ch11_ok str \<Longrightarrow> ch11_proc_info_show str =
    Inr (''str : '' @ cstring str @ [NL] @ ''count: '' @
      dec_int (int (count_list (cstring str) (CHR '' ''))) @ [NL])"
proof -
  assume "ch11_ok str"
  then have "NUL \<in> set str" using nth_mem [of 50 str] by (simp add: ch11_ok_def)
  then show ?thesis
    using ch11_count_spaces [of str 0 0] by (simp add: ch11_proc_info_show_def)
qed

lemma ch11_write_eq:
  "ch11_proc_info_write str ubuf k =
     (case copy_from_user str ubuf (min k 50) of (str, left) \<Rightarrow>
        if left \<noteq> 0 then Inr (- EFAULT, str)
        else bindr (store_at str (min k 50) NUL) (\<lambda>str.
          bindr (if 0 < min k 50 \<and> str ! (min k 50 - 1) = NL then store_at str (min k 50 - 1) NUL else Inr str)
            (\<lambda>str. Inr (int k, str))))"
proof -
  have "(if k > BUF_SIZE then BUF_SIZE else k) = min k 50" by (simp add: BUF_SIZE_def min_def)
  then show ?thesis by (simp only: ch11_proc_info_write_def Let_def)
qed

text \<open>The line a write stores: at most 50 bytes, without a newline at the end.\<close>

definition ch11_line :: "char list \<Rightarrow> nat \<Rightarrow> string" where
  "ch11_line ubuf n =
     (let w = take (min n 50) ubuf in if w \<noteq> [] \<and> last w = NL then butlast w else w)"

lemma ch11_write_ok:
  assumes "ch11_ok str" and "min ubuf_len 50 \<le> length ubuf"
  shows "\<exists>str'. ch11_proc_info_write str ubuf ubuf_len = Inr (int ubuf_len, str') \<and> ch11_ok str' \<and>
    cstring str' = cstring (ch11_line ubuf ubuf_len)"
proof -
  define w where "w = take (min ubuf_len 50) ubuf"
  define n where "n = min ubuf_len 50"
  define d where "d = drop n str"
  have str: "length str = 51" "str ! 50 = NUL" using assms(1) by (auto simp: ch11_ok_def)
  have n: "length w = n" "n \<le> 50" using assms(2) by (auto simp: w_def n_def)
  have ld: "length d = 51 - n" by (simp add: d_def str)
  have c: "copy_from_user str ubuf n = (w @ d, 0)"
    using assms(2) by (simp add: copy_from_user_def overwrite_def w_def n_def d_def)
  define b where "b = (w @ d)[n := NUL]"
  have b: "length b = 51" "b ! 50 = NUL"
    using n ld str by (auto simp: b_def nth_list_update nth_append d_def)
  obtain x r where d: "d = x # r" using ld n(2) by (cases d) auto
  have bw: "b = w @ NUL # r" using n(1) by (simp add: b_def d list_update_middle)
  have last: "b ! (n - 1) = last w" if "0 < n"
    using that n(1) by (auto simp: bw nth_append last_conv_nth)
  have "store_at (w @ d) n NUL = Inr b" using n ld by (simp add: store_at_def b_def)
  then have "ch11_proc_info_write str ubuf ubuf_len =
      Inr (int ubuf_len, if 0 < n \<and> last w = NL then b[n - 1 := NUL] else b)"
    using b(1) n(2) last unfolding ch11_write_eq n_def [symmetric] c by (auto simp: store_at_def)
  moreover have "ch11_ok (if 0 < n \<and> last w = NL then b[n - 1 := NUL] else b)"
    using b n(2) by (auto simp: ch11_ok_def nth_list_update)
  moreover have "cstring b = cstring w" by (simp add: bw cstring_append_cut)
  moreover have "cstring (b[n - 1 := NUL]) = cstring (butlast w)" if "0 < n"
  proof -
    have "w = butlast w @ [last w]" using that n(1) by (cases w rule: rev_cases) auto
    then have "b[n - 1 := NUL] = butlast w @ NUL # NUL # r"
      using n(1) list_update_middle [of "butlast w" "n - 1" "last w" "NUL # r" NUL]
      by (metis bw append.assoc append_Cons append_Nil length_butlast)
    then show ?thesis by (simp add: cstring_append_cut)
  qed
  moreover have "w \<noteq> [] \<longleftrightarrow> 0 < n" using n(1) by auto
  ultimately show ?thesis
    by (auto simp: ch11_line_def Let_def w_def [symmetric])
qed

lemma ch11_write_total:
  assumes "ch11_ok str"
  shows "\<exists>r str'. ch11_proc_info_write str ubuf n = Inr (r, str') \<and> ch11_ok str'"
proof (cases "min n 50 \<le> length ubuf")
  case True
  then show ?thesis using ch11_write_ok [OF assms True] by blast
next
  case False
  have "length (fst (copy_from_user str ubuf (min n 50))) = 51" "fst (copy_from_user str ubuf (min n 50)) ! 50 = NUL"
    using assms copy_from_user_length [of "min n 50" str ubuf] copy_from_user_nth_ge [of "min n 50" 50 str ubuf]
    by (auto simp: ch11_ok_def)
  moreover have "snd (copy_from_user str ubuf (min n 50)) \<noteq> 0"
    using False by (simp add: copy_from_user_def)
  ultimately show ?thesis
    by (cases "copy_from_user str ubuf (min n 50)") (auto simp: ch11_write_eq ch11_ok_def)
qed

subsection \<open>Lemmas on scanning\<close>

definition is_word :: "string \<Rightarrow> bool" where
  "is_word w \<longleftrightarrow> w \<noteq> [] \<and> (\<forall>c \<in> set w. c \<noteq> NUL \<and> \<not> is_space c)"

lemma scan_word_stops: "\<forall>c \<in> set w. c \<noteq> NUL \<and> \<not> is_space c \<Longrightarrow> c = NUL \<or> is_space c \<Longrightarrow> scan_word (w @ c # m) = Inr w"
  by (induction w) auto

lemma scan_string_word:
  assumes "is_word w" and "c = NUL \<or> is_space c"
  shows "scan_string (w @ c # m) b = store_string b w"
proof -
  obtain x v where w: "w = x # v" "x \<noteq> NUL" "\<not> is_space x"
    using assms(1) by (cases w) (auto simp: is_word_def)
  then have "skip_spaces (w @ c # m) = Inr (w @ c # m)" by simp
  then show ?thesis
    using assms scan_word_stops [of w c m] w by (simp add: scan_string_def is_word_def)
qed

lemma of_char_digit: "d < 10 \<Longrightarrow> (of_char (digit d) :: nat) = 48 + d"
  by (simp add: digit_def of_char_of take_bit_eq_mod)

lemma is_digit_digit [simp]: "d < 10 \<Longrightarrow> is_digit (digit d)"
  by (simp add: is_digit_def of_char_digit)

lemma scan_digits_dec:
  "scan_digits a (dec_nat n @ m) = scan_digits (a * 10 ^ length (dec_nat n) + n) m"
proof (induction n arbitrary: a m rule: dec_nat.induct)
  case (1 n)
  show ?case
  proof (cases "n < 10")
    case True
    then show ?thesis by (simp add: of_char_digit mult.commute)
  next
    case False
    then have s: "dec_nat n = dec_nat (n div 10) @ [digit (n mod 10)]" by (simp add: dec_nat.simps [of n])
    have v: "n + 10 * (a * 10 ^ k) = a * (10 * 10 ^ k) + n" for k by simp
    show ?thesis
      using 1 [OF False, of a "digit (n mod 10) # m"] v [of "length (dec_nat (n div 10))"]
      by (simp add: s of_char_digit)
  qed
qed

lemma dec_nat_head: "\<exists>d k. d < 10 \<and> dec_nat n = digit d # k"
proof (induction n rule: dec_nat.induct)
  case (1 n)
  then show ?case by (cases "n < 10") (auto simp: dec_nat.simps [of n])
qed

lemma digit_plain: "d < 10 \<Longrightarrow> \<not> is_space (digit d) \<and> digit d \<noteq> CHR ''-'' \<and> digit d \<noteq> NUL"
  by (cases "d \<in> {0, 1, 2, 3, 4, 5, 6, 7, 8, 9}") (auto simp: is_space_def)

lemma scan_int_dec:
  assumes "- (2 ^ 31) \<le> i" and "i < 2 ^ 31" and "\<not> is_digit c"
  shows "scan_int (dec_int i @ c # m) = Inr (Some (i, c # m))"
proof -
  have w: "sint (word_of_int i :: 32 word) = i"
    using assms(1,2) by (simp add: sint_sbintrunc' signed_take_bit_int_eq_self)
  obtain d k where n: "d < 10" "dec_nat (nat \<bar>i\<bar>) = digit d # k" using dec_nat_head by blast
  have s: "scan_digits 0 (dec_nat (nat \<bar>i\<bar>) @ c # m) = Inr (nat \<bar>i\<bar>, c # m)"
    using assms(3) by (simp add: scan_digits_dec)
  show ?thesis
  proof (cases "i < 0")
    case True
    then have "dec_int i = CHR ''-'' # dec_nat (nat \<bar>i\<bar>)" by (simp add: dec_int_def)
    then show ?thesis
      using True n s w by (simp add: scan_int_def is_space_def)
  next
    case False
    then have "dec_int i = dec_nat (nat \<bar>i\<bar>)" by (simp add: dec_int_def)
    then show ?thesis
      using False n s w digit_plain [OF n(1)] by (simp add: scan_int_def)
  qed
qed

lemma store_string_fits:
  "length w < length b \<Longrightarrow> NUL \<notin> set w \<Longrightarrow>
    \<exists>b'. store_string b w = Inr b' \<and> length b' = length b \<and> cstring b' = w"
  by (auto simp: store_string_def overwrite_def cstring_append_NUL)

lemma word_no_NUL: "is_word w \<Longrightarrow> NUL \<notin> set w"
  by (auto simp: is_word_def)

subsection \<open>What a successful write leaves\<close>

definition plain_word :: "string \<Rightarrow> bool" where
  "plain_word w \<longleftrightarrow> (\<forall>c \<in> set w. c \<noteq> NUL \<and> \<not> is_space c)"

lemma scan_word_plain: "scan_word m = Inr w \<Longrightarrow> plain_word w"
proof (induction m arbitrary: w rule: scan_word.induct)
  case (2 c m)
  show ?case
  proof (cases "c = NUL \<or> is_space c")
    case True
    then show ?thesis using 2(2) by (simp add: plain_word_def)
  next
    case False
    then obtain v where "scan_word m = Inr v" "w = c # v" using 2(2) by (auto simp: bindr_eq_Inr)
    then show ?thesis using 2(1) [of v] False by (simp add: plain_word_def)
  qed
qed simp

definition name_ok :: "char list \<Rightarrow> bool" where
  "name_ok b \<longleftrightarrow> plain_word (cstring b) \<and> length (cstring b) < length b"

lemma store_string_ok:
  assumes "store_string b w = Inr b'" and "plain_word w"
  shows "length b' = length b \<and> name_ok b'"
proof -
  have "length w < length b" "b' = overwrite b (w @ [NUL])"
    using assms(1) by (auto simp: store_string_def split: if_splits)
  moreover have "cstring (overwrite b (w @ [NUL])) = w"
    using assms(2) by (auto simp: overwrite_def plain_word_def intro!: cstring_append_NUL)
  ultimately show ?thesis using assms(2) by (auto simp: name_ok_def overwrite_def)
qed

lemma scan_string_ok:
  assumes "scan_string m b = Inr b'" and "name_ok b"
  shows "length b' = length b \<and> name_ok b'"
  using assms scan_word_plain store_string_ok
  by (auto simp: scan_string_def bindr_eq_Inr split: if_splits)

lemma scan_int_range:
  assumes "scan_int m = Inr (Some (n, rest))"
  shows "- (2 ^ 31) \<le> n \<and> n < 2 ^ 31"
proof -
  obtain a where a: "skip_spaces m = Inr a" using assms by (auto simp: scan_int_def bindr_eq_Inr)
  define ds where "ds = (if hd a = CHR ''-'' then tl a else a)"
  have "\<exists>w :: 32 word. n = sint w"
  proof (cases ds)
    case Nil
    then show ?thesis using assms a by (simp add: scan_int_def ds_def [symmetric] Let_def)
  next
    case (Cons c x)
    then show ?thesis
      using assms a by (auto simp: scan_int_def ds_def [symmetric] bindr_eq_Inr Let_def split: if_splits)
  qed
  then show ?thesis using sint_ge [where ?'a = 32] sint_lt [where ?'a = 32] by auto
qed

definition proc_ok :: "simple_proc \<Rightarrow> bool" where
  "proc_ok s \<longleftrightarrow> length (proc_name s) = 100 \<and> name_ok (proc_name s) \<and> - (2 ^ 31) \<le> proc_id s \<and> proc_id s < 2 ^ 31"

lemma zeros_ok [simp]: "name_ok (replicate 100 NUL)"
  by (simp add: name_ok_def plain_word_def numeral_eq_Suc)

lemma simple_proc_write_ok:
  assumes "simple_proc_write buf s ubuf k = Inr (r, s')" and "proc_ok s"
  shows "proc_ok s'"
  using assms scan_string_ok [OF _ zeros_ok] scan_int_range
  by (auto simp: simple_proc_write_def proc_ok_def bindr_eq_Inr Let_def split: if_splits prod.splits option.splits)

lemma simple_proc_static_ok: "proc_ok simple_proc_static"
  by (simp add: proc_ok_def simple_proc_static_def name_ok_def cstring_append_NUL plain_word_def is_space_def
      numeral_eq_Suc)

lemma proc_ok_shows:
  "proc_ok s \<Longrightarrow> simple_proc_show s = dec_int (proc_id s) @ [NL] @ cstring (proc_name s) @ [NL] \<and>
    plain_word (cstring (proc_name s)) \<and> length (cstring (proc_name s)) < 100"
  by (simp add: simple_proc_show_def proc_ok_def name_ok_def)

text \<open>After any writes that did not fault the number is an int and the name a terminated word.\<close>

lemma simple_proc_typed:
  "foldl (\<lambda>b (buf, ubuf, k). bindr b (\<lambda>s. bindr (simple_proc_write buf s ubuf k) (\<lambda>(r, s'). Inr s')))
      (Inr simple_proc_static) ws = Inr s \<Longrightarrow> proc_ok s"
proof (induction ws arbitrary: s rule: rev_induct)
  case (snoc x ws)
  then show ?case by (cases x) (auto simp: bindr_eq_Inr intro: simple_proc_write_ok)
qed (simp add: simple_proc_static_ok)

subsection \<open>The branches of a write\<close>








lemma not_digit [simp]: "is_space c \<Longrightarrow> \<not> is_digit c" "\<not> is_digit NUL"
  by (auto simp: is_space_def is_digit_def)





subsection \<open>Properties\<close>



text \<open>
  The proc file of ch11 never leaves its 51 bytes: whatever users write, readable or
  not and of any length, every write returns, every read returns, and the buffer stays
  terminated, so the counting loop ends inside it.
\<close>

lemma ch11_never_faults:
  "\<exists>str. foldl (\<lambda>b (ubuf, k). bindr b (\<lambda>str. bindr (ch11_proc_info_write str ubuf k) (\<lambda>(r, str'). Inr str')))
      (Inr ch11_read_str) ws = Inr str \<and>
    length str = 51 \<and> str ! 50 = NUL \<and> (\<exists>out. ch11_proc_info_show str = Inr out)"
proof -
  have "\<exists>str. foldl (\<lambda>b (ubuf, k). bindr b (\<lambda>str. bindr (ch11_proc_info_write str ubuf k) (\<lambda>(r, str'). Inr str')))
      (Inr str0) ws = Inr str \<and> ch11_ok str" if "ch11_ok str0" for str0
    using that
  proof (induction ws arbitrary: str0)
    case (Cons x ws)
    obtain ubuf k where x: "x = (ubuf, k)" by force
    show ?case using ch11_write_total [OF Cons.prems, of ubuf k] Cons.IH by (auto simp: x)
  qed auto
  then show ?thesis using ch11_ok_start ch11_show by (fastforce simp: ch11_ok_def)
qed

text \<open>
  C36. What is written to the proc file of ch11 is what is read: after a readable write the
  file shows the first 50 bytes, without a newline at their end, up to the first NUL, and
  the number of spaces in them.
\<close>

theorem ch11_write_then_read:
  assumes "length str = 51" and "str ! 50 = NUL" and "n \<le> length ubuf"
  shows "\<exists>str'. ch11_proc_info_write str ubuf n = Inr (int n, str') \<and>
    ch11_proc_info_show str' = Inr (''str : '' @ cstring (ch11_line ubuf n) @ [NL] @ ''count: '' @
      dec_int (int (count_list (cstring (ch11_line ubuf n)) (CHR '' ''))) @ [NL])"
proof -
  have "ch11_ok str" using assms(1,2) by (simp add: ch11_ok_def)
  moreover have "min n 50 \<le> length ubuf" using assms(3) by simp
  ultimately obtain str' where "ch11_proc_info_write str ubuf n = Inr (int n, str')" "ch11_ok str'"
      "cstring str' = cstring (ch11_line ubuf n)"
    using ch11_write_ok by blast
  then show ?thesis using ch11_show by simp
qed

theorem ch11_write_then_read_witness:
  "\<exists>str'. ch11_proc_info_write ch11_read_str (''a b c'' @ [NL]) 6 = Inr (6, str') \<and>
     ch11_proc_info_show str' = Inr (''str : a b c'' @ [NL] @ ''count: 2'' @ [NL])"
  using ch11_write_then_read [of ch11_read_str 6 "''a b c'' @ [NL]"] ch11_ok_start
  by (simp add: ch11_ok_def ch11_line_def dec_int_def)

text \<open>
  C40. A number and a name written to the proc file of simple_proc come back unchanged, for
  every 32-bit number, as long as the name has at most 99 characters; a longer name, which
  the size check lets through, is written past the end of \<open>name\<close>.
\<close>

theorem simple_proc_roundtrip:
  assumes "- (2 ^ 31) \<le> i" and "i < 2 ^ 31" and "is_word nm"
    and u: "ubuf = dec_int i @ CHR '' '' # nm @ [NL]" and "length ubuf \<le> 128" and "length buf = 128"
  shows "if length nm < 100
    then \<exists>s'. simple_proc_write buf s ubuf (length ubuf) = Inr (int (length ubuf), s') \<and>
      proc_id s' = i \<and> simple_proc_show s' = dec_int i @ [NL] @ nm @ [NL]
    else simple_proc_write buf s ubuf (length ubuf) = Inl Out_of_bounds"
proof -
  define rest where "rest = drop (length ubuf) buf"
  have c: "copy_from_user buf ubuf (length ubuf) = (dec_int i @ CHR '' '' # nm @ NL # rest, 0)"
    by (simp add: copy_from_user_def overwrite_def rest_def u)
  have scan: "scan_int (dec_int i @ CHR '' '' # nm @ NL # rest) = Inr (Some (i, CHR '' '' # nm @ NL # rest))"
    using assms(1,2) by (rule scan_int_dec) (simp add: is_digit_def)
  have sp: "is_space (CHR '' '')" "is_space NL" by (simp_all add: is_space_def)
  obtain x v where nm: "nm = x # v" "\<not> is_space x"
    using assms(3) by (cases nm) (auto simp: is_word_def)
  have skip: "skip_spaces (CHR '' '' # nm @ NL # rest) = Inr (nm @ NL # rest)"
    using sp nm by simp
  have "simple_proc_write buf s ubuf (length ubuf) =
      bindr (store_string (replicate 100 NUL) nm) (\<lambda>b.
        Inr (int (length ubuf), s\<lparr>proc_id := i, proc_name := b\<rparr>))"
    using assms(5) c scan skip scan_string_word [OF assms(3), of NL rest] sp(2)
    by (simp add: simple_proc_write_def PROC_BUF_SIZE_def del: replicate.simps)
  then show ?thesis
    using store_string_fits [of nm "replicate 100 NUL"] word_no_NUL [OF assms(3)]
    by (auto simp: store_string_def simple_proc_show_def simp del: replicate.simps)
qed

theorem simple_proc_roundtrip_witness:
  "\<exists>s'. simple_proc_write (replicate 128 NUL) \<lparr>proc_id = 1, proc_name = replicate 100 NUL\<rparr>
       (dec_int (- 7) @ CHR '' '' # ''kim'' @ [NL]) 7 = Inr (7, s') \<and>
     simple_proc_show s' = dec_int (- 7) @ [NL] @ ''kim'' @ [NL]"
proof -
  have w: "is_word ''kim''" by (simp add: is_word_def is_space_def)
  have l: "length (dec_int (- 7) @ CHR '' '' # ''kim'' @ [NL]) = 7" by (simp add: dec_int_def)
  show ?thesis
    using simple_proc_roundtrip [OF _ _ w refl, of "- 7" "replicate 128 NUL" "\<lparr>proc_id = 1, proc_name = replicate 100 NUL\<rparr>"]
    unfolding l by (auto simp del: replicate.simps)
qed

text \<open>
  The sysfs attribute returns the word stored in it, whatever it held, if the word has
  at most 1023 characters; a longer word, which nothing checks, is written past the end of
  \<open>value\<close>.
\<close>

lemma sysfs_roundtrip:
  assumes "is_word w" and "length val = 1024"
  shows "if length w < 1024
    then \<exists>val'. simple_store_value val (w @ NL # NUL # rest) = Inr (int (length w + 1), val') \<and>
      length val' = 1024 \<and> simple_show_value val' = (int (length w + 1), w @ [NL])
    else simple_store_value val (w @ NL # NUL # rest) = Inl Out_of_bounds"
proof -
  have "is_space NL" by (simp add: is_space_def)
  then have s: "scan_string (w @ NL # NUL # rest) val = store_string val w"
    by (intro scan_string_word [OF assms(1)]) simp
  have "cstring ((w @ [NL]) @ NUL # rest) = w @ [NL]"
    using word_no_NUL [OF assms(1)] by (intro cstring_append_NUL) auto
  then have l: "length (cstring (w @ NL # NUL # rest)) = length w + 1" by simp
  show ?thesis
    using store_string_fits [of w val] word_no_NUL [OF assms(1)] assms(2)
    by (auto simp: simple_store_value_def s l PAGE_SIZE_def store_string_def simple_show_value_def)
qed

lemma sysfs_roundtrip_example:
  "\<exists>val'. simple_store_value sysfs_value (''on'' @ NL # NUL # []) = Inr (3, val') \<and>
     simple_show_value val' = (3, ''on'' @ [NL])"
proof -
  have "is_word ''on''" by (simp add: is_word_def is_space_def)
  then show ?thesis
    using sysfs_roundtrip [of "''on''" sysfs_value "[]"] by (auto simp: sysfs_value_def simp del: replicate.simps)
qed

end
