(* ===== verification/Proc_Threads.thy ===== *)
theory Proc_Threads
  imports Proc_Files Draining
begin

text \<open>
  lab12/ch11 (ch11_202111360.c) with readers and writers of the proc file side by side.
  Neither takes a lock, so a step is one character read or written. Shown, for every
  interleaving: no access leaves the buffer, every read and every write returns, and an
  undisturbed write is the function of Proc_Files; but a read beside a write can print a
  text and a count that do not belong together.
\<close>

subsection \<open>Threads and steps\<close>

datatype ch11_pc =
    Outside
  | R_count nat int \<comment> \<open>\<open>i\<close> and \<open>count\<close>\<close>
  | R_print nat int "char list" \<comment> \<open>in seq_printf: the position, and what it has printed\<close>
  | W_copy nat "char list" nat nat \<comment> \<open>\<open>ubuf_len\<close>, the readable bytes, \<open>len\<close>, the position\<close>
  | W_end nat nat
  | W_newline nat nat
  | W_strip nat nat
  | Done int

record ch11_threads =
  c11_str :: "char list" \<comment> \<open>\<open>read_str\<close>\<close>
  c11_pc :: "nat \<Rightarrow> ch11_pc"
  c11_fault :: "fault option"
  c11_out :: "(nat \<times> char list \<times> int) list" \<comment> \<open>the text and the count each read printed\<close>

definition c11_goto :: "ch11_threads \<Rightarrow> nat \<Rightarrow> ch11_pc \<Rightarrow> ch11_threads" where
  "c11_goto s i x = s\<lparr>c11_pc := (c11_pc s)(i := x)\<rparr>"

definition c11_start :: "ch11_threads \<Rightarrow> bool" where
  "c11_start s \<longleftrightarrow> c11_str s = ch11_read_str \<and> c11_pc s = (\<lambda>_. Outside) \<and> c11_fault s = None \<and> c11_out s = []"

text \<open>The index an access of the thread uses next, when it has one.\<close>

fun accessed :: "ch11_pc \<Rightarrow> nat option" where
  "accessed (R_count k c) = Some k"
| "accessed (R_print k c out) = Some k"
| "accessed (W_copy n ubuf len k) = (if k < len then Some k else None)"
| "accessed (W_end n len) = Some len"
| "accessed (W_newline n len) = (if 0 < len then Some (len - 1) else None)"
| "accessed (W_strip n len) = Some (len - 1)"
| "accessed _ = None"

inductive ch11_step :: "nat \<Rightarrow> ch11_threads \<Rightarrow> ch11_threads \<Rightarrow> bool" for i :: nat where
  call_show: "c11_pc s i = Outside \<Longrightarrow> ch11_step i s (c11_goto s i (R_count 0 0))"
| out_of_bounds: "accessed (c11_pc s i) = Some k \<Longrightarrow> \<not> k < length (c11_str s) \<Longrightarrow>
    ch11_step i s (s\<lparr>c11_fault := Some Out_of_bounds\<rparr>)"
| count_next: "c11_pc s i = R_count k c \<Longrightarrow> k < length (c11_str s) \<Longrightarrow> c11_str s ! k \<noteq> NUL \<Longrightarrow>
    ch11_step i s (c11_goto s i (R_count (k + 1) (if c11_str s ! k = CHR '' '' then c + 1 else c)))"
| count_end: "c11_pc s i = R_count k c \<Longrightarrow> k < length (c11_str s) \<Longrightarrow> c11_str s ! k = NUL \<Longrightarrow>
    ch11_step i s (c11_goto s i (R_print 0 c []))"
| print_next: "c11_pc s i = R_print k c out \<Longrightarrow> k < length (c11_str s) \<Longrightarrow> c11_str s ! k \<noteq> NUL \<Longrightarrow>
    ch11_step i s (c11_goto s i (R_print (k + 1) c (out @ [c11_str s ! k])))"
| print_end: "c11_pc s i = R_print k c out \<Longrightarrow> k < length (c11_str s) \<Longrightarrow> c11_str s ! k = NUL \<Longrightarrow>
    ch11_step i s ((c11_goto s i (Done 0))\<lparr>c11_out := c11_out s @ [(i, out, c)]\<rparr>)"
| call_write: "c11_pc s i = Outside \<Longrightarrow> len = (if ubuf_len > BUF_SIZE then BUF_SIZE else ubuf_len) \<Longrightarrow>
    ch11_step i s (c11_goto s i (W_copy ubuf_len ubuf len 0))"
| copy_byte: "c11_pc s i = W_copy n ubuf len k \<Longrightarrow> k < len \<Longrightarrow> k < length (c11_str s) \<Longrightarrow>
    ch11_step i s ((c11_goto s i (W_copy n ubuf len (k + 1)))\<lparr>c11_str := (c11_str s)[k := if k < length ubuf then ubuf ! k else NUL]\<rparr>)"
| copy_fault: "c11_pc s i = W_copy n ubuf len k \<Longrightarrow> \<not> k < len \<Longrightarrow> length ubuf < len \<Longrightarrow>
    ch11_step i s (c11_goto s i (Done (- EFAULT)))"
| copy_end: "c11_pc s i = W_copy n ubuf len k \<Longrightarrow> \<not> k < len \<Longrightarrow> \<not> length ubuf < len \<Longrightarrow>
    ch11_step i s (c11_goto s i (W_end n len))"
| terminate: "c11_pc s i = W_end n len \<Longrightarrow> len < length (c11_str s) \<Longrightarrow>
    ch11_step i s ((c11_goto s i (W_newline n len))\<lparr>c11_str := (c11_str s)[len := NUL]\<rparr>)"
| newline: "c11_pc s i = W_newline n len \<Longrightarrow> 0 < len \<Longrightarrow> len - 1 < length (c11_str s) \<Longrightarrow> c11_str s ! (len - 1) = NL \<Longrightarrow>
    ch11_step i s (c11_goto s i (W_strip n len))"
| no_newline: "c11_pc s i = W_newline n len \<Longrightarrow> 0 < len \<Longrightarrow> len - 1 < length (c11_str s) \<Longrightarrow> c11_str s ! (len - 1) \<noteq> NL \<Longrightarrow>
    ch11_step i s (c11_goto s i (Done (int n)))"
| write_nothing: "c11_pc s i = W_newline n len \<Longrightarrow> \<not> 0 < len \<Longrightarrow> ch11_step i s (c11_goto s i (Done (int n)))"
| strip: "c11_pc s i = W_strip n len \<Longrightarrow> len - 1 < length (c11_str s) \<Longrightarrow>
    ch11_step i s ((c11_goto s i (Done (int n)))\<lparr>c11_str := (c11_str s)[len - 1 := NUL]\<rparr>)"
| return: "c11_pc s i = Done r \<Longrightarrow> ch11_step i s (c11_goto s i Outside)"

inductive_cases ch11_stepE: "ch11_step i s t"

lemma c11_goto_simps [simp]:
  "c11_str (c11_goto s i x) = c11_str s" "c11_pc (c11_goto s i x) = (c11_pc s)(i := x)"
  "c11_fault (c11_goto s i x) = c11_fault s" "c11_out (c11_goto s i x) = c11_out s"
  by (simp_all add: c11_goto_def)

subsection \<open>The buffer stays terminated\<close>

text \<open>No thread ever writes the last of the 51 bytes with anything but NUL, so no thread reads beyond it.\<close>

fun c11_pc_ok :: "ch11_pc \<Rightarrow> bool" where
  "c11_pc_ok (R_count k c) = (k \<le> 50 \<and> 0 \<le> c \<and> c \<le> int k)"
| "c11_pc_ok (R_print k c out) = (k \<le> 50 \<and> length out = k \<and> NUL \<notin> set out \<and> 0 \<le> c \<and> c \<le> 50)"
| "c11_pc_ok (W_copy n ubuf len k) = (k \<le> len \<and> len = min n 50)"
| "c11_pc_ok (W_end n len) = (len = min n 50)"
| "c11_pc_ok (W_newline n len) = (len = min n 50)"
| "c11_pc_ok (W_strip n len) = (len = min n 50 \<and> 0 < len)"
| "c11_pc_ok _ = True"

definition c11_inv :: "ch11_threads \<Rightarrow> bool" where
  "c11_inv s \<longleftrightarrow> c11_fault s = None \<and> ch11_ok (c11_str s) \<and> (\<forall>i. c11_pc_ok (c11_pc s i)) \<and>
     (\<forall>(i, out, c) \<in> set (c11_out s). length out \<le> 50 \<and> NUL \<notin> set out \<and> 0 \<le> c \<and> c \<le> 50)"

lemma ch11_ok_write: "ch11_ok str \<Longrightarrow> k < 50 \<or> c = NUL \<Longrightarrow> ch11_ok (str[k := c])"
  by (cases "k = 50") (auto simp: ch11_ok_def)

lemma ch11_ok_before: "ch11_ok str \<Longrightarrow> k \<le> 50 \<Longrightarrow> str ! k \<noteq> NUL \<Longrightarrow> k < 50"
  by (cases "k = 50") (auto simp: ch11_ok_def)

lemma c11_accessed: "c11_pc_ok x \<Longrightarrow> accessed x = Some k \<Longrightarrow> k \<le> 50"
  by (cases x) (auto split: if_splits)

lemma c11_now: "c11_inv s \<Longrightarrow> c11_pc_ok (c11_pc s i) \<and> ch11_ok (c11_str s)"
  by (simp add: c11_inv_def)

lemma c11_inv_go:
  assumes "c11_inv s" and "c11_pc_ok x"
  shows "c11_inv (c11_goto s i x)"
    and "ch11_ok str \<Longrightarrow> c11_inv ((c11_goto s i x)\<lparr>c11_str := str\<rparr>)"
  using assms by (auto simp: c11_inv_def)

lemma c11_inv_step: "ch11_step i s t \<Longrightarrow> c11_inv s \<Longrightarrow> c11_inv t"
proof (induction rule: ch11_step.induct)
  case (out_of_bounds s k)
  then have "c11_pc_ok (c11_pc s i)" "length (c11_str s) = 51" by (simp_all add: c11_inv_def ch11_ok_def)
  then show ?case using c11_accessed out_of_bounds by fastforce
next
  case (count_next s k c)
  then have "c11_pc_ok (R_count k c)" "ch11_ok (c11_str s)" using c11_now [of s i] by simp_all
  then show ?case using ch11_ok_before [of "c11_str s" k] count_next by (intro c11_inv_go) auto
next
  case (count_end s k c)
  then have "c11_pc_ok (R_count k c)" using c11_now [of s i] by simp
  then show ?case using count_end by (intro c11_inv_go) auto
next
  case (print_next s k c out)
  then have "c11_pc_ok (R_print k c out)" "ch11_ok (c11_str s)" using c11_now [of s i] by simp_all
  then show ?case using ch11_ok_before [of "c11_str s" k] print_next by (intro c11_inv_go) auto
next
  case (print_end s k c out)
  then have "c11_pc_ok (R_print k c out)" using c11_now [of s i] by simp
  then show ?case using print_end by (auto simp: c11_inv_def)
next
  case (copy_byte s n ubuf len k)
  then have "c11_pc_ok (W_copy n ubuf len k)" "ch11_ok (c11_str s)" using c11_now [of s i] by simp_all
  then show ?case using copy_byte by (intro c11_inv_go ch11_ok_write) auto
next
  case (copy_end s n ubuf len k)
  then have "c11_pc_ok (W_copy n ubuf len k)" using c11_now [of s i] by simp
  then show ?case using copy_end by (intro c11_inv_go) auto
next
  case (terminate s n len)
  then have "c11_pc_ok (W_end n len)" "ch11_ok (c11_str s)" using c11_now [of s i] by simp_all
  then show ?case using terminate by (intro c11_inv_go ch11_ok_write) auto
next
  case (newline s n len)
  then have "c11_pc_ok (W_newline n len)" using c11_now [of s i] by simp
  then show ?case using newline by (intro c11_inv_go) auto
next
  case (strip s n len)
  have "c11_pc_ok (W_strip n len)" "ch11_ok (c11_str s)" using c11_now [OF strip(3), of i] unfolding strip(1) by blast+
  then show ?case using strip by (intro c11_inv_go ch11_ok_write) auto
qed (auto simp: BUF_SIZE_def intro!: c11_inv_go)

lemma c11_inv_start: "c11_start s \<Longrightarrow> c11_inv s"
  by (simp add: c11_start_def c11_inv_def)

subsection \<open>Every call returns\<close>

fun ch11_rank :: "ch11_pc \<Rightarrow> nat" where
  "ch11_rank (R_count k c) = 104 - k"
| "ch11_rank (R_print k c out) = 53 - k"
| "ch11_rank (W_copy n ubuf len k) = len - k + 5"
| "ch11_rank (W_end n len) = 4"
| "ch11_rank (W_newline n len) = 3"
| "ch11_rank (W_strip n len) = 2"
| "ch11_rank (Done r) = 1"
| "ch11_rank Outside = 0"

definition c11_live :: "ch11_threads \<Rightarrow> bool" where
  "c11_live s \<longleftrightarrow> c11_inv s \<and> finite {i. c11_pc s i \<noteq> Outside}"

lemma ch11_rank_pos: "c11_pc_ok x \<Longrightarrow> 0 < ch11_rank x \<longleftrightarrow> x \<noteq> Outside"
  by (cases x) auto

lemma ch11_nearer:
  assumes "ch11_step i s t" and "c11_inv s" and "c11_pc s i \<noteq> Outside"
  shows "ch11_rank (c11_pc t i) < ch11_rank (c11_pc s i)"
  using assms(1)
proof cases
  case (out_of_bounds k)
  then show ?thesis using c11_accessed [of "c11_pc s i" k] c11_now [OF assms(2), of i] by (auto simp: ch11_ok_def)
qed (use assms(3) c11_now [OF assms(2), of i] ch11_ok_before [of "c11_str s"] in \<open>auto split: if_splits\<close>)

lemma ch11_moves:
  assumes "c11_pc s i \<noteq> Outside"
  shows "\<exists>t. ch11_step i s t"
proof (cases "\<exists>k. accessed (c11_pc s i) = Some k \<and> \<not> k < length (c11_str s)")
  case True
  then show ?thesis using out_of_bounds by blast
next
  case False
  then show ?thesis
  proof (cases "c11_pc s i")
    case (R_count k c)
    then show ?thesis using False count_next [OF R_count] count_end [OF R_count] by (cases "c11_str s ! k = NUL") auto
  next
    case (R_print k c out)
    then show ?thesis using False print_next [OF R_print] print_end [OF R_print] by (cases "c11_str s ! k = NUL") auto
  next
    case (W_copy n ubuf len k)
    then show ?thesis
      using False copy_byte [OF W_copy] copy_fault [OF W_copy] copy_end [OF W_copy]
      by (cases "k < len"; cases "length ubuf < len") auto
  next
    case (W_newline n len)
    then show ?thesis
      using False newline [OF W_newline] no_newline [OF W_newline] write_nothing [OF W_newline]
      by (cases "0 < len"; cases "c11_str s ! (len - 1) = NL") auto
  next
    case (W_end n len)
    then show ?thesis using False terminate [OF W_end] by auto
  next
    case (W_strip n len)
    then show ?thesis using False strip [OF W_strip] by auto
  qed (use assms return in \<open>auto; blast\<close>)+
qed

interpretation ch11_calls: draining ch11_step "\<lambda>s i. ch11_rank (c11_pc s i)" c11_live "\<lambda>_. 104"
proof
  fix s t i j
  assume s: "c11_live s" "ch11_step i s t" "0 < ch11_rank (c11_pc s i)"
  then have "c11_pc s i \<noteq> Outside" by auto
  then show "ch11_rank (c11_pc t i) < ch11_rank (c11_pc s i)" using ch11_nearer s by (simp add: c11_live_def)
  show same: "ch11_rank (c11_pc t j) = ch11_rank (c11_pc s j)" if "j \<noteq> i" for j using s(2) by cases (use that in auto)
  have "finite {i. c11_pc t i \<noteq> Outside}" using s(2) by cases (use s(1) in \<open>auto simp: c11_live_def simp del: fun_upd_apply\<close>)
  then show "c11_live t" using c11_inv_step [OF s(2)] s(1) by (simp add: c11_live_def)
next
  fix s i
  assume "c11_live s"
  then have "c11_pc_ok (c11_pc s i)" using c11_now by (auto simp: c11_live_def)
  then show "ch11_rank (c11_pc s i) \<le> 104" by (cases "c11_pc s i") auto
next
  fix s i
  assume "c11_live s" "0 < ch11_rank (c11_pc s i)"
  then show "\<exists>j t. ch11_step j s t \<and> 0 < ch11_rank (c11_pc s j)" using ch11_moves [of s i] by fastforce
next
  fix s
  assume s: "c11_live s"
  have "{i. 0 < ch11_rank (c11_pc s i)} \<subseteq> {i. c11_pc s i \<noteq> Outside}" by auto
  then show "finite {i. 0 < ch11_rank (c11_pc s i)}" using s finite_subset by (auto simp: c11_live_def)
qed

lemma c11_reachable_live: "reachable c11_start (\<lambda>s t. \<exists>i. ch11_step i s t) s \<Longrightarrow> c11_live s"
proof (induction rule: reachable.induct)
  case (reach_start s)
  then show ?case using c11_inv_start by (auto simp: c11_live_def c11_start_def)
next
  case (reach_step s t)
  then obtain i where i: "ch11_step i s t" by blast
  have "finite {i. c11_pc t i \<noteq> Outside}"
    using i by cases (use reach_step.IH in \<open>auto simp: c11_live_def simp del: fun_upd_apply\<close>)
  then show ?case using c11_inv_step [OF i] reach_step.IH by (simp add: c11_live_def)
qed

subsection \<open>An undisturbed write\<close>

definition user_byte :: "char list \<Rightarrow> nat \<Rightarrow> char" where
  "user_byte ubuf k = (if k < length ubuf then ubuf ! k else NUL)"

lemma user_bytes: "map (user_byte ubuf) [0..<len] = take len ubuf @ replicate (len - length ubuf) NUL"
  by (rule nth_equalityI) (auto simp: user_byte_def nth_append min_def)

lemma copy_undisturbed:
  assumes "c11_pc s i = W_copy n ubuf len k" and "k \<le> len" and "len \<le> length (c11_str s)"
  shows "(ch11_step i)\<^sup>*\<^sup>* s ((c11_goto s i (W_copy n ubuf len len))\<lparr>c11_str :=
    take k (c11_str s) @ map (user_byte ubuf) [k..<len] @ drop len (c11_str s)\<rparr>)"
  using assms
proof (induction "len - k" arbitrary: s k)
  case 0
  then have "(c11_goto s i (W_copy n ubuf len len))\<lparr>c11_str := take k (c11_str s) @ map (user_byte ubuf) [k..<len] @ drop len (c11_str s)\<rparr> = s"
    by (simp add: c11_goto_def fun_upd_idem)
  then show ?case by simp
next
  case (Suc d)
  then have k: "k < len" by simp
  let ?str = "(c11_str s)[k := user_byte ubuf k]"
  let ?s = "(c11_goto s i (W_copy n ubuf len (k + 1)))\<lparr>c11_str := ?str\<rparr>"
  have "take (k + 1) ?str = take k (c11_str s) @ [user_byte ubuf k]"
    using k Suc.prems(3) by (simp add: take_Suc_conv_app_nth)
  moreover have "drop len ?str = drop len (c11_str s)" "[k..<len] = k # [k + 1..<len]"
    using k by (simp_all add: upt_conv_Cons)
  moreover have "(ch11_step i)\<^sup>*\<^sup>* ?s ((c11_goto ?s i (W_copy n ubuf len len))\<lparr>c11_str :=
      take (k + 1) (c11_str ?s) @ map (user_byte ubuf) [k + 1..<len] @ drop len (c11_str ?s)\<rparr>)"
    using Suc.hyps(2) Suc.prems k by (intro Suc.hyps(1)) simp_all
  moreover have "ch11_step i s ?s"
    using copy_byte [of s i n ubuf len k] Suc.prems(1,3) k by (simp add: user_byte_def)
  ultimately show ?case by (simp add: c11_goto_def converse_rtranclp_into_rtranclp)
qed

lemma ch11_write_undisturbed:
  assumes "c11_pc s i = Outside" and "ch11_ok (c11_str s)"
    and "ch11_proc_info_write (c11_str s) ubuf n = Inr (r, str')"
  shows "\<exists>t. (ch11_step i)\<^sup>*\<^sup>* s t \<and> c11_pc t i = Done r \<and> c11_str t = str' \<and> c11_out t = c11_out s"
proof -
  define len where "len = (if n > BUF_SIZE then BUF_SIZE else n)"
  have len: "len \<le> 50" "len < length (c11_str s)" using assms(2) by (auto simp: len_def BUF_SIZE_def ch11_ok_def)
  let ?str = "overwrite (c11_str s) (take len ubuf @ replicate (len - length ubuf) NUL)"
  let ?s1 = "c11_goto s i (W_copy n ubuf len 0)"
  let ?s2 = "(c11_goto ?s1 i (W_copy n ubuf len len))\<lparr>c11_str := ?str\<rparr>"
  have w: "ch11_proc_info_write (c11_str s) ubuf n =
      (if length ubuf < len then Inr (- EFAULT, ?str) else bindr (store_at ?str len NUL) (\<lambda>str.
        bindr (if 0 < len \<and> str ! (len - 1) = NL then store_at str (len - 1) NUL else Inr str)
          (\<lambda>str. Inr (int n, str))))"
    by (simp add: ch11_proc_info_write_def copy_from_user_def Let_def len_def [symmetric])
  have l1: "len - Suc 0 < length (c11_str s)" using len(2) by simp
  have lstr: "length ?str = length (c11_str s)" using len(2) by (simp add: overwrite_def)
  have "ch11_step i s ?s1" by (rule call_write) (use assms(1) len_def in simp_all)
  moreover have "map (user_byte ubuf) [0..<len] @ drop len (c11_str s) = ?str"
    using len(2) by (simp add: user_bytes overwrite_def) (simp add: min_def)
  then have "(ch11_step i)\<^sup>*\<^sup>* ?s1 ?s2" using copy_undisturbed [of ?s1 i n ubuf len 0] len(2) by simp
  ultimately have go: "(ch11_step i)\<^sup>*\<^sup>* s ?s2" by (rule converse_rtranclp_into_rtranclp)
  show ?thesis
  proof (cases "length ubuf < len")
    case True
    have "ch11_step i ?s2 (c11_goto ?s2 i (Done (- EFAULT)))" by (rule copy_fault [of _ _ n ubuf len len]) (use True in simp_all)
    with go have "(ch11_step i)\<^sup>*\<^sup>* s (c11_goto ?s2 i (Done (- EFAULT)))" by (rule rtranclp.rtrancl_into_rtrancl)
    then show ?thesis using assms(3) True by (intro exI [of _ "c11_goto ?s2 i (Done (- EFAULT))"]) (simp add: w)
  next
    case False
    let ?s3 = "c11_goto ?s2 i (W_end n len)"
    let ?s4 = "(c11_goto ?s3 i (W_newline n len))\<lparr>c11_str := ?str[len := NUL]\<rparr>"
    have "ch11_step i ?s2 ?s3" by (rule copy_end [of _ _ n ubuf len len]) (use False in simp_all)
    moreover have "ch11_step i ?s3 ?s4" using terminate [of ?s3 i n len] len(2) lstr by simp
    ultimately have go4: "(ch11_step i)\<^sup>*\<^sup>* s ?s4" using go by (meson rtranclp.rtrancl_into_rtrancl)
    show ?thesis
    proof (cases "0 < len \<and> ?str[len := NUL] ! (len - 1) = NL")
      case True
      let ?s5 = "c11_goto ?s4 i (W_strip n len)"
      let ?s6 = "(c11_goto ?s5 i (Done (int n)))\<lparr>c11_str := ?str[len := NUL, len - 1 := NUL]\<rparr>"
      have "ch11_step i ?s4 ?s5" by (rule newline) (use True len(2) lstr in simp_all)
      moreover have "ch11_step i ?s5 ?s6" using strip [of ?s5 i n len] len(2) lstr by simp
      ultimately have "(ch11_step i)\<^sup>*\<^sup>* s ?s6" using go4 by (meson rtranclp.rtrancl_into_rtrancl)
      then show ?thesis
        using assms(3) False True len(2) l1 lstr by (intro exI [of _ ?s6]) (simp add: w store_at_def)
    next
      case no: False
      have "ch11_step i ?s4 (c11_goto ?s4 i (Done (int n)))"
        using no_newline [of ?s4 i n len] write_nothing [of ?s4 i n len] no len(2) lstr by (cases "0 < len") auto
      with go4 have "(ch11_step i)\<^sup>*\<^sup>* s (c11_goto ?s4 i (Done (int n)))" by (rule rtranclp.rtrancl_into_rtrancl)
      then show ?thesis
        using assms(3) False no len(2) l1 lstr
        by (intro exI [of _ "c11_goto ?s4 i (Done (int n))"]) (auto simp: w store_at_def)
    qed
  qed
qed

subsection \<open>A torn report\<close>

lemma c11_reach:
  "reachable c11_start (\<lambda>s t. \<exists>i. ch11_step i s t) s \<Longrightarrow> ch11_step i s t \<Longrightarrow>
    reachable c11_start (\<lambda>s t. \<exists>i. ch11_step i s t) t"
  by (rule reach_step) blast+

definition c11_two :: "char list \<Rightarrow> ch11_pc \<Rightarrow> ch11_pc \<Rightarrow> (nat \<times> char list \<times> int) list \<Rightarrow> ch11_threads" where
  "c11_two str x y out =
     \<lparr>c11_str = str @ replicate (51 - length str) NUL, c11_pc = (\<lambda>_. Outside)(0 := x, 1 := y), c11_fault = None, c11_out = out\<rparr>"

lemma c11_two_simps [simp]:
  "c11_str (c11_two str x y out) = str @ replicate (51 - length str) NUL" "c11_out (c11_two str x y out) = out"
  "c11_pc (c11_two str x y out) 0 = x" "c11_pc (c11_two str x y out) (Suc 0) = y"
  "c11_goto (c11_two str x y out) 0 z = c11_two str z y out"
  "c11_goto (c11_two str x y out) (Suc 0) z = c11_two str x z out"
  "(c11_two str x y out)\<lparr>c11_out := out'\<rparr> = c11_two str x y out'"
  by (simp_all add: c11_two_def c11_goto_def fun_upd_twist)

lemma c11_two_store:
  "(c11_two [] x y out)\<lparr>c11_str := (replicate 51 NUL)[0 := c]\<rparr> = c11_two [c] x y out"
  by (simp add: c11_two_def numeral_eq_Suc)

text \<open>
  The reader counts no space in the empty text, the writer stores one, and the reader prints
  it with the count 0.
\<close>

lemma ch11_torn_report:
  "reachable c11_start (\<lambda>s t. \<exists>i. ch11_step i s t)
     (c11_two [CHR '' ''] (Done 0) (W_copy 1 [CHR '' ''] 1 1) [(0, [CHR '' ''], 0)])"
proof -
  let ?R = "reachable c11_start (\<lambda>s t. \<exists>i. ch11_step i s t)"
  have "?R (c11_two [] Outside Outside [])"
    by (rule reach_start) (simp add: c11_start_def c11_two_def ch11_read_str_def BUF_SIZE_def fun_eq_iff)
  then have "?R (c11_two [] (R_count 0 0) Outside [])"
    by (rule c11_reach [where i = 0]) (use call_show [of "c11_two [] Outside Outside []" 0] in simp)
  then have "?R (c11_two [] (R_print 0 0 []) Outside [])"
    by (rule c11_reach [where i = 0]) (use count_end [of "c11_two [] (R_count 0 0) Outside []" 0 0 0] in simp)
  then have "?R (c11_two [] (R_print 0 0 []) (W_copy 1 [CHR '' ''] 1 0) [])"
    by (rule c11_reach [where i = 1])
      (use call_write [of "c11_two [] (R_print 0 0 []) Outside []" 1 1 1 "[CHR '' '']"] in \<open>simp add: BUF_SIZE_def\<close>)
  then have "?R (c11_two [CHR '' ''] (R_print 0 0 []) (W_copy 1 [CHR '' ''] 1 1) [])"
    by (rule c11_reach [where i = 1])
      (use copy_byte [of "c11_two [] (R_print 0 0 []) (W_copy 1 [CHR '' ''] 1 0) []" 1 1 "[CHR '' '']" 1 0] c11_two_store in simp)
  then have "?R (c11_two [CHR '' ''] (R_print 1 0 [CHR '' '']) (W_copy 1 [CHR '' ''] 1 1) [])"
    by (rule c11_reach [where i = 0])
      (use print_next [of "c11_two [CHR '' ''] (R_print 0 0 []) (W_copy 1 [CHR '' ''] 1 1) []" 0 0 0 "[]"] in simp)
  then show ?thesis
    by (rule c11_reach [where i = 0])
      (use print_end [of "c11_two [CHR '' ''] (R_print 1 0 [CHR '' '']) (W_copy 1 [CHR '' ''] 1 1) []" 0 1 0 "[CHR '' '']"] in
        \<open>simp add: nth_append\<close>)
qed

subsection \<open>Properties\<close>

text \<open>
  C27. The proc file of ch11 under concurrency: however reads and writes of any length and
  from any address interleave, character by character and without a lock, no access leaves
  the 51 bytes, the last of them stays NUL, what a read prints has at most 50 characters
  and a count from 0 to 50, and every call returns: the threads inside make at most 104
  steps each, and each can always make the next.
\<close>

theorem ch11_races_stay_inside:
  assumes "reachable c11_start (\<lambda>s t. \<exists>i. ch11_step i s t) s"
    and "((\<lambda>s t. \<exists>i. ch11_step i s t \<and> 0 < ch11_rank (c11_pc s i)) ^^ m) s t"
  shows "c11_fault s = None \<and> length (c11_str s) = 51 \<and> c11_str s ! 50 = NUL \<and>
    (\<forall>(i, out, c) \<in> set (c11_out s). length out \<le> 50 \<and> NUL \<notin> set out \<and> 0 \<le> c \<and> c \<le> 50) \<and>
    m \<le> 104 * card {i. 0 < ch11_rank (c11_pc s i)} \<and> (\<forall>i. c11_pc t i \<noteq> Outside \<longrightarrow> (\<exists>u. ch11_step i t u))"
proof -
  have "c11_inv s" "c11_live s" using c11_reachable_live [OF assms(1)] by (simp_all add: c11_live_def)
  then show ?thesis
    using ch11_calls.calls_return [OF assms(2)] ch11_moves by (simp add: c11_inv_def ch11_ok_def)
qed

theorem ch11_races_stay_inside_witness:
  "\<exists>s :: ch11_threads. c11_out s = [(0, [CHR '' ''], 0)] \<and> c11_fault s = None \<and> c11_str s ! 50 = NUL \<and>
     c11_pc s 1 = W_copy 1 [CHR '' ''] 1 1 \<and> (\<exists>u. ch11_step 1 s u)"
proof -
  let ?s = "c11_two [CHR '' ''] (Done 0) (W_copy 1 [CHR '' ''] 1 1) [(0, [CHR '' ''], 0)]"
  have "((\<lambda>s t. \<exists>i. ch11_step i s t \<and> 0 < ch11_rank (c11_pc s i)) ^^ 0) ?s ?s" by simp
  from ch11_races_stay_inside [OF ch11_torn_report this] have "c11_fault ?s = None" "c11_str ?s ! 50 = NUL"
      "\<forall>i. c11_pc ?s i \<noteq> Outside \<longrightarrow> (\<exists>u. ch11_step i ?s u)" by blast+
  then show ?thesis by (intro exI [of _ ?s]) simp
qed

end
