(* ===== verification/Char_Devices.thy ===== *)
theory Char_Devices
  imports Kernel Ioctl
begin

text \<open>
  lab3: the first character devices (ch2 a calculator, ex1 simple_char, ex2 simple_ioctl,
  ex3 simple_param) and their programs. A C long has \<open>n\<close> bytes. Shown: the calculator is
  exact integer arithmetic modulo the width, what its program prints, and that
  simple_char's write stays in its buffer.
\<close>

subsection \<open>What a system call returns to the program\<close>

text \<open>
  The C library hands the driver's long back as an int; values from -4095 to -1 are error
  numbers to it, and the program sees -1.
\<close>

definition ioctl_seen :: "int \<Rightarrow> int" where
  "ioctl_seen r = (if - 4095 \<le> r \<and> r \<le> - 1 then - 1 else wrap_long 4 r)"

subsection \<open>ch2: the calculator\<close>

definition CH2_IOCTL_NUM :: nat where "CH2_IOCTL_NUM = of_char CHR ''c''"
definition CH2_GET :: "nat \<Rightarrow> 32 word" where "CH2_GET n = iowr CH2_IOCTL_NUM 1 n"
definition CH2_SET :: "nat \<Rightarrow> 32 word" where "CH2_SET n = iowr CH2_IOCTL_NUM 2 n"
definition CH2_ADD :: "nat \<Rightarrow> 32 word" where "CH2_ADD n = iowr CH2_IOCTL_NUM 3 n"
definition CH2_MUL :: "nat \<Rightarrow> 32 word" where "CH2_MUL n = iowr CH2_IOCTL_NUM 4 n"

lemmas ch2_commands = CH2_GET_def CH2_SET_def CH2_ADD_def CH2_MUL_def

text \<open>The value returned and the new \<open>result\<close>; \<open>arg\<close> is the argument read as a long.\<close>

definition ch2_ioctl :: "nat \<Rightarrow> 32 word \<Rightarrow> int \<Rightarrow> int \<Rightarrow> int \<times> int" where
  "ch2_ioctl n cmd arg result =
     (if cmd = CH2_GET n then (result, result)
      else if cmd = CH2_SET n then let result = wrap_long n arg in (result, result)
      else if cmd = CH2_ADD n then let result = wrap_long n (result + wrap_long n arg) in (result, result)
      else if cmd = CH2_MUL n then let result = wrap_long n (result * wrap_long n arg) in (result, result)
      else (- 1, result))"

text \<open>Opening and releasing: the result and what is logged.\<close>

definition ch2_open :: "int \<times> string list" where "ch2_open = (0, [''ch2_mod: open'' @ [NL]])"
definition ch2_release :: "int \<times> string list" where "ch2_release = (0, [''ch2_mod: release'' @ [NL]])"

definition ch2_init :: "kernel \<Rightarrow> (int \<times> kcall list) result" where "ch2_init = unchecked_cdev_init"
definition ch2_exit :: "kcall list" where "ch2_exit = cdev_exit"

text \<open>A program's calls, with what they return to it.\<close>

fun ch2_calls :: "nat \<Rightarrow> (32 word \<times> int) list \<Rightarrow> int \<Rightarrow> int list \<times> int" where
  "ch2_calls n [] result = ([], result)"
| "ch2_calls n ((cmd, arg) # cs) result =
     (let (r, result1) = ch2_ioctl n cmd arg result; (rs, result2) = ch2_calls n cs result1
      in (ioctl_seen r # rs, result2))"

text \<open>The lines the program prints, from whatever the calculator held before.\<close>

definition ch2_app_main :: "nat \<Rightarrow> int \<Rightarrow> int list" where
  "ch2_app_main n result0 =
     (let rs = fst (ch2_calls n [(CH2_SET n, 200), (CH2_GET n, 0), (CH2_ADD n, 300), (CH2_GET n, 0),
            (CH2_MUL n, 100), (CH2_GET n, 0)] result0)
      in [rs ! 1, rs ! 3, rs ! 5])"

text \<open>Exact arithmetic.\<close>

datatype calc = Get | Set_to int | Add int | Mul int

fun calc_step :: "int \<Rightarrow> calc \<Rightarrow> int" where
  "calc_step v Get = v"
| "calc_step v (Set_to a) = a"
| "calc_step v (Add a) = v + a"
| "calc_step v (Mul a) = v * a"

fun calc_command :: "nat \<Rightarrow> calc \<Rightarrow> 32 word \<times> int" where
  "calc_command n Get = (CH2_GET n, 0)"
| "calc_command n (Set_to a) = (CH2_SET n, a)"
| "calc_command n (Add a) = (CH2_ADD n, a)"
| "calc_command n (Mul a) = (CH2_MUL n, a)"

subsection \<open>ex1: simple_char\<close>

text \<open>
  A write: the result and what is printed. \<open>k_buf\<close> is the uninitialised buffer; the number
  of bytes copy_from_user leaves is not looked at.
\<close>

definition simple_char_write :: "char list \<Rightarrow> char list \<Rightarrow> nat \<Rightarrow> (int \<times> string) result" where
  "simple_char_write k_buf ubuf len =
     (let copy_size = (if len < 127 then len else 127);
          (k_buf, ret) = copy_from_user k_buf ubuf copy_size
      in if \<not> copy_size < length k_buf then Inl Out_of_bounds
         else Inr (int len, ''simple_char: write '' @ cstring (k_buf[copy_size := NUL]) @ [NL]))"

definition simple_char_read :: int where "simple_char_read = 0"
definition simple_char_open :: "int \<times> string list" where "simple_char_open = (0, [''simple_char: open'' @ [NL]])"
definition simple_char_release :: "int \<times> string list" where "simple_char_release = (0, [''simple_char: release'' @ [NL]])"
definition simple_char_init :: "kernel \<Rightarrow> (int \<times> kcall list) result" where "simple_char_init = unchecked_cdev_init"
definition simple_char_exit :: "kcall list" where "simple_char_exit = cdev_exit"

text \<open>The program writes 30 bytes of a literal of 30 characters.\<close>

definition simple_char_app_main :: "char list \<times> nat" where
  "simple_char_app_main = (''Hello character device driver!'' @ [NUL], 30)"

subsection \<open>ex2: simple_ioctl\<close>

definition SIMPLE_IOCTL1 :: "nat \<Rightarrow> 32 word" where "SIMPLE_IOCTL1 n = iowr SIMPLE_IOCTL_NUM IOCTL_NUM1 n"
definition SIMPLE_IOCTL2 :: "nat \<Rightarrow> 32 word" where "SIMPLE_IOCTL2 n = iowr SIMPLE_IOCTL_NUM IOCTL_NUM2 n"

datatype ioctl_print = Printed_value nat | Printed_pointer nat

definition simple_ioctl :: "nat \<Rightarrow> 32 word \<Rightarrow> nat \<Rightarrow> int \<times> ioctl_print list" where
  "simple_ioctl n cmd arg =
     (if cmd = SIMPLE_IOCTL1 n then (0, [Printed_value arg])
      else if cmd = SIMPLE_IOCTL2 n then (0, [Printed_pointer arg])
      else (- 1, []))"

definition simple_ioctl_open :: "int \<times> string list" where "simple_ioctl_open = (0, [''simple_ioctl: open'' @ [NL]])"
definition simple_ioctl_release :: "int \<times> string list" where "simple_ioctl_release = (0, [''simple_ioctl: release'' @ [NL]])"
definition simple_ioctl_init :: "kernel \<Rightarrow> (int \<times> kcall list) result" where "simple_ioctl_init = unchecked_cdev_init"
definition simple_ioctl_exit :: "kcall list" where "simple_ioctl_exit = cdev_exit"

definition simple_ioctl_app_main :: "nat \<Rightarrow> nat \<Rightarrow> (32 word \<times> nat) list" where
  "simple_ioctl_app_main n addr_of_value = [(SIMPLE_IOCTL1 n, 200), (SIMPLE_IOCTL2 n, addr_of_value)]"

subsection \<open>ex3: simple_param\<close>

definition PARAM_GET :: "nat \<Rightarrow> 32 word" where "PARAM_GET n = iowr SIMPLE_IOCTL_NUM IOCTL_NUM1 n"
definition PARAM_SET :: "nat \<Rightarrow> 32 word" where "PARAM_SET n = iowr SIMPLE_IOCTL_NUM IOCTL_NUM2 n"

definition simple_param_ioctl :: "nat \<Rightarrow> 32 word \<Rightarrow> int \<Rightarrow> int \<Rightarrow> int \<times> int" where
  "simple_param_ioctl n cmd arg my_id =
     (if cmd = PARAM_GET n then (my_id, my_id)
      else if cmd = PARAM_SET n then let my_id = wrap_long n arg in (my_id, my_id)
      else (- 1, my_id))"

definition simple_param_open :: "int \<times> string list" where "simple_param_open = (0, [''simple_param: open'' @ [NL]])"
definition simple_param_release :: "int \<times> string list" where "simple_param_release = (0, [''simple_param: release'' @ [NL]])"
definition simple_param_init :: "kernel \<Rightarrow> (int \<times> kcall list) result" where "simple_param_init = unchecked_cdev_init"
definition simple_param_exit :: "kcall list" where "simple_param_exit = cdev_exit"

text \<open>What the program prints.\<close>

definition simple_param_app_main :: "nat \<Rightarrow> int \<Rightarrow> int" where
  "simple_param_app_main n my_id0 =
     (let (_, id1) = simple_param_ioctl n (PARAM_SET n) 202111360 my_id0;
          (r, id2) = simple_param_ioctl n (PARAM_GET n) 0 id1
      in ioctl_seen r)"

subsection \<open>Lemmas\<close>

lemma ch2_commands_neq [simp]:
  "CH2_GET n \<noteq> CH2_SET n" "CH2_GET n \<noteq> CH2_ADD n" "CH2_GET n \<noteq> CH2_MUL n" "CH2_SET n \<noteq> CH2_GET n"
  "CH2_SET n \<noteq> CH2_ADD n" "CH2_SET n \<noteq> CH2_MUL n" "CH2_ADD n \<noteq> CH2_GET n" "CH2_ADD n \<noteq> CH2_SET n"
  "CH2_ADD n \<noteq> CH2_MUL n" "CH2_MUL n \<noteq> CH2_GET n" "CH2_MUL n \<noteq> CH2_SET n" "CH2_MUL n \<noteq> CH2_ADD n"
  by (simp_all add: ch2_commands iowr_neq)

lemma ch2_step:
  assumes "0 < n" and "v = wrap_long n x"
  shows "ch2_ioctl n (fst (calc_command n c)) (snd (calc_command n c)) v =
    (wrap_long n (calc_step x c), wrap_long n (calc_step x c))"
proof -
  have "wrap_long n (v + wrap_long n a) = wrap_long n (x + a)" for a
    unfolding wrap_long_cong [OF assms(1)] using wrap_long_mod [OF assms(1)] assms(2) by (metis mod_add_eq)
  moreover have "wrap_long n (v * wrap_long n a) = wrap_long n (x * a)" for a
    unfolding wrap_long_cong [OF assms(1)] using wrap_long_mod [OF assms(1)] assms(2) by (metis mod_mult_eq)
  ultimately show ?thesis
    using assms(2) by (cases c) (simp_all add: ch2_ioctl_def Let_def)
qed

subsection \<open>Properties\<close>

text \<open>
  C35. The calculator device is integer arithmetic at the width of a long: after any
  commands the driver holds the exact result reduced to that width, which is the exact
  result whenever it fits, and every command returns the result so far, as the program
  sees it.
\<close>

theorem ch2_calculates:
  assumes "0 < n"
  shows "ch2_calls n (map (calc_command n) cs) (wrap_long n v) =
    (map (\<lambda>k. ioctl_seen (wrap_long n (foldl calc_step v (take (Suc k) cs)))) [0..<length cs],
     wrap_long n (foldl calc_step v cs))"
proof (induction cs arbitrary: v)
  case Nil
  then show ?case by simp
next
  case (Cons c cs)
  have "ch2_calls n (map (calc_command n) (c # cs)) (wrap_long n v) =
      (let (rs, r2) = ch2_calls n (map (calc_command n) cs) (wrap_long n (calc_step v c))
       in (ioctl_seen (wrap_long n (calc_step v c)) # rs, r2))"
    using ch2_step [OF assms refl, where x = v and c = c] by (cases "calc_command n c") simp
  then show ?case
    using Cons.IH [of "calc_step v c"] by (simp add: Let_def map_upt_Suc del: upt_Suc)
qed

theorem ch2_calculates_witness:
  "ch2_calls 4 (map (calc_command 4) [Set_to 100000, Mul 100000]) 0 =
     ([100000, 1410065408], 1410065408)"
  using ch2_calculates [of 4 "[Set_to 100000, Mul 100000]" 0]
  by (simp add: ioctl_seen_def wrap_long_def signed_take_bit_eq_take_bit_shift take_bit_eq_mod upt_rec)

text \<open>The program of ch2 prints 200, 500 and 50000, and that of simple_param its number.\<close>

lemma lab3_programs:
  "ch2_app_main 4 v = [200, 500, 50000]" "ch2_app_main 8 v = [200, 500, 50000]"
  "simple_param_app_main 8 v = 202111360"
  by (simp_all add: ch2_app_main_def ch2_ioctl_def ioctl_seen_def wrap_long_def Let_def
      simple_param_app_main_def simple_param_ioctl_def PARAM_GET_def PARAM_SET_def iowr_neq ioctl_nums
      signed_take_bit_eq_take_bit_shift take_bit_eq_mod)

text \<open>
  A write to simple_char stays in its 128 bytes and prints the first 127 bytes written, up to
  the first NUL; it returns the length asked for even when nothing could be copied.
\<close>

lemma simple_char_write_prints:
  assumes "length k_buf = 128" and "min len 127 \<le> length ubuf"
  shows "simple_char_write k_buf ubuf len =
    Inr (int len, ''simple_char: write '' @ cstring (take (min len 127) ubuf) @ [NL])"
proof -
  define n where "n = (if len < 127 then len else 127)"
  have n: "n = min len 127" "n < 128" by (auto simp: n_def)
  have c: "copy_from_user k_buf ubuf n = (take n ubuf @ drop n k_buf, 0)"
    using assms n by (simp add: copy_from_user_def overwrite_def)
  obtain x r where d: "drop n k_buf = x # r" using assms(1) n by (cases "drop n k_buf") auto
  have "(take n ubuf @ x # r)[n := NUL] = take n ubuf @ NUL # r"
    using assms(2) n(1) by (intro list_update_middle) simp
  then have "cstring ((take n ubuf @ drop n k_buf)[n := NUL]) = cstring (take n ubuf)"
    by (simp add: d cstring_append_cut)
  then show ?thesis
    using assms n c by (simp add: simple_char_write_def Let_def n_def [symmetric])
qed

end
