(* ===== verification/Timers.thy ===== *)
theory Timers
  imports Kernel
begin

text \<open>
  lab6: an LED that is on while its module is loaded (ex1), a module that counts button
  presses while it is being loaded (ex2), a periodic timer (ex3), and the timer that copies
  a switch to an LED (ch6). Shown: the counting loop ends exactly at the fifth press, the
  periodic timer's ticks are evenly spaced and numbered, the LED of ch6 is the switch as it was
  at the last multiple of the period, and ch6 is balanced over loads and unloads.
\<close>

subsection \<open>ex1: simple_led\<close>

definition LED1 :: int where "LED1 = 5"

definition simple_led_init :: "kernel \<Rightarrow> int \<times> kcall list" where
  "simple_led_init k = (0, [Gpio_request_out_low LED1 (ret_gpio_request k LED1), Gpio_set_value LED1 1])"

definition simple_led_exit :: "kcall list" where
  "simple_led_exit = [Gpio_set_value LED1 0, Gpio_free LED1]"

subsection \<open>ex2: simple_switch\<close>

definition SWITCH :: int where "SWITCH = 12"

text \<open>
  The while loop over the levels the pin is read at, one a second: how many were read when
  it ended and the final count; None while it still runs. The count is a static variable.
\<close>

fun switch_loop :: "int \<Rightarrow> int list \<Rightarrow> (nat \<times> int) option" where
  "switch_loop cnt levels =
     (if cnt = 5 then Some (0, cnt)
      else case levels of
        [] \<Rightarrow> None
      | ret # levels' \<Rightarrow>
          map_option (\<lambda>(n, c). (Suc n, c)) (switch_loop (if ret \<noteq> 0 then cnt + 1 else cnt) levels'))"

declare switch_loop.simps [simp del]

definition simple_switch_init :: "kernel \<Rightarrow> int \<Rightarrow> int list \<Rightarrow> (int \<times> nat \<times> int \<times> kcall list) option" where
  "simple_switch_init k cnt levels =
     (case switch_loop cnt levels of
        None \<Rightarrow> None
      | Some (n, c) \<Rightarrow> Some (0, n, c, [Gpio_request_in SWITCH (ret_gpio_request k SWITCH)]))"

definition simple_switch_exit :: "kcall list" where
  "simple_switch_exit = [Gpio_free SWITCH]"

subsection \<open>ex3: simple_timer\<close>

record my_timer_info =
  expires :: "nat option" \<comment> \<open>when the pending timer runs\<close>
  delay_jiffies :: nat
  timer_data :: int

text \<open>A run of the timer function at time \<open>now\<close>: what it prints and the new state.\<close>

definition my_timer_func :: "nat \<Rightarrow> my_timer_info \<Rightarrow> (nat \<times> int) \<times> my_timer_info" where
  "my_timer_func now s =
     ((now, timer_data s),
      s\<lparr>timer_data := wrap_long 4 (timer_data s + 1), expires := Some (now + delay_jiffies s)\<rparr>)"

text \<open>Loading at time \<open>now\<close>; \<open>mtj\<close> is msecs_to_jiffies.\<close>

definition simple_timer_init :: "(nat \<Rightarrow> nat) \<Rightarrow> nat \<Rightarrow> int \<times> my_timer_info" where
  "simple_timer_init mtj now =
     (0, \<lparr>expires = Some (now + mtj 2000), delay_jiffies = mtj 2000, timer_data = 100\<rparr>)"

definition simple_timer_exit :: "my_timer_info \<Rightarrow> my_timer_info" where
  "simple_timer_exit s = s\<lparr>expires := None\<rparr>"

text \<open>The first \<open>n\<close> runs, each at the moment the timer expires.\<close>

fun timer_runs :: "nat \<Rightarrow> my_timer_info \<Rightarrow> (nat \<times> int) list" where
  "timer_runs 0 s = []"
| "timer_runs (Suc n) s =
     (case expires s of
        None \<Rightarrow> []
      | Some t \<Rightarrow> let (out, s1) = my_timer_func t (s\<lparr>expires := None\<rparr>) in out # timer_runs n s1)"

subsection \<open>ch6: the switch copied to the LED\<close>

definition CH6_LED :: int where "CH6_LED = 5"
definition CH6_SWITCH :: int where "CH6_SWITCH = 12"

record ch6 =
  ch6_delay :: nat
  ch6_expires :: "nat option"

text \<open>The timer function at time \<open>now\<close>, the switch reading \<open>sw\<close>.\<close>

definition ch6_timer_func :: "nat \<times> int \<Rightarrow> ch6 \<Rightarrow> ch6 \<times> kcall list" where
  "ch6_timer_func = (\<lambda>(now, sw) s.
     (s\<lparr>ch6_expires := Some (now + ch6_delay s)\<rparr>,
      [Gpio_set_value CH6_LED (if sw = 1 then 1 else 0), Mod_timer (now + ch6_delay s)]))"

text \<open>Loading at time \<open>now\<close>.\<close>

definition ch6_init :: "(nat \<Rightarrow> nat) \<Rightarrow> nat \<Rightarrow> kernel \<Rightarrow> ch6 \<Rightarrow> int \<times> ch6 \<times> kcall list" where
  "ch6_init mtj now k s =
     (let ret = ret_gpio_request k CH6_LED; t1 = [Gpio_request_out_low CH6_LED ret] in
      if ret \<noteq> 0 then (ret, s, t1)
      else let ret = ret_gpio_request k CH6_SWITCH; t2 = t1 @ [Gpio_request_in CH6_SWITCH ret] in
      if ret \<noteq> 0 then (ret, s, t2 @ [Gpio_free CH6_LED])
      else let d = mtj 500 in
        (0, s\<lparr>ch6_delay := d, ch6_expires := Some (now + d)\<rparr>, t2 @ [Timer_setup, Add_timer (now + d)]))"

definition ch6_exit :: "ch6 \<Rightarrow> ch6 \<times> kcall list" where
  "ch6_exit s =
     (s\<lparr>ch6_expires := None\<rparr>,
      [Del_timer, Gpio_set_value CH6_LED 0, Gpio_free CH6_SWITCH, Gpio_free CH6_LED])"

text \<open>A jiffy passes: the timer runs if it is due at \<open>now\<close>, when the switch reads \<open>sw now\<close>.\<close>

definition ch6_tick :: "(nat \<Rightarrow> int) \<Rightarrow> nat \<Rightarrow> ch6 \<Rightarrow> ch6 \<times> kcall list" where
  "ch6_tick sw now s =
     (case ch6_expires s of
        None \<Rightarrow> (s, [])
      | Some t \<Rightarrow> if t \<le> now then ch6_timer_func (now, sw now) (s\<lparr>ch6_expires := None\<rparr>) else (s, []))"

subsection \<open>Lemmas\<close>

lemma switch_loop_at:
  assumes "0 \<le> c" and "c \<le> 5"
  shows "switch_loop c levels = Some (n, c') \<longleftrightarrow>
    n \<le> length levels \<and> c' = 5 \<and> c + int (length (filter (\<lambda>l. l \<noteq> 0) (take n levels))) = 5 \<and>
    (\<forall>m < n. c + int (length (filter (\<lambda>l. l \<noteq> 0) (take m levels))) < 5)"
  using assms
proof (induction levels arbitrary: c n)
  case Nil
  show ?case by (subst switch_loop.simps) auto
next
  case (Cons l levels)
  show ?case
  proof (cases "c = 5")
    case True
    then show ?thesis by (subst switch_loop.simps) (cases n, auto)
  next
    case False
    let ?c = "if l \<noteq> 0 then c + 1 else c"
    have r: "switch_loop c (l # levels) = map_option (\<lambda>(n, c). (Suc n, c)) (switch_loop ?c levels)"
      using False by (subst switch_loop.simps) simp
    show ?thesis
    proof (cases n)
      case 0
      then show ?thesis using False by (auto simp: r)
    next
      case (Suc k)
      have "switch_loop c (l # levels) = Some (n, c') \<longleftrightarrow> switch_loop ?c levels = Some (k, c')"
        by (auto simp: r Suc)
      also have "\<dots> \<longleftrightarrow> k \<le> length levels \<and> c' = 5 \<and> ?c + int (length (filter (\<lambda>l. l \<noteq> 0) (take k levels))) = 5 \<and>
          (\<forall>m < k. ?c + int (length (filter (\<lambda>l. l \<noteq> 0) (take m levels))) < 5)"
        using Cons.prems False by (intro Cons.IH) auto
      also have "\<dots> \<longleftrightarrow> n \<le> length (l # levels) \<and> c' = 5 \<and>
          c + int (length (filter (\<lambda>l. l \<noteq> 0) (take n (l # levels)))) = 5 \<and>
          (\<forall>m < n. c + int (length (filter (\<lambda>l. l \<noteq> 0) (take m (l # levels)))) < 5)"
        using Cons.prems False by (auto simp: Suc All_less_Suc2)
      finally show ?thesis .
    qed
  qed
qed

interpretation ch6_module: kmodule "ch6_init mtj now" ch6_timer_func ch6_exit
    "\<lambda>_. {#Gpio CH6_LED, Gpio CH6_SWITCH#}" for mtj now
  by unfold_locales
    (auto simp: ch6_init_def ch6_exit_def ch6_timer_func_def CH6_LED_def CH6_SWITCH_def Let_def
      split: if_splits prod.splits)

interpretation ch6_clocked: kmodule "ch6_init mtj now" "ch6_tick sw" ch6_exit
    "\<lambda>_. {#Gpio CH6_LED, Gpio CH6_SWITCH#}" for mtj now sw
  by unfold_locales
    (auto simp: ch6_init_def ch6_exit_def ch6_tick_def ch6_timer_func_def CH6_LED_def CH6_SWITCH_def Let_def
      split: if_splits prod.splits option.splits)

lemma timer_runs_from:
  "expires s = Some t \<Longrightarrow> 0 \<le> timer_data s \<Longrightarrow> timer_data s + int n < 2 ^ 31 \<Longrightarrow>
    timer_runs n s = map (\<lambda>i. (t + i * delay_jiffies s, timer_data s + int i)) [0..<n]"
proof (induction n arbitrary: s t)
  case (Suc n)
  have w: "wrap_long 4 (1 + timer_data s) = 1 + timer_data s"
    using Suc.prems by (intro wrap_long_fits) simp_all
  show ?case
    using Suc.prems Suc.IH [of "snd (my_timer_func t (s\<lparr>expires := None\<rparr>))" "t + delay_jiffies s"]
    by (simp add: my_timer_func_def w map_upt_Suc algebra_simps del: upt_Suc)
qed simp

lemma ch6_level:
  assumes "run_handlers ch6_timer_func ticks s = (s', tr)"
  shows "pin_level CH6_LED v tr = (if ticks = [] then v else if snd (last ticks) = 1 then 1 else 0)"
  using assms
proof (induction ticks arbitrary: s v tr)
  case (Cons a ticks)
  obtain s1 t1 where h: "ch6_timer_func a s = (s1, t1)" by force
  obtain t2 where r: "run_handlers ch6_timer_func ticks s1 = (s', t2)" and tr: "tr = t1 @ t2"
    using Cons.prems h by (auto split: prod.splits)
  have "pin_level CH6_LED v t1 = (if snd a = 1 then 1 else 0)"
    using h by (cases a) (auto simp: ch6_timer_func_def)
  then show ?case using Cons.IH [OF r] by (simp add: tr pin_level_append)
qed simp

text \<open>The \<open>n\<close> jiffies after \<open>now\<close>, from a state whose timer was just set.\<close>

lemma ch6_ticks:
  assumes "ch6_expires s = Some (now + d)" and "ch6_delay s = d" and "0 < d"
    and "run_handlers (ch6_tick sw) [Suc now..<Suc now + n] s = (s', tr)"
  shows "ch6_expires s' = Some (now + Suc (n div d) * d) \<and> ch6_delay s' = d \<and>
    pin_level CH6_LED v tr = (if n < d then v else if sw (now + n div d * d) = 1 then 1 else 0)"
  using assms(4)
proof (induction n arbitrary: s' tr)
  case 0
  then show ?case using assms(1-3) by simp
next
  case (Suc n)
  obtain s1 t1 where r: "run_handlers (ch6_tick sw) [Suc now..<Suc now + n] s = (s1, t1)" by force
  obtain t2 where h: "ch6_tick sw (Suc (now + n)) s1 = (s', t2)" and tr: "tr = t1 @ t2"
    using Suc.prems r by (auto simp: run_handlers_append Let_def split: prod.splits)
  note IH = Suc.IH [OF r]
  show ?case
  proof (cases "Suc n mod d = 0")
    case True
    then have n: "Suc n div d = Suc (n div d)" "Suc (n div d) * d = Suc n" "\<not> Suc n < d"
      using assms(3) div_mult_mod_eq [of "Suc n" d] by (auto simp: div_Suc)
    then have "ch6_timer_func (Suc (now + n), sw (Suc (now + n))) (s1\<lparr>ch6_expires := None\<rparr>) = (s', t2)"
      using h IH by (simp add: ch6_tick_def del: mult_Suc)
    moreover have "Suc (Suc n div d) * d = Suc n + d" using n by simp
    ultimately show ?thesis
      using IH n by (auto simp: ch6_timer_func_def tr pin_level_append simp del: mult_Suc)
  next
    case False
    then have n: "Suc n div d = n div d" by (simp add: div_Suc)
    then have "n div d * d < Suc n" "Suc n < Suc (n div d) * d"
      using False assms(3) by (metis dividend_less_times_div div_mod_decomp less_add_same_cancel1 mult.commute neq0_conv)
        (metis n assms(3) dividend_less_div_times mult_Suc)
    then have "s' = s1" "t2 = []" "Suc n < d \<longleftrightarrow> n < d"
      using h IH n False by (auto simp: ch6_tick_def div_eq_0_iff split: if_splits)
    then show ?thesis using IH n by (simp add: tr)
  qed
qed

text \<open>
  The periodic timer runs every two seconds from the first expiry on, and its lines are
  numbered 100, 101 and so on.
\<close>

lemma simple_timer_periodic:
  "n < 2147483548 \<Longrightarrow> timer_runs n (snd (simple_timer_init mtj now)) =
    map (\<lambda>i. (now + mtj 2000 + i * mtj 2000, 100 + int i)) [0..<n]"
  by (subst timer_runs_from [where t = "now + mtj 2000"]) (simp_all add: simple_timer_init_def)

subsection \<open>Properties\<close>

text \<open>
  Loading the button module returns exactly when the button has been seen pressed five
  times: it returns after \<open>n\<close> readings if and only if the \<open>n\<close>-th reading is the fifth one
  that is not 0; it does not return while there are fewer.
\<close>

lemma simple_switch_returns:
  "simple_switch_init k 0 levels = Some (r, n, c, tr) \<longleftrightarrow>
    r = 0 \<and> c = 5 \<and> tr = [Gpio_request_in SWITCH (ret_gpio_request k SWITCH)] \<and> n \<le> length levels \<and>
    length (filter (\<lambda>l. l \<noteq> 0) (take n levels)) = 5 \<and>
    (\<forall>m < n. length (filter (\<lambda>l. l \<noteq> 0) (take m levels)) < 5)"
  using switch_loop_at [of 0 levels n c]
  by (auto simp: simple_switch_init_def split: option.splits)

lemma simple_switch_returns_example:
  "simple_switch_init all_ok 0 [1, 0, 1, 1, 0, 1, 1, 0] = Some (0, 7, 5, [Gpio_request_in SWITCH 0])"
proof -
  have "length (filter (\<lambda>l. l \<noteq> 0) (take m [1, 0, 1, 1, 0, 1, 1, 0 :: int])) < 5" if "m < 7" for m
  proof -
    from that have "m \<in> set [0..<7]" by simp
    then show ?thesis by (auto simp: upt_rec)
  qed
  then show ?thesis
    using simple_switch_returns [of all_ok "[1, 0, 1, 1, 0, 1, 1, 0]" 0 7 5] by (simp add: all_ok_def)
qed

text \<open>
  While the switch module of ch6 is loaded its LED shows the switch as it was last
  sampled, the next sample is due one period later, and over any attempts to load it,
  failing or followed by samples and an unload, every pin is freed exactly once.
\<close>

lemma ch6_led_follows_switch:
  assumes "ch6_init mtj now k s = (0, s1, t1)"
    and "run_handlers ch6_timer_func (ticks @ [(time, sw)]) s1 = (s2, t2)"
    and "\<And>k es. (k, es) \<in> set ss \<Longrightarrow> kernel_ok k"
  shows "pin_level CH6_LED v (t1 @ t2) = (if sw = 1 then 1 else 0) \<and>
    ch6_expires s2 = Some (time + mtj 500) \<and>
    ledger {#} (module_sessions (ch6_init mtj now) ch6_timer_func ch6_exit ss s) = Some {#}"
proof -
  have d: "ch6_delay s1 = mtj 500"
    using assms(1) by (auto simp: ch6_init_def Let_def split: if_splits)
  have "ch6_delay s2 = ch6_delay s1 \<and> ch6_expires s2 = Some (time + ch6_delay s1)"
    using assms(2)
  proof (induction ticks arbitrary: s1 t2)
    case Nil
    then show ?case by (auto simp: ch6_timer_func_def)
  next
    case (Cons a ticks)
    obtain s3 t3 where h: "ch6_timer_func a s1 = (s3, t3)" by force
    then have "ch6_delay s3 = ch6_delay s1" by (cases a) (auto simp: ch6_timer_func_def)
    then show ?case using Cons.IH [of s3] Cons.prems h by (auto split: prod.splits)
  qed
  then show ?thesis
    using ch6_level [OF assms(2), of "pin_level CH6_LED v t1"] d
      ch6_module.sessions_balanced [OF assms(3)]
    by (simp add: pin_level_append)
qed

lemma ch6_led_follows_switch_example:
  "\<exists>s1 t1 s2 t2. ch6_init (\<lambda>ms. ms div 10) 7 all_ok \<lparr>ch6_delay = 0, ch6_expires = None\<rparr> = (0, s1, t1) \<and>
     run_handlers ch6_timer_func ([(57, 1), (107, 0)] @ [(157, 1)]) s1 = (s2, t2) \<and>
     pin_level CH6_LED 0 (t1 @ t2) = 1 \<and> ch6_expires s2 = Some 207"
proof -
  obtain s1 t1 where i: "ch6_init (\<lambda>ms. ms div 10) 7 all_ok \<lparr>ch6_delay = 0, ch6_expires = None\<rparr> = (0, s1, t1)"
    by (simp add: ch6_init_def all_ok_def)
  obtain s2 t2 where r: "run_handlers ch6_timer_func ([(57, 1), (107, 0)] @ [(157, 1)]) s1 = (s2, t2)"
    by force
  show ?thesis
    using ch6_led_follows_switch [OF i r, of "[]" 0] i r by auto
qed

text \<open>
  C37. The module of ch6 samples its switch once a period and shows what it saw: \<open>n\<close> jiffies
  after a load the LED is what the switch was at the last multiple of half a second since the
  load, dark before the first, and the next sample is due at the next multiple; and over any
  attempts to load it, failing or followed by the passing of time and an unload, every pin is
  freed exactly once.
\<close>

theorem ch6_samples_switch:
  assumes "ch6_init mtj now k s = (0, s1, t1)" and "0 < mtj 500"
    and "run_handlers (ch6_tick sw) [Suc now..<Suc now + n] s1 = (s2, t2)"
    and "\<And>k es. (k, es) \<in> set ss \<Longrightarrow> kernel_ok k"
  shows "pin_level CH6_LED v (t1 @ t2) =
      (if n < mtj 500 then 0 else if sw (now + n div mtj 500 * mtj 500) = 1 then 1 else 0) \<and>
    ch6_expires s2 = Some (now + Suc (n div mtj 500) * mtj 500) \<and>
    ledger {#} (module_sessions (ch6_init mtj now) (ch6_tick sw) ch6_exit ss s) = Some {#}"
proof -
  have i: "ch6_expires s1 = Some (now + mtj 500)" "ch6_delay s1 = mtj 500" "pin_level CH6_LED v t1 = 0"
    using assms(1) by (auto simp: ch6_init_def Let_def CH6_LED_def CH6_SWITCH_def split: if_splits)
  show ?thesis
    using ch6_ticks [OF i(1,2) assms(2,3), of 0] ch6_clocked.sessions_balanced [OF assms(4)]
    by (simp add: pin_level_append i(3))
qed

theorem ch6_samples_switch_witness:
  "\<exists>s1 t1 s2 t2. ch6_init (\<lambda>ms. ms div 100) 7 all_ok \<lparr>ch6_delay = 0, ch6_expires = None\<rparr> = (0, s1, t1) \<and>
     run_handlers (ch6_tick (\<lambda>t. if t = 17 then 1 else 0)) [Suc 7..<Suc 7 + 13] s1 = (s2, t2) \<and>
     pin_level CH6_LED 0 (t1 @ t2) = 1 \<and> ch6_expires s2 = Some 22"
proof -
  obtain s1 t1 where i: "ch6_init (\<lambda>ms. ms div 100) 7 all_ok \<lparr>ch6_delay = 0, ch6_expires = None\<rparr> = (0, s1, t1)"
    by (simp add: ch6_init_def all_ok_def)
  obtain s2 t2 where r: "run_handlers (ch6_tick (\<lambda>t. if t = 17 then 1 else 0)) [Suc 7..<Suc 7 + 13] s1 = (s2, t2)"
    by force
  show ?thesis
    using ch6_samples_switch [OF i _ r, of "[]" 0] i r by auto
qed

end
