(* ===== verification/Irq_Modules.thy ===== *)
theory Irq_Modules
  imports Kernel
begin

text \<open>
  lab8/ex1 to ex3: the modules that only register an interrupt (switch_irq), that enable it
  while their device is open (simple_sensor), and that also keep the times of the
  interrupts in a list (spin_interrupt), with their programs. The kernel calls a handler
  only while the line is enabled, that is while disable_irq and enable_irq balance out.
  Here each handler is one definition; Irq_Threads has the steps of spin_interrupt under
  concurrency. Shown: with one opener the list printed is exactly what happened while the device was
  open, what a second opener does to that, and what a failed request_irq leads to.
\<close>

subsection \<open>The interrupt line\<close>

record irq_line =
  irq_num :: int
  disable_depth :: nat
  unbalanced :: bool \<comment> \<open>the kernel warned about an enable_irq too many\<close>

definition disable_irq :: "'a irq_line_scheme \<Rightarrow> 'a irq_line_scheme" where
  "disable_irq s = s\<lparr>disable_depth := disable_depth s + 1\<rparr>"

definition enable_irq :: "'a irq_line_scheme \<Rightarrow> 'a irq_line_scheme" where
  "enable_irq s =
     (if disable_depth s = 0 then s\<lparr>unbalanced := True\<rparr> else s\<lparr>disable_depth := disable_depth s - 1\<rparr>)"

subsection \<open>ex1: switch_irq\<close>

definition SWITCH_PIN :: int where "SWITCH_PIN = 12"

definition switch_irq_init :: "kernel \<Rightarrow> int \<times> int \<times> kcall list" where
  "switch_irq_init k =
     (let irq = ret_gpio_to_irq k SWITCH_PIN; ret = ret_request_irq k irq;
          tr = [Gpio_request_in SWITCH_PIN (ret_gpio_request k SWITCH_PIN), Gpio_to_irq SWITCH_PIN irq, Request_irq irq ret]
      in (0, irq, if ret \<noteq> 0 then tr @ [Free_irq irq] else tr))"

definition switch_irq_exit :: "int \<Rightarrow> kcall list" where
  "switch_irq_exit irq = [Disable_irq irq, Free_irq irq, Gpio_free SWITCH_PIN]"

definition switch_irq_isr :: string where "switch_irq_isr = ''switch_irq : Detect '' @ [NL]"

subsection \<open>ex2: simple_sensor\<close>

definition SENSOR1 :: int where "SENSOR1 = 17"

record sensor = irq_line +
  sensor_start :: int
  sensor_recent :: int

text \<open>Opening at second \<open>now\<close>; the handler prints the seconds since.\<close>

definition simple_sensor_open :: "int \<Rightarrow> sensor \<Rightarrow> int \<times> sensor" where
  "simple_sensor_open now s = (0, (enable_irq s)\<lparr>sensor_start := now\<rparr>)"

definition simple_sensor_release :: "sensor \<Rightarrow> int \<times> sensor" where
  "simple_sensor_release s = (0, disable_irq s)"

definition simple_sensor_isr :: "int \<Rightarrow> sensor \<Rightarrow> int \<times> sensor" where
  "simple_sensor_isr now s = (now - sensor_start s, s\<lparr>sensor_recent := now\<rparr>)"

definition simple_sensor_init :: "kernel \<Rightarrow> sensor \<Rightarrow> (int \<times> sensor \<times> kcall list) result" where
  "simple_sensor_init k s =
     bindr (unchecked_cdev_init k) (\<lambda>(_, t1).
       let irq = ret_gpio_to_irq k SENSOR1; ret = ret_request_irq k irq;
           s = s\<lparr>irq_num := irq, disable_depth := 0\<rparr>;
           t2 = t1 @ [Gpio_request_in SENSOR1 (ret_gpio_request k SENSOR1), Gpio_to_irq SENSOR1 irq, Request_irq irq ret]
       in if ret \<noteq> 0 then Inr (0, s, t2 @ [Free_irq irq]) else Inr (0, disable_irq s, t2 @ [Disable_irq irq]))"

definition simple_sensor_exit :: "sensor \<Rightarrow> kcall list" where
  "simple_sensor_exit s = cdev_exit @ [Free_irq (irq_num s), Gpio_free SENSOR1]"

text \<open>The device in use: what the handler prints. The program opens it, sleeps and closes it.\<close>

datatype sensor_event =
    Sensor_open int
  | Sensor_release
  | Sensor_detect int

fun sensor_run :: "sensor_event list \<Rightarrow> sensor \<Rightarrow> int list" where
  "sensor_run [] s = []"
| "sensor_run (Sensor_open now # es) s = sensor_run es (snd (simple_sensor_open now s))"
| "sensor_run (Sensor_release # es) s = sensor_run es (snd (simple_sensor_release s))"
| "sensor_run (Sensor_detect now # es) s =
     (if disable_depth s = 0 then let (secs, s1) = simple_sensor_isr now s in secs # sensor_run es s1
      else sensor_run es s)"

definition simple_sensor_app_main :: "int \<Rightarrow> sensor_event list" where
  "simple_sensor_app_main now = [Sensor_open now, Sensor_release]"

text \<open>Opened and closed in turn, it prints for each detection the seconds since the device was opened.\<close>

fun sensor_turns :: "bool \<Rightarrow> sensor_event list \<Rightarrow> bool" where
  "sensor_turns opened [] = True"
| "sensor_turns opened (Sensor_open t # es) = (\<not> opened \<and> sensor_turns True es)"
| "sensor_turns opened (Sensor_release # es) = (opened \<and> sensor_turns False es)"
| "sensor_turns opened (Sensor_detect t # es) = sensor_turns opened es"

fun seconds_open :: "int option \<Rightarrow> sensor_event list \<Rightarrow> int list" where
  "seconds_open at [] = []"
| "seconds_open at (Sensor_open t # es) = seconds_open (Some t) es"
| "seconds_open at (Sensor_release # es) = seconds_open None es"
| "seconds_open at (Sensor_detect t # es) = (case at of None \<Rightarrow> [] | Some t0 \<Rightarrow> [t - t0]) @ seconds_open at es"

lemma sensor_prints_seconds:
  "sensor_turns (at \<noteq> None) es \<Longrightarrow> disable_depth s = (if at = None then 1 else 0) \<Longrightarrow> (\<And>t. at = Some t \<Longrightarrow> sensor_start s = t) \<Longrightarrow>
    sensor_run es s = seconds_open at es"
proof (induction at es arbitrary: s rule: seconds_open.induct)
  case (2 at t es)
  then show ?case by (simp add: simple_sensor_open_def enable_irq_def)
next
  case (3 at es)
  then show ?case by (auto simp: simple_sensor_release_def disable_irq_def)
next
  case (4 at t es)
  then show ?case by (cases at) (auto simp: simple_sensor_isr_def)
qed simp

subsection \<open>ex3: spin_interrupt\<close>

record spin_dev = irq_line +
  time_list :: "int list"

datatype spin_print =
    Empty_list
  | Time_at nat int

definition spin_interrupt_open :: "spin_dev \<Rightarrow> int \<times> spin_dev" where
  "spin_interrupt_open s = (0, enable_irq s)"

definition spin_interrupt_release :: "spin_dev \<Rightarrow> int \<times> spin_dev \<times> spin_print list" where
  "spin_interrupt_release s =
     (0, disable_irq s,
      if time_list s \<noteq> [] then map (\<lambda>(i, t). Time_at i t) (enumerate 0 (time_list s)) else [Empty_list])"

text \<open>The handler at time \<open>now\<close>; \<open>ok\<close>: kmalloc did not return null.\<close>

definition spin_interrupt_isr :: "bool \<Rightarrow> int \<Rightarrow> spin_dev \<Rightarrow> spin_dev result" where
  "spin_interrupt_isr ok now s =
     (if \<not> ok then Inl Null_deref else Inr (s\<lparr>time_list := time_list s @ [now]\<rparr>))"

definition spin_interrupt_init :: "kernel \<Rightarrow> spin_dev \<Rightarrow> (int \<times> spin_dev \<times> kcall list) result" where
  "spin_interrupt_init k s =
     bindr (unchecked_cdev_init k) (\<lambda>(_, t1).
       let irq = ret_gpio_to_irq k SENSOR1; ret = ret_request_irq k irq;
           s = s\<lparr>time_list := [], irq_num := irq, disable_depth := 0\<rparr>;
           t2 = t1 @ [Gpio_request_in SENSOR1 (ret_gpio_request k SENSOR1), Gpio_to_irq SENSOR1 irq, Request_irq irq ret]
       in if ret \<noteq> 0 then Inr (0, s, t2 @ [Free_irq irq]) else Inr (0, disable_irq s, t2 @ [Disable_irq irq]))"

fun spin_free_all :: "int list \<Rightarrow> spin_dev \<Rightarrow> spin_dev" where
  "spin_free_all [] s = s"
| "spin_free_all (pos # q) s = spin_free_all q (s\<lparr>time_list := remove1 pos (time_list s)\<rparr>)"

definition spin_interrupt_exit :: "spin_dev \<Rightarrow> spin_dev \<times> kcall list" where
  "spin_interrupt_exit s =
     (spin_free_all (time_list s) s, cdev_exit @ [Free_irq (irq_num s), Gpio_free SENSOR1])"

text \<open>The programs open their device, sleep and close it again.\<close>

datatype spin_event =
    Open
  | Release
  | Detection bool int

definition spin_app_main :: "spin_event list" where "spin_app_main = [Open, Release]"

fun spin_run :: "spin_event list \<Rightarrow> spin_dev \<Rightarrow> (spin_dev \<times> spin_print list) result" where
  "spin_run [] s = Inr (s, [])"
| "spin_run (Open # es) s = spin_run es (snd (spin_interrupt_open s))"
| "spin_run (Release # es) s =
     (let (r, s1, out) = spin_interrupt_release s in
      bindr (spin_run es s1) (\<lambda>(s2, out2). Inr (s2, out @ out2)))"
| "spin_run (Detection ok now # es) s =
     (if disable_depth s = 0 then bindr (spin_interrupt_isr ok now s) (spin_run es) else spin_run es s)"

subsection \<open>What should be printed\<close>

text \<open>The device opened and closed in turn, \<open>opened\<close> telling which comes next.\<close>

fun one_opener :: "bool \<Rightarrow> spin_event list \<Rightarrow> bool" where
  "one_opener opened [] = True"
| "one_opener opened (Open # es) = (\<not> opened \<and> one_opener True es)"
| "one_opener opened (Release # es) = (opened \<and> one_opener False es)"
| "one_opener opened (Detection ok t # es) = (ok \<and> one_opener opened es)"

definition listing :: "int list \<Rightarrow> spin_print list" where
  "listing ts = (if ts = [] then [Empty_list] else map (\<lambda>i. Time_at i (ts ! i)) [0..<length ts])"

text \<open>Each close prints all detections made while the device was open, from the first.\<close>

fun expected :: "bool \<Rightarrow> int list \<Rightarrow> spin_event list \<Rightarrow> spin_print list" where
  "expected opened ts [] = []"
| "expected opened ts (Open # es) = expected True ts es"
| "expected opened ts (Release # es) = listing ts @ expected False ts es"
| "expected opened ts (Detection ok t # es) = expected opened (if opened then ts @ [t] else ts) es"

lemma listing_enumerate: "(if ts \<noteq> [] then map (\<lambda>(i, t). Time_at i t) (enumerate 0 ts) else [Empty_list]) = listing ts"
  by (auto simp: listing_def enumerate_eq_zip zip_same_conv_map intro!: nth_equalityI)

lemma spin_run_expected:
  "one_opener opened es \<Longrightarrow> disable_depth s = (if opened then 0 else 1) \<Longrightarrow>
    \<exists>s'. spin_run es s = Inr (s', expected opened (time_list s) es) \<and> unbalanced s' = unbalanced s"
proof (induction opened es arbitrary: s rule: one_opener.induct)
  case (2 opened es)
  then show ?case
    using "2.IH" [of "enable_irq s"] by (auto simp: spin_interrupt_open_def enable_irq_def)
next
  case (3 opened es)
  then show ?case
    using "3.IH" [of "disable_irq s"]
    by (auto simp: spin_interrupt_release_def disable_irq_def listing_enumerate [symmetric])
next
  case (4 opened ok t es)
  then show ?case
    using "4.IH" [of "if opened then s\<lparr>time_list := time_list s @ [t]\<rparr> else s"]
    by (cases opened) (auto simp: spin_interrupt_isr_def)
qed auto

lemma spin_free_all_empty: "time_list s = ts \<Longrightarrow> time_list (spin_free_all ts s) = []"
  by (induction ts arbitrary: s) auto

text \<open>
  Two openers: enabling an enabled line is one call too many, so the first close disables
  the interrupt although the device is still open.
\<close>

lemma two_openers:
  "disable_depth s = 1 \<Longrightarrow>
    \<exists>s' out. spin_run [Open, Open, Release] s = Inr (s', out) \<and> unbalanced s' \<and> disable_depth s' = 1"
  by (auto simp: spin_interrupt_open_def spin_interrupt_release_def enable_irq_def disable_irq_def)

subsection \<open>Properties\<close>

text \<open>
  With one opener at a time and no failed allocation, every close of the spin_interrupt
  device prints the times of exactly the interrupts that happened while it was open since
  the module was loaded, numbered from 0 in the order they happened, and unloading empties
  the list.
\<close>

lemma spin_interrupt_lists_all:
  assumes "spin_interrupt_init k s = Inr (0, s1, tr)" and "ret_request_irq k (ret_gpio_to_irq k SENSOR1) = 0"
    and "one_opener False es"
  shows "\<exists>s2. spin_run es s1 = Inr (s2, expected False [] es) \<and> time_list (fst (spin_interrupt_exit s2)) = []"
proof -
  have "disable_depth s1 = 1" "time_list s1 = []"
    using assms(1,2)
    by (auto simp: spin_interrupt_init_def unchecked_cdev_init_def Let_def disable_irq_def split: if_splits)
  then show ?thesis
    using spin_run_expected [OF assms(3), of s1] by (auto simp: spin_interrupt_exit_def spin_free_all_empty)
qed

lemma spin_interrupt_lists_all_example:
  "\<exists>s1 tr s2. spin_interrupt_init all_ok \<lparr>irq_num = 0, disable_depth = 0, unbalanced = False, time_list = []\<rparr> =
       Inr (0, s1, tr) \<and>
     spin_run [Detection True 3, Open, Detection True 5, Detection True 8, Release, Open, Release] s1 =
       Inr (s2, [Time_at 0 5, Time_at 1 8, Time_at 0 5, Time_at 1 8])"
proof -
  let ?s = "\<lparr>irq_num = 0, disable_depth = 0, unbalanced = False, time_list = []\<rparr>"
  obtain s1 tr where i: "spin_interrupt_init all_ok ?s = Inr (0, s1, tr)"
    by (simp add: spin_interrupt_init_def unchecked_cdev_init_def all_ok_def Let_def)
  show ?thesis
    using spin_interrupt_lists_all [OF i, of "[Detection True 3, Open, Detection True 5, Detection True 8, Release, Open, Release]"] i
    by (auto simp: all_ok_def listing_def upt_rec)
qed

text \<open>
  The three interrupt modules of lab8 load successfully although request_irq failed,
  having freed an interrupt line they do not have, and free it once more when unloaded; when
  request_irq and the calls before it succeed, loading and unloading are balanced.
\<close>

lemma irq_modules_failed_request:
  assumes "ret_cdev_alloc k" and "ret_alloc_chrdev k = 0" and "ret_cdev_add k = 0"
    and "ret_gpio_request k SWITCH_PIN = 0" and "ret_gpio_request k SENSOR1 = 0"
    and irq: "irq1 = ret_gpio_to_irq k SWITCH_PIN" "irq2 = ret_gpio_to_irq k SENSOR1"
  shows "\<exists>t1 s2 t2 s3 t3. switch_irq_init k = (0, irq1, t1) \<and>
    simple_sensor_init k s = Inr (0, s2, t2) \<and> spin_interrupt_init k v = Inr (0, s3, t3) \<and>
    ledger {#} (t1 @ switch_irq_exit irq1) = (if ret_request_irq k irq1 = 0 then Some {#} else None) \<and>
    ledger {#} (t2 @ simple_sensor_exit s2) = (if ret_request_irq k irq2 = 0 then Some {#} else None) \<and>
    ledger {#} (t3 @ snd (spin_interrupt_exit s3)) = (if ret_request_irq k irq2 = 0 then Some {#} else None)"
  using assms
  by (auto simp: switch_irq_init_def switch_irq_exit_def simple_sensor_init_def simple_sensor_exit_def
      spin_interrupt_init_def spin_interrupt_exit_def unchecked_cdev_init_def cdev_exit_def disable_irq_def Let_def)

lemma irq_modules_failed_request_example:
  "\<exists>t1. switch_irq_init (all_ok\<lparr>ret_request_irq := (\<lambda>_. - EINVAL)\<rparr>) = (0, 112, t1) \<and>
     ledger {#} (t1 @ switch_irq_exit 112) = None"
  using irq_modules_failed_request [of "all_ok\<lparr>ret_request_irq := (\<lambda>_. - EINVAL)\<rparr>" 112 117
      "\<lparr>irq_num = 0, disable_depth = 0, unbalanced = False, sensor_start = 0, sensor_recent = 0\<rparr>"
      "\<lparr>irq_num = 0, disable_depth = 0, unbalanced = False, time_list = []\<rparr>"]
  by (auto simp: all_ok_def SWITCH_PIN_def SENSOR1_def errno)

end
