(* ===== verification/Irq_Threads.thy ===== *)
theory Irq_Threads
  imports Irq_Modules Simulation Locking Holding Draining
begin

text \<open>
  lab8/ex3 (spin_interrupt.c) with processes that open and close the device on several
  processors while interrupts arrive. Every access to shared data is a step, the spin lock
  and the list nodes are explicit and memory is checked. A context is a process or the
  interrupt handler; the kernel runs the handler of a line one at a time, while the line is
  enabled, and disable_irq waits for it to end. Shown, for every interleaving: no fault and
  no leak, what a close prints is a snapshot of all detections recorded when it took the
  lock, every call returns, and an undisturbed close is the function of Irq_Modules.
\<close>

subsection \<open>Contexts and steps\<close>

datatype irq_pc =
    Outside
  | Enable
  | Opened
  | C_test
  | C_empty
  | C_lock
  | C_show nat \<comment> \<open>the position reached in the list, \<open>index\<close>\<close>
  | C_unlock
  | C_disable
  | C_sync \<comment> \<open>in disable_irq, waiting for a running handler\<close>
  | I_alloc
  | I_lock "nat option" \<comment> \<open>\<open>node\<close>, what kmalloc returned\<close>
  | I_time "nat option"
  | I_link nat
  | I_unlock

record spin_irq = irq_line +
  si_node :: "nat \<rightharpoonup> int" \<comment> \<open>the allocated nodes and their times\<close>
  si_list :: "nat list"
  si_lock :: bool
  si_pc :: "nat \<Rightarrow> irq_pc"
  si_fault :: "fault option"
  si_out :: "(nat \<times> spin_print) list"

definition si_goto :: "spin_irq \<Rightarrow> nat \<Rightarrow> irq_pc \<Rightarrow> spin_irq" where
  "si_goto s i x = s\<lparr>si_pc := (si_pc s)(i := x)\<rparr>"

fun in_handler :: "irq_pc \<Rightarrow> bool" where
  "in_handler I_alloc = True"
| "in_handler (I_lock p) = True"
| "in_handler (I_time p) = True"
| "in_handler (I_link n) = True"
| "in_handler I_unlock = True"
| "in_handler _ = False"

text \<open>The start: a load in which request_irq succeeded.\<close>

definition si_start :: "spin_irq \<Rightarrow> bool" where
  "si_start s \<longleftrightarrow>
     (\<exists>k s0 s1 tr. spin_interrupt_init k s0 = Inr (0, s1, tr) \<and> ret_request_irq k (irq_num s1) = 0 \<and>
        irq_line.truncate s = irq_line.truncate s1) \<and>
     si_node s = Map.empty \<and> si_list s = [] \<and> \<not> si_lock s \<and> si_pc s = (\<lambda>_. Outside) \<and> si_fault s = None \<and> si_out s = []"

text \<open>A step of context \<open>i\<close>. With \<open>oom\<close> kmalloc may return null, which the handler uses.\<close>

inductive spin_irq_step :: "bool \<Rightarrow> nat \<Rightarrow> spin_irq \<Rightarrow> spin_irq \<Rightarrow> bool" for oom :: bool and i :: nat where
  call_open: "si_pc s i = Outside \<Longrightarrow> spin_irq_step oom i s (si_goto s i Enable)"
| enable: "si_pc s i = Enable \<Longrightarrow> spin_irq_step oom i s (enable_irq (si_goto s i Opened))"
| call_release: "si_pc s i = Opened \<Longrightarrow> spin_irq_step oom i s (si_goto s i C_test)"
| list_empty: "si_pc s i = C_test \<Longrightarrow> si_list s = [] \<Longrightarrow> spin_irq_step oom i s (si_goto s i C_empty)"
| print_empty: "si_pc s i = C_empty \<Longrightarrow>
    spin_irq_step oom i s ((si_goto s i C_disable)\<lparr>si_out := si_out s @ [(i, Empty_list)]\<rparr>)"
| not_empty: "si_pc s i = C_test \<Longrightarrow> si_list s \<noteq> [] \<Longrightarrow> spin_irq_step oom i s (si_goto s i C_lock)"
| show_lock: "si_pc s i = C_lock \<Longrightarrow> \<not> si_lock s \<Longrightarrow>
    spin_irq_step oom i s ((si_goto s i (C_show 0))\<lparr>si_lock := True\<rparr>)"
| show_time: "si_pc s i = C_show k \<Longrightarrow> k < length (si_list s) \<Longrightarrow> si_node s (si_list s ! k) = Some t \<Longrightarrow>
    spin_irq_step oom i s ((si_goto s i (C_show (k + 1)))\<lparr>si_out := si_out s @ [(i, Time_at k t)]\<rparr>)"
| show_fault: "si_pc s i = C_show k \<Longrightarrow> k < length (si_list s) \<Longrightarrow> si_node s (si_list s ! k) = None \<Longrightarrow>
    spin_irq_step oom i s (s\<lparr>si_fault := Some Use_after_free\<rparr>)"
| show_end: "si_pc s i = C_show k \<Longrightarrow> \<not> k < length (si_list s) \<Longrightarrow> spin_irq_step oom i s (si_goto s i C_unlock)"
| show_unlock: "si_pc s i = C_unlock \<Longrightarrow> spin_irq_step oom i s ((si_goto s i C_disable)\<lparr>si_lock := False\<rparr>)"
| disable: "si_pc s i = C_disable \<Longrightarrow> spin_irq_step oom i s (disable_irq (si_goto s i C_sync))"
| sync: "si_pc s i = C_sync \<Longrightarrow> \<forall>j. \<not> in_handler (si_pc s j) \<Longrightarrow> spin_irq_step oom i s (si_goto s i Outside)"
| irq: "si_pc s i = Outside \<Longrightarrow> disable_depth s = 0 \<Longrightarrow> \<forall>j. \<not> in_handler (si_pc s j) \<Longrightarrow>
    spin_irq_step oom i s (si_goto s i I_alloc)"
| kmalloc: "si_pc s i = I_alloc \<Longrightarrow> n \<notin> dom (si_node s) \<Longrightarrow>
    spin_irq_step oom i s ((si_goto s i (I_lock (Some n)))\<lparr>si_node := (si_node s)(n \<mapsto> junk)\<rparr>)"
| kmalloc_null: "si_pc s i = I_alloc \<Longrightarrow> oom \<Longrightarrow> spin_irq_step oom i s (si_goto s i (I_lock None))"
| isr_lock: "si_pc s i = I_lock p \<Longrightarrow> \<not> si_lock s \<Longrightarrow>
    spin_irq_step oom i s ((si_goto s i (I_time p))\<lparr>si_lock := True\<rparr>)"
| get_time: "si_pc s i = I_time (Some n) \<Longrightarrow> n \<in> dom (si_node s) \<Longrightarrow>
    spin_irq_step oom i s ((si_goto s i (I_link n))\<lparr>si_node := (si_node s)(n \<mapsto> now)\<rparr>)"
| get_time_fault: "si_pc s i = I_time (Some n) \<Longrightarrow> n \<notin> dom (si_node s) \<Longrightarrow>
    spin_irq_step oom i s (s\<lparr>si_fault := Some Use_after_free\<rparr>)"
| get_time_null: "si_pc s i = I_time None \<Longrightarrow> spin_irq_step oom i s (s\<lparr>si_fault := Some Null_deref\<rparr>)"
| list_add_tail: "si_pc s i = I_link n \<Longrightarrow>
    spin_irq_step oom i s ((si_goto s i I_unlock)\<lparr>si_list := si_list s @ [n]\<rparr>)"
| isr_unlock: "si_pc s i = I_unlock \<Longrightarrow> spin_irq_step oom i s ((si_goto s i Outside)\<lparr>si_lock := False\<rparr>)"

inductive_cases spin_irq_stepE: "spin_irq_step oom i s t"

lemma si_goto_simps [simp]:
  "irq_num (si_goto s i x) = irq_num s" "disable_depth (si_goto s i x) = disable_depth s"
  "unbalanced (si_goto s i x) = unbalanced s" "si_node (si_goto s i x) = si_node s" "si_list (si_goto s i x) = si_list s"
  "si_lock (si_goto s i x) = si_lock s" "si_pc (si_goto s i x) = (si_pc s)(i := x)"
  "si_fault (si_goto s i x) = si_fault s" "si_out (si_goto s i x) = si_out s"
  by (simp_all add: si_goto_def)

lemma irq_depth_simps [simp]:
  "si_node (enable_irq s) = si_node s" "si_list (enable_irq s) = si_list s" "si_lock (enable_irq s) = si_lock s"
  "si_pc (enable_irq s) = si_pc s" "si_fault (enable_irq s) = si_fault s" "si_out (enable_irq s) = si_out s"
  "si_node (disable_irq s) = si_node s" "si_list (disable_irq s) = si_list s" "si_lock (disable_irq s) = si_lock s"
  "si_pc (disable_irq s) = si_pc s" "si_fault (disable_irq s) = si_fault s" "si_out (disable_irq s) = si_out s"
  by (simp_all add: enable_irq_def disable_irq_def)

text \<open>Unloading: each node is unlinked and freed.\<close>

fun spin_free_nodes :: "nat list \<Rightarrow> spin_irq \<Rightarrow> spin_irq result" where
  "spin_free_nodes [] s = Inr s"
| "spin_free_nodes (pos # q) s =
     (let s = s\<lparr>si_list := remove1 pos (si_list s)\<rparr> in
      if pos \<in> dom (si_node s) then spin_free_nodes q (s\<lparr>si_node := (si_node s)(pos := None)\<rparr>) else Inl Double_free)"

definition spin_irq_exit :: "spin_irq \<Rightarrow> (spin_irq \<times> kcall list) result" where
  "spin_irq_exit s =
     bindr (spin_free_nodes (si_list s) s) (\<lambda>s1. Inr (s1, cdev_exit @ [Free_irq (irq_num s), Gpio_free SENSOR1]))"

subsection \<open>The invariant\<close>

fun critical :: "irq_pc \<Rightarrow> bool" where
  "critical (C_show k) = True"
| "critical C_unlock = True"
| "critical (I_time p) = True"
| "critical (I_link n) = True"
| "critical I_unlock = True"
| "critical _ = False"

fun node_of :: "irq_pc \<Rightarrow> nat option" where
  "node_of (I_lock p) = p"
| "node_of (I_time p) = p"
| "node_of (I_link n) = Some n"
| "node_of _ = None"

text \<open>What holds for the context alone: the handler got a node, the list is not empty.\<close>

fun pc_ok :: "nat list \<Rightarrow> irq_pc \<Rightarrow> bool" where
  "pc_ok xs (I_lock p) = (p \<noteq> None)"
| "pc_ok xs (I_time p) = (p \<noteq> None)"
| "pc_ok xs C_lock = (xs \<noteq> [])"
| "pc_ok xs (C_show k) = (xs \<noteq> [] \<and> k \<le> length xs)"
| "pc_ok xs _ = True"

definition si_inv :: "spin_irq \<Rightarrow> bool" where
  "si_inv s \<longleftrightarrow> si_fault s = None \<and> lock_ok critical (si_lock s) (si_pc s) \<and> exclusive in_handler (si_pc s) \<and>
     owned node_of (dom (si_node s)) (si_list s) (si_pc s) \<and> (\<forall>i. pc_ok (si_list s) (si_pc s i))"

lemma pc_ok_more: "pc_ok xs x \<Longrightarrow> pc_ok (xs @ ys) x"
  by (cases x) auto

lemma pc_ok_upd: "\<forall>i. pc_ok xs (pcs i) \<Longrightarrow> pc_ok xs x \<Longrightarrow> pc_ok xs ((pcs(i := x)) j)"
  by simp

lemma si_inv_simps:
  assumes "si_inv s"
  shows "si_fault s = None" "lock_ok critical (si_lock s) (si_pc s)" "exclusive in_handler (si_pc s)"
    "owned node_of (dom (si_node s)) (si_list s) (si_pc s)" "pc_ok (si_list s) (si_pc s i)"
  using assms by (simp_all add: si_inv_def)

lemma dom_upd_Some: "n \<in> dom m \<Longrightarrow> dom (m(n \<mapsto> v)) = dom m"
  by auto

lemma si_no_fault:
  assumes "si_inv s"
  shows "si_pc s i = C_show k \<Longrightarrow> k < length (si_list s) \<Longrightarrow> si_node s (si_list s ! k) \<noteq> None"
    and "si_pc s i = I_time p \<Longrightarrow> \<exists>n. p = Some n \<and> n \<in> dom (si_node s)"
proof -
  note o = si_inv_simps(4) [OF assms]
  show "si_pc s i = C_show k \<Longrightarrow> k < length (si_list s) \<Longrightarrow> si_node s (si_list s ! k) \<noteq> None"
    using owned_simps(5) [OF o, of "si_list s ! k"] by auto
  show "\<exists>n. p = Some n \<and> n \<in> dom (si_node s)" if p: "si_pc s i = I_time p"
    using si_inv_simps(5) [OF assms, of i] owned_simps(3) [OF o, of i] p by auto
qed

lemma si_inv_step: "spin_irq_step False i s t \<Longrightarrow> si_inv s \<Longrightarrow> si_inv t"
proof (induction rule: spin_irq_step.induct)
  case (show_fault s k)
  then show ?case using si_no_fault(1) by blast
next
  case (get_time_fault s n)
  then show ?case using si_no_fault(2) by blast
next
  case (get_time_null s)
  then show ?case using si_no_fault(2) by blast
next
  case (get_time s n now)
  then show ?case
    unfolding si_inv_def by (auto simp: dom_upd_Some pc_ok_upd intro!: lock_ok_stay exclusive_go owned_go simp del: dom_fun_upd fun_upd_apply)
next
  case (kmalloc s n junk)
  then show ?case
    by (auto simp: si_inv_def intro!: lock_ok_stay exclusive_go owned_alloc)
next
  case (list_add_tail s n)
  then show ?case
    by (auto simp: si_inv_def pc_ok_more intro!: lock_ok_stay exclusive_go owned_put)
next
  case (isr_unlock s)
  then show ?case by (auto simp: si_inv_def intro!: lock_ok_leave exclusive_go owned_go)
next
  case (show_unlock s)
  then show ?case by (auto simp: si_inv_def intro!: lock_ok_leave exclusive_go owned_go)
next
  case (isr_lock s p)
  then have "p \<noteq> None" using si_inv_simps(5) [OF isr_lock(3), of i] by simp
  with isr_lock show ?case by (auto simp: si_inv_def lock_ok_enter intro!: exclusive_go owned_go)
next
  case (show_lock s)
  then have "si_list s \<noteq> []" using si_inv_simps(5) [OF show_lock(3), of i] by simp
  with show_lock show ?case by (auto simp: si_inv_def lock_ok_enter intro!: exclusive_go owned_go)
next
  case (irq s)
  then show ?case by (auto simp: si_inv_def intro!: lock_ok_stay exclusive_enter owned_go)
qed (auto simp: si_inv_def intro!: lock_ok_stay exclusive_go owned_go)

lemma si_inv_start: "si_start s \<Longrightarrow> si_inv s"
  by (auto simp: si_start_def si_inv_def exclusive_def intro!: lock_ok_start owned_start)

subsection \<open>A log with snapshots\<close>

text \<open>
  The specification: detections are recorded one after the other, a close takes a snapshot
  of them all at once, and prints it line by line.
\<close>

datatype log_event =
    Quiet
  | Recorded int
  | Look nat
  | Print nat spin_print
  | Finish nat

record spin_log =
  log_times :: "int list"
  log_left :: "nat \<rightharpoonup> spin_print list" \<comment> \<open>the lines each close has still to print\<close>

definition log_empty :: spin_log where
  "log_empty = \<lparr>log_times = [], log_left = Map.empty\<rparr>"

fun log_next :: "log_event \<Rightarrow> spin_log \<Rightarrow> spin_log option" where
  "log_next Quiet a = Some a"
| "log_next (Recorded t) a = Some (a\<lparr>log_times := log_times a @ [t]\<rparr>)"
| "log_next (Look i) a = Some (a\<lparr>log_left := (log_left a)(i \<mapsto> listing (log_times a))\<rparr>)"
| "log_next (Print i p) a =
     (case log_left a i of
        Some (p' # ps) \<Rightarrow> if p = p' then Some (a\<lparr>log_left := (log_left a)(i \<mapsto> ps)\<rparr>) else None
      | _ \<Rightarrow> None)"
| "log_next (Finish i) a = (if log_left a i = Some [] then Some (a\<lparr>log_left := (log_left a)(i := None)\<rparr>) else None)"

fun recorded :: "log_event list \<Rightarrow> int list" where
  "recorded [] = []"
| "recorded (Recorded t # es) = t # recorded es"
| "recorded (e # es) = recorded es"

fun prints :: "log_event list \<Rightarrow> (nat \<times> spin_print) list" where
  "prints [] = []"
| "prints (Print i p # es) = (i, p) # prints es"
| "prints (e # es) = prints es"

definition prints_of :: "nat \<Rightarrow> log_event list \<Rightarrow> spin_print list" where
  "prints_of i es = map snd (filter (\<lambda>(j, p). j = i) (prints es))"

lemma recorded_append [simp]: "recorded (es @ fs) = recorded es @ recorded fs"
  by (induction es rule: recorded.induct) auto

lemma prints_append [simp]: "prints (es @ fs) = prints es @ prints fs"
  by (induction es rule: prints.induct) auto

lemma log_records: "spec_run log_next es a = Some a' \<Longrightarrow> log_times a' = log_times a @ recorded es"
proof (induction es arbitrary: a)
  case (Cons e es)
  then obtain b where b: "log_next e a = Some b" "spec_run log_next es b = Some a'" by (auto split: option.splits)
  then show ?case using Cons.IH [OF b(2)] by (cases e) (auto split: option.splits list.splits if_splits)
qed simp

text \<open>What a close prints after its snapshot is the snapshot.\<close>

lemma log_prints:
  "spec_run log_next es a = Some a' \<Longrightarrow> Look i \<notin> set es \<Longrightarrow> Finish i \<notin> set es \<Longrightarrow> log_left a i = Some ps \<Longrightarrow>
    \<exists>qs. log_left a' i = Some qs \<and> ps = prints_of i es @ qs"
proof (induction es arbitrary: a ps)
  case Nil
  then show ?case by (simp add: prints_of_def)
next
  case (Cons e es)
  then obtain b where b: "log_next e a = Some b" "spec_run log_next es b = Some a'" by (auto split: option.splits)
  show ?case
  proof (cases "\<exists>p. e = Print i p")
    case True
    then obtain p where p: "e = Print i p" by blast
    then obtain rest where "ps = p # rest" "log_left b i = Some rest"
      using b(1) Cons.prems(4) by (auto split: list.splits if_splits)
    then show ?thesis using Cons.IH [OF b(2)] Cons.prems(2,3) p by (auto simp: prints_of_def)
  next
    case False
    then have "log_left b i = Some ps" "prints_of i (e # es) = prints_of i es"
      using b(1) Cons.prems by (cases e; auto simp: prints_of_def split: option.splits list.splits if_splits)+
    then show ?thesis using Cons.IH [OF b(2), of ps] Cons.prems(2,3) by auto
  qed
qed

lemma log_listing:
  assumes "spec_run log_next (es1 @ Look i # es2 @ Finish i # es3) log_empty = Some a"
    and "Look i \<notin> set es2" and "Finish i \<notin> set es2"
  shows "prints_of i es2 = listing (recorded es1)"
proof -
  obtain b c where b: "spec_run log_next es1 log_empty = Some b" "log_next (Look i) b = Some c"
      and r: "spec_run log_next (es2 @ Finish i # es3) c = Some a"
    using assms(1) by (auto simp: spec_run_append split: option.splits)
  obtain d where d: "spec_run log_next es2 c = Some d" "log_left d i = Some []"
    using r by (auto simp: spec_run_append split: option.splits if_splits)
  have "log_left c i = Some (listing (recorded es1))"
    using b(2) log_records [OF b(1)] by (auto simp: log_empty_def)
  then show ?thesis using log_prints [OF d(1) assms(2,3)] d(2) by auto
qed

subsection \<open>The module is that log\<close>

definition times_of :: "spin_irq \<Rightarrow> int list" where
  "times_of s = map (\<lambda>n. the (si_node s n)) (si_list s)"

definition spin_event_of :: "nat \<Rightarrow> spin_irq \<Rightarrow> spin_irq \<Rightarrow> log_event" where
  "spin_event_of i s t =
     (case si_pc s i of
        C_test \<Rightarrow> if si_pc t i = C_empty then Look i else Quiet
      | C_empty \<Rightarrow> if si_pc t i = C_disable then Print i Empty_list else Quiet
      | C_lock \<Rightarrow> if si_pc t i = C_show 0 then Look i else Quiet
      | C_show k \<Rightarrow> if si_pc t i = C_show (k + 1) then Print i (Time_at k (the (si_node s (si_list s ! k)))) else Quiet
      | C_disable \<Rightarrow> if si_pc t i = C_sync then Finish i else Quiet
      | I_link n \<Rightarrow> if si_pc t i = I_unlock then Recorded (the (si_node s n)) else Quiet
      | _ \<Rightarrow> Quiet)"

definition spin_emits :: "log_event \<Rightarrow> spin_irq \<Rightarrow> spin_irq \<Rightarrow> bool" where
  "spin_emits e s t \<longleftrightarrow> (\<exists>i. spin_irq_step False i s t \<and> e = spin_event_of i s t)"

fun left_of :: "int list \<Rightarrow> irq_pc \<Rightarrow> spin_print list option" where
  "left_of ts C_empty = Some [Empty_list]"
| "left_of ts (C_show k) = Some (drop k (listing ts))"
| "left_of ts C_unlock = Some []"
| "left_of ts C_disable = Some []"
| "left_of ts _ = None"

definition si_rel :: "spin_irq \<Rightarrow> spin_log \<Rightarrow> bool" where
  "si_rel s a \<longleftrightarrow> si_inv s \<and> log_times a = times_of s \<and> (\<forall>i. log_left a i = left_of (times_of s) (si_pc s i))"

lemma left_of_link: "\<not> critical x \<Longrightarrow> left_of (ts @ us) x = left_of ts x"
  by (cases x) auto

lemma drop_listing:
  "k < length ts \<Longrightarrow> drop k (listing ts) = Time_at k (ts ! k) # drop (k + 1) (listing ts)"
  "ts \<noteq> [] \<Longrightarrow> \<not> k < length ts \<Longrightarrow> drop k (listing ts) = []"
  by (auto simp: listing_def Cons_nth_drop_Suc [symmetric])

lemma times_of_simps [simp]:
  "times_of (si_goto s i x) = times_of s" "times_of (enable_irq s) = times_of s" "times_of (disable_irq s) = times_of s"
  "times_of (s\<lparr>si_lock := b\<rparr>) = times_of s" "times_of (s\<lparr>si_out := p\<rparr>) = times_of s"
  "times_of (s\<lparr>si_pc := pcs\<rparr>) = times_of s"
  "length (times_of s) = length (si_list s)"
  by (simp_all add: times_of_def)

lemma times_of_node:
  "si_list s' = si_list s \<Longrightarrow> n \<notin> set (si_list s) \<Longrightarrow> times_of (s'\<lparr>si_node := (si_node s)(n \<mapsto> t)\<rparr>) = times_of s"
  by (simp add: times_of_def)

text \<open>A context that moves outside its critical section leaves the others' snapshots alone.\<close>

lemma si_rel_go:
  assumes "si_rel s a" and "si_inv t" and "times_of t = times_of s" and "si_pc t = (si_pc s)(i := x)"
    and "log_times a' = log_times a" and "log_left a' = (log_left a)(i := left_of (times_of s) x)"
  shows "si_rel t a'"
  using assms by (auto simp: si_rel_def)

lemma si_rel_quiet:
  assumes "si_rel s a" and "si_inv t" and "times_of t = times_of s" and "si_pc t = (si_pc s)(i := x)"
    and "left_of (times_of s) x = left_of (times_of s) (si_pc s i)"
  shows "si_rel t a"
  using assms by (auto simp: si_rel_def)

lemma spin_simulates:
  assumes "spin_emits e s t" and "si_rel s a"
  shows "\<exists>a'. log_next e a = Some a' \<and> si_rel t a'"
proof -
  obtain i where i: "spin_irq_step False i s t" and e: "e = spin_event_of i s t"
    using assms(1) by (auto simp: spin_emits_def)
  have inv: "si_inv s" using assms(2) by (simp add: si_rel_def)
  have inv': "si_inv t" by (rule si_inv_step [OF i inv])
  have len: "length (times_of s) = length (si_list s)" by simp
  note o = si_inv_simps(4) [OF inv]
  have left: "log_left a i = left_of (times_of s) (si_pc s i)" using assms(2) by (simp add: si_rel_def)
  have quiet: "\<exists>a'. log_next e a = Some a' \<and> si_rel t a'"
    if "e = Quiet" "times_of t = times_of s" "si_pc t = (si_pc s)(i := x)"
      "left_of (times_of s) x = left_of (times_of s) (si_pc s i)" for x
    using that si_rel_quiet [OF assms(2) inv' that(2-4)] by simp
  have go: "\<exists>a'. log_next e a = Some a' \<and> si_rel t a'"
    if "log_next e a = Some (a\<lparr>log_left := (log_left a)(i := left_of (times_of s) x)\<rparr>)"
      "times_of t = times_of s" "si_pc t = (si_pc s)(i := x)" for x
    using that si_rel_go [OF assms(2) inv' that(2,3)] by simp
  show ?thesis
    using i
  proof cases
    case list_empty
    then have "times_of s = []" by (simp add: times_of_def)
    then show ?thesis
      using e list_empty assms(2) by (intro go [of C_empty]) (simp_all add: spin_event_of_def si_rel_def listing_def)
  next
    case print_empty
    then show ?thesis using e left by (intro go [of C_disable]) (simp_all add: spin_event_of_def)
  next
    case show_lock
    then show ?thesis using e assms(2) by (intro go [of "C_show 0"]) (simp_all add: spin_event_of_def si_rel_def)
  next
    case (show_time k tm)
    have "log_left a i = Some (Time_at k tm # drop (k + 1) (listing (times_of s)))"
      using left show_time drop_listing(1) [of k "times_of s"] len by (simp add: times_of_def)
    then show ?thesis using e show_time by (intro go [of "C_show (k + 1)"]) (simp_all add: spin_event_of_def)
  next
    case (show_end k)
    then have "times_of s \<noteq> []" using si_inv_simps(5) [OF inv, of i] by (simp add: times_of_def)
    then show ?thesis
      using e show_end drop_listing(2) [of "times_of s" k] len by (intro quiet [of C_unlock]) (simp_all add: spin_event_of_def)
  next
    case disable
    then show ?thesis using e left by (intro go [of C_sync]) (simp_all add: spin_event_of_def)
  next
    case (kmalloc n junk)
    then have "n \<notin> set (si_list s)" using owned_simps(5) [OF o] by auto
    then have "times_of t = times_of s" using kmalloc times_of_node [of "si_goto s i (I_lock (Some n))" s n junk] by simp
    then show ?thesis using e kmalloc by (intro quiet [of "I_lock (Some n)"]) (simp_all add: spin_event_of_def)
  next
    case (get_time n now)
    then have "n \<notin> set (si_list s)" using owned_simps(4) [OF o, of i n] by simp
    then have "times_of t = times_of s" using get_time times_of_node [of "si_goto s i (I_link n)" s n now] by simp
    then show ?thesis using e get_time by (intro quiet [of "I_link n"]) (simp_all add: spin_event_of_def)
  next
    case (list_add_tail n)
    let ?t = "the (si_node s n)"
    have times: "times_of t = times_of s @ [?t]" using list_add_tail by (simp add: times_of_def)
    have "\<not> critical (si_pc s j)" if "j \<noteq> i" for j
      using lock_ok_excludes [OF si_inv_simps(2) [OF inv], of i j] that list_add_tail by simp
    moreover have "si_pc t = (si_pc s)(i := I_unlock)" using list_add_tail by simp
    ultimately have "left_of (times_of t) (si_pc t j) = left_of (times_of s) (si_pc s j)" for j
      by (cases "j = i") (simp_all add: times left_of_link list_add_tail(2))
    then have "si_rel t (a\<lparr>log_times := log_times a @ [?t]\<rparr>)" using assms(2) inv' times by (simp add: si_rel_def)
    then show ?thesis using e list_add_tail by (simp add: spin_event_of_def)
  next
    case (show_fault k)
    then show ?thesis using si_no_fault(1) [OF inv, of i k] by simp
  next
    case (get_time_fault n)
    then show ?thesis using si_no_fault(2) [OF inv, of i] by simp
  next
    case get_time_null
    then show ?thesis using si_no_fault(2) [OF inv, of i] by simp
  qed (rule quiet [of "si_pc t i"]; simp add: e spin_event_of_def; fail)+
qed

interpretation spin_log: forward_simulation log_next log_empty si_start spin_emits si_rel
proof
  fix s
  assume "si_start s"
  then show "si_rel s log_empty"
    using si_inv_start by (simp add: si_rel_def log_empty_def times_of_def si_start_def)
qed (rule spin_simulates)

text \<open>The lines printed are those of the history.\<close>

lemma spin_prints: "labelled si_start spin_emits es s \<Longrightarrow> prints es = si_out s"
proof (induction rule: labelled.induct)
  case (lab_start s)
  then show ?case by (simp add: si_start_def)
next
  case (lab_step es s e t)
  then obtain i where i: "spin_irq_step False i s t" "e = spin_event_of i s t" by (auto simp: spin_emits_def)
  from i(1) have "si_out s @ prints [e] = si_out t" by cases (auto simp: i(2) spin_event_of_def)
  then show ?case using lab_step.IH by simp
qed

subsection \<open>Unloading, and a close alone\<close>

lemma spin_frees_all:
  "dom (si_node s) = set ns \<Longrightarrow> distinct ns \<Longrightarrow> si_list s = ns \<Longrightarrow>
    \<exists>s'. spin_free_nodes ns s = Inr s' \<and> si_node s' = Map.empty \<and> si_list s' = []"
proof (induction ns arbitrary: s)
  case (Cons n ns)
  let ?s = "s\<lparr>si_list := ns, si_node := (si_node s)(n := None)\<rparr>"
  have d: "dom (si_node ?s) = set ns" using Cons.prems by auto
  obtain s' where "spin_free_nodes ns ?s = Inr s'" "si_node s' = Map.empty" "si_list s' = []"
    using Cons.IH [OF d] Cons.prems(2) by (auto simp del: fun_upd_apply)
  moreover have "n \<in> dom (si_node s)" using Cons.prems by simp
  ultimately show ?case using Cons.prems by simp
qed simp

lemma spin_idle_unload:
  assumes "si_inv s" and "\<And>i. node_of (si_pc s i) = None"
  shows "\<exists>s' tr. spin_irq_exit s = Inr (s', tr) \<and> si_node s' = Map.empty \<and> si_list s' = []"
proof -
  obtain s' where "spin_free_nodes (si_list s) s = Inr s'" "si_node s' = Map.empty" "si_list s' = []"
    using spin_frees_all [of s] owned_idle [OF si_inv_simps(4) [OF assms(1)] assms(2)] by blast
  then show ?thesis by (simp add: spin_irq_exit_def)
qed

lemma idle_node: "\<not> in_handler x \<Longrightarrow> node_of x = None"
  by (cases x) auto

text \<open>The rest of the loop of a close that nobody disturbs, then all of it.\<close>

lemma show_undisturbed:
  assumes "si_pc s i = C_show k" and "k \<le> length (si_list s)" and "set (si_list s) \<subseteq> dom (si_node s)"
  shows "(spin_irq_step oom i)\<^sup>*\<^sup>* s ((si_goto s i C_unlock)\<lparr>si_out := si_out s @
    map (\<lambda>j. (i, Time_at j (times_of s ! j))) [k..<length (si_list s)]\<rparr>)"
  using assms
proof (induction "length (si_list s) - k" arbitrary: s k)
  case 0
  then have "spin_irq_step oom i s (si_goto s i C_unlock)" by (intro show_end [of s i k]) simp_all
  then show ?case using 0 by (simp add: si_goto_def)
next
  case (Suc d)
  then have k: "k < length (si_list s)" by simp
  then obtain t where t: "si_node s (si_list s ! k) = Some t" using Suc.prems(3) nth_mem [OF k] by blast
  let ?s = "(si_goto s i (C_show (k + 1)))\<lparr>si_out := si_out s @ [(i, Time_at k t)]\<rparr>"
  have "times_of s ! k = t" using t k by (simp add: times_of_def)
  moreover have "[k..<length (si_list s)] = k # [k + 1..<length (si_list s)]" using k by (simp add: upt_conv_Cons)
  moreover have "(spin_irq_step oom i)\<^sup>*\<^sup>* ?s ((si_goto ?s i C_unlock)\<lparr>si_out := si_out ?s @
      map (\<lambda>j. (i, Time_at j (times_of ?s ! j))) [k + 1..<length (si_list ?s)]\<rparr>)"
    using Suc.hyps(2) Suc.prems k by (intro Suc.hyps(1)) simp_all
  moreover have "spin_irq_step oom i s ?s" by (rule show_time) (use Suc.prems k t in simp_all)
  ultimately show ?case by (simp add: si_goto_def converse_rtranclp_into_rtranclp)
qed

lemma close_undisturbed:
  assumes "si_pc s i = Opened" and "si_inv s" and "\<And>j. j \<noteq> i \<Longrightarrow> si_pc s j = Outside"
    and "spin_interrupt_release \<lparr>irq_num = irq_num s, disable_depth = disable_depth s, unbalanced = unbalanced s, time_list = times_of s\<rparr> =
      (r, d, out)"
  shows "\<exists>t. (spin_irq_step oom i)\<^sup>*\<^sup>* s t \<and> si_pc t i = Outside \<and> irq_line.truncate t = irq_line.truncate d \<and>
    times_of t = time_list d \<and> \<not> si_lock t \<and> si_out t = si_out s @ map (Pair i) out"
proof -
  have out: "out = listing (times_of s)" and d: "irq_line.truncate d = disable_irq (irq_line.truncate s)" "time_list d = times_of s"
    using assms(4) by (auto simp: spin_interrupt_release_def listing_enumerate [symmetric] disable_irq_def irq_line.truncate_def)
  let ?s1 = "si_goto s i C_test"
  have 1: "spin_irq_step oom i s ?s1" using assms(1) by (rule call_release)
  have free: "\<not> si_lock s"
    using si_inv_simps(2) [OF assms(2)] assms(1,3) by (auto simp: lock_ok_def) (metis critical.simps(6,8))
  have "\<exists>t. (spin_irq_step oom i)\<^sup>*\<^sup>* s t \<and> irq_line.truncate t = irq_line.truncate s \<and>
      si_pc t = (si_pc s)(i := C_disable) \<and> times_of t = times_of s \<and> \<not> si_lock t \<and> si_out t = si_out s @ map (Pair i) out"
  proof (cases "si_list s = []")
    case True
    let ?s2 = "si_goto ?s1 i C_empty"
    let ?t = "(si_goto ?s2 i C_disable)\<lparr>si_out := si_out ?s2 @ [(i, Empty_list)]\<rparr>"
    have "spin_irq_step oom i ?s1 ?s2" by (rule list_empty) (use True in simp_all)
    moreover have "spin_irq_step oom i ?s2 ?t" by (rule print_empty) simp
    ultimately have "(spin_irq_step oom i)\<^sup>*\<^sup>* s ?t" using 1 by (meson converse_rtranclp_into_rtranclp rtranclp.rtrancl_refl)
    then show ?thesis
      using True free by (intro exI [of _ ?t]) (simp add: out listing_def times_of_def irq_line.truncate_def)
  next
    case False
    let ?out = "map (\<lambda>j. (i, Time_at j (times_of s ! j))) [0..<length (si_list s)]"
    let ?s2 = "si_goto ?s1 i C_lock"
    let ?s3 = "(si_goto ?s2 i (C_show 0))\<lparr>si_lock := True\<rparr>"
    let ?s4 = "(si_goto ?s3 i C_unlock)\<lparr>si_out := si_out ?s3 @ ?out\<rparr>"
    let ?t = "(si_goto ?s4 i C_disable)\<lparr>si_lock := False\<rparr>"
    have "set (si_list s) \<subseteq> dom (si_node s)" using owned_simps(5) [OF si_inv_simps(4) [OF assms(2)]] by blast
    then have "(spin_irq_step oom i)\<^sup>*\<^sup>* ?s3 ?s4" using show_undisturbed [of ?s3 i 0 oom] by simp
    moreover have "spin_irq_step oom i ?s1 ?s2" by (rule not_empty) (use False in simp_all)
    moreover have "spin_irq_step oom i ?s2 ?s3" by (rule show_lock) (use free in simp_all)
    moreover have "spin_irq_step oom i ?s4 ?t" by (rule show_unlock) simp
    ultimately have "(spin_irq_step oom i)\<^sup>*\<^sup>* s ?t"
      using 1 by (meson converse_rtranclp_into_rtranclp rtranclp.rtrancl_into_rtrancl)
    moreover have "?out = map (Pair i) out" using False by (simp add: out listing_def times_of_def comp_def)
    ultimately show ?thesis by (intro exI [of _ ?t]) (simp add: irq_line.truncate_def)
  qed
  then obtain t where t: "(spin_irq_step oom i)\<^sup>*\<^sup>* s t" "irq_line.truncate t = irq_line.truncate s"
      "si_pc t = (si_pc s)(i := C_disable)" "times_of t = times_of s" "\<not> si_lock t" "si_out t = si_out s @ map (Pair i) out"
    by blast
  let ?t1 = "disable_irq (si_goto t i C_sync)"
  let ?t2 = "si_goto ?t1 i Outside"
  have "spin_irq_step oom i t ?t1" by (rule disable) (simp add: t(3))
  moreover have "spin_irq_step oom i ?t1 ?t2" by (rule sync) (use t(3) assms(1,3) in auto)
  ultimately have "(spin_irq_step oom i)\<^sup>*\<^sup>* s ?t2" using t(1) by (meson rtranclp.rtrancl_into_rtrancl)
  moreover have "irq_line.truncate ?t2 = disable_irq (irq_line.truncate s)"
    using t(2) by (simp add: disable_irq_def irq_line.truncate_def)
  ultimately show ?thesis using t(4-6) d by (intro exI [of _ ?t2]) simp
qed

subsection \<open>Every call returns\<close>

text \<open>The detections on the list and the one being recorded: what a close can still have to show.\<close>

fun recording :: "irq_pc \<Rightarrow> bool" where
  "recording I_alloc = True"
| "recording (I_lock p) = True"
| "recording (I_time p) = True"
| "recording (I_link n) = True"
| "recording _ = False"

definition to_show :: "spin_irq \<Rightarrow> nat" where
  "to_show s = length (si_list s) + (if \<exists>j. recording (si_pc s j) then 1 else 0)"

fun spin_irq_rank :: "nat \<Rightarrow> irq_pc \<Rightarrow> nat" where
  "spin_irq_rank n Enable = 1"
| "spin_irq_rank n C_sync = 1"
| "spin_irq_rank n C_disable = 2"
| "spin_irq_rank n C_empty = 3"
| "spin_irq_rank n C_unlock = 3"
| "spin_irq_rank n (C_show k) = 4 + (n - k)"
| "spin_irq_rank n C_lock = 5 + n"
| "spin_irq_rank n C_test = 6 + n"
| "spin_irq_rank n I_unlock = 1"
| "spin_irq_rank n (I_link p) = 2"
| "spin_irq_rank n (I_time p) = 3"
| "spin_irq_rank n (I_lock p) = 4"
| "spin_irq_rank n I_alloc = 5"
| "spin_irq_rank n _ = 0"

lemma spin_irq_rank_0 [simp]: "0 < spin_irq_rank n x \<longleftrightarrow> x \<noteq> Outside \<and> x \<noteq> Opened"
  by (cases x) auto

lemma recording_handler: "recording x \<Longrightarrow> in_handler x"
  by (cases x) auto

lemma ex_upd: "P x = P (pcs i) \<Longrightarrow> (\<exists>j. P ((pcs(i := x)) j)) = (\<exists>j. P (pcs j))"
  by (metis fun_upd_apply)

lemma to_show_kept:
  assumes "spin_irq_step False i s t" and "si_inv s" and "si_pc s i \<noteq> Outside"
  shows "to_show t = to_show s"
  using assms(1)
proof cases
  case (list_add_tail n)
  have "\<not> recording (si_pc s j)" if "j \<noteq> i" for j
    using si_inv_simps(3) [OF assms(2)] list_add_tail(2) that recording_handler [of "si_pc s j"]
    by (auto simp: exclusive_def)
  then have "\<not> (\<exists>j. recording (si_pc t j))" "\<exists>j. recording (si_pc s j)"
    using list_add_tail by (auto intro: exI [of _ i])
  then show ?thesis using list_add_tail by (simp add: to_show_def)
qed (use assms(3) in \<open>simp_all add: to_show_def ex_upd del: fun_upd_apply\<close>)

definition si_live :: "spin_irq \<Rightarrow> bool" where
  "si_live s \<longleftrightarrow> si_inv s \<and> finite {i. si_pc s i \<noteq> Outside}"

lemma si_live_step: "spin_irq_step False i s t \<Longrightarrow> si_live s \<Longrightarrow> si_live t"
  using si_inv_step [of i s t]
  by (auto simp: si_live_def simp del: fun_upd_apply elim!: spin_irq_stepE)

lemma spin_irq_nearer:
  assumes "spin_irq_step False i s t" and "si_inv s" and "si_pc s i \<noteq> Outside" and "si_pc s i \<noteq> Opened"
  shows "spin_irq_rank (to_show t) (si_pc t i) < spin_irq_rank (to_show s) (si_pc s i)"
proof -
  have same: "to_show t = to_show s" by (rule to_show_kept [OF assms(1-3)])
  have le: "length (si_list s) \<le> to_show s" by (simp add: to_show_def)
  show ?thesis
    unfolding same using assms(1) by cases (use assms(3,4) le si_no_fault [OF assms(2), of i] in auto)
qed

lemma spin_irq_moves:
  assumes "si_live s" and "si_pc s j \<noteq> Outside" and "si_pc s j \<noteq> Opened" and "si_pc s j \<noteq> C_sync"
    and "critical (si_pc s j) \<or> \<not> si_lock s"
  shows "\<exists>t. spin_irq_step False j s t"
proof (cases "si_pc s j")
  case C_test
  then show ?thesis using list_empty not_empty by (cases "si_list s = []") blast+
next
  case (C_show k)
  then show ?thesis
    using show_time [OF C_show] show_fault [OF C_show] show_end [OF C_show]
    by (cases "k < length (si_list s)"; cases "si_node s (si_list s ! k)") auto
next
  case I_alloc
  have "finite (dom (si_node s))"
    using assms(1) owned_finite [OF si_inv_simps(4), of s Outside] by (auto simp: si_live_def)
  then obtain n where "n \<notin> dom (si_node s)" using ex_new_if_finite [OF infinite_UNIV_nat] by blast
  then show ?thesis using kmalloc [OF I_alloc] by blast
next
  case (I_time p)
  show ?thesis
  proof (cases p)
    case (Some n)
    then show ?thesis using get_time [of s j n] get_time_fault [of s j n] I_time by (cases "n \<in> dom (si_node s)") auto
  qed (use get_time_null I_time in auto)
next
  case (I_lock p)
  then show ?thesis using isr_lock [OF I_lock] assms(5) by auto
next
  case C_lock
  then show ?thesis using show_lock [OF C_lock] assms(5) by auto
qed (use assms(2-4) in simp_all,
    (rule exI, rule enable print_empty show_unlock disable list_add_tail isr_unlock, assumption)+)

lemma spin_irq_can_move:
  assumes "si_live s" and "si_pc s i \<noteq> Outside" and "si_pc s i \<noteq> Opened"
  shows "\<exists>j t. spin_irq_step False j s t \<and> si_pc s j \<noteq> Outside \<and> si_pc s j \<noteq> Opened"
proof (cases "si_lock s")
  case True
  then obtain j where j: "critical (si_pc s j)"
    using assms(1) by (auto simp: si_live_def si_inv_def lock_ok_def)
  then have "si_pc s j \<noteq> Outside \<and> si_pc s j \<noteq> Opened \<and> si_pc s j \<noteq> C_sync" by auto
  then show ?thesis using spin_irq_moves [OF assms(1), of j] j by blast
next
  case free: False
  show ?thesis
  proof (cases "si_pc s i = C_sync \<and> (\<exists>j. in_handler (si_pc s j))")
    case True
    then obtain j where "in_handler (si_pc s j)" by blast
    then have "si_pc s j \<noteq> Outside \<and> si_pc s j \<noteq> Opened \<and> si_pc s j \<noteq> C_sync" by auto
    then show ?thesis using spin_irq_moves [OF assms(1), of j] free by blast
  next
    case False
    then show ?thesis using sync [of s i False] spin_irq_moves [OF assms(1), of i] assms(2,3) free by blast
  qed
qed

interpretation spin_irq_calls: draining "spin_irq_step False" "\<lambda>s i. spin_irq_rank (to_show s) (si_pc s i)" si_live
  "\<lambda>s. 6 + to_show s"
proof
  fix s t i j
  assume s: "si_live s" "spin_irq_step False i s t" "0 < spin_irq_rank (to_show s) (si_pc s i)"
  then show "si_live t" using si_live_step by blast
  show "spin_irq_rank (to_show t) (si_pc t i) < spin_irq_rank (to_show s) (si_pc s i)"
    using spin_irq_nearer [OF s(2)] s(1,3) by (simp add: si_live_def)
  show "spin_irq_rank (to_show t) (si_pc t j) = spin_irq_rank (to_show s) (si_pc s j)" if "j \<noteq> i"
  proof -
    have "to_show t = to_show s" using to_show_kept [OF s(2)] s(1,3) by (simp add: si_live_def)
    moreover have "si_pc t j = si_pc s j" using s(2) by cases (use that in auto)
    ultimately show ?thesis by simp
  qed
next
  fix s i
  show "spin_irq_rank (to_show s) (si_pc s i) \<le> 6 + to_show s" by (cases "si_pc s i") auto
next
  fix s i
  assume "si_live s" "0 < spin_irq_rank (to_show s) (si_pc s i)"
  then show "\<exists>j t. spin_irq_step False j s t \<and> 0 < spin_irq_rank (to_show s) (si_pc s j)"
    using spin_irq_can_move [of s i] by auto
next
  fix s
  assume "si_live s"
  then show "finite {i. 0 < spin_irq_rank (to_show s) (si_pc s i)}"
    by (auto simp: si_live_def intro: finite_subset [of _ "{i. si_pc s i \<noteq> Outside}"])
qed

lemma spin_labelled_live: "labelled si_start spin_emits es s \<Longrightarrow> si_live s"
proof (induction rule: labelled.induct)
  case (lab_start s)
  then show ?case using si_inv_start by (auto simp: si_live_def si_start_def)
next
  case (lab_step es s e t)
  then show ?case using si_live_step by (auto simp: spin_emits_def)
qed

text \<open>
  A close takes at most the number of detections and seven steps more, and no schedule keeps
  it from returning.
\<close>

lemma spin_irq_calls_return:
  assumes "labelled si_start spin_emits es s"
    and "((\<lambda>s t. \<exists>i. spin_irq_step False i s t \<and> si_pc s i \<noteq> Outside \<and> si_pc s i \<noteq> Opened) ^^ m) s t"
  shows "m \<le> (6 + to_show s) * card {i. si_pc s i \<noteq> Outside \<and> si_pc s i \<noteq> Opened} \<and>
    ((\<exists>i. si_pc t i \<noteq> Outside \<and> si_pc t i \<noteq> Opened) \<longrightarrow>
      (\<exists>u i. spin_irq_step False i t u \<and> si_pc t i \<noteq> Outside \<and> si_pc t i \<noteq> Opened))"
  using spin_irq_calls.calls_return [of m s t] spin_labelled_live [OF assms(1)] assms(2) by simp

subsection \<open>A sample run\<close>

lemma spin_log_step:
  "labelled si_start spin_emits es s \<Longrightarrow> spin_irq_step False i s t \<Longrightarrow> es' = es @ [spin_event_of i s t] \<Longrightarrow>
    labelled si_start spin_emits es' t"
  by (simp, rule lab_step) (auto simp: spin_emits_def)

definition si_two ::
  "nat \<Rightarrow> (nat \<rightharpoonup> int) \<Rightarrow> nat list \<Rightarrow> bool \<Rightarrow> irq_pc \<Rightarrow> irq_pc \<Rightarrow> (nat \<times> spin_print) list \<Rightarrow> spin_irq" where
  "si_two d nd xs l x y out =
     \<lparr>irq_num = 117, disable_depth = d, unbalanced = False, si_node = nd, si_list = xs, si_lock = l,
      si_pc = (\<lambda>_. Outside)(0 := x, 1 := y), si_fault = None, si_out = out\<rparr>"

lemma si_two_simps [simp]:
  "disable_depth (si_two d nd xs l x y out) = d" "si_node (si_two d nd xs l x y out) = nd"
  "si_list (si_two d nd xs l x y out) = xs" "si_lock (si_two d nd xs l x y out) = l"
  "si_pc (si_two d nd xs l x y out) 0 = x" "si_pc (si_two d nd xs l x y out) (Suc 0) = y"
  "si_out (si_two d nd xs l x y out) = out"
  "si_goto (si_two d nd xs l x y out) 0 z = si_two d nd xs l z y out"
  "si_goto (si_two d nd xs l x y out) (Suc 0) z = si_two d nd xs l x z out"
  "(si_two d nd xs l x y out)\<lparr>disable_depth := d'\<rparr> = si_two d' nd xs l x y out"
  "(si_two d nd xs l x y out)\<lparr>si_node := nd'\<rparr> = si_two d nd' xs l x y out"
  "(si_two d nd xs l x y out)\<lparr>si_list := xs'\<rparr> = si_two d nd xs' l x y out"
  "(si_two d nd xs l x y out)\<lparr>si_lock := l'\<rparr> = si_two d nd xs l' x y out"
  "(si_two d nd xs l x y out)\<lparr>si_out := out'\<rparr> = si_two d nd xs l x y out'"
  by (simp_all add: si_two_def si_goto_def fun_upd_twist)

lemma all_two: "(\<forall>j. \<not> in_handler (si_pc (si_two d nd xs l x y out) j)) \<longleftrightarrow> \<not> in_handler x \<and> \<not> in_handler y"
  by (auto simp: si_two_def)

definition spin_sample_log :: "log_event list" where
  "spin_sample_log = [Quiet, Quiet, Quiet, Quiet, Quiet, Quiet, Recorded 42, Quiet, Quiet, Quiet, Look 0, Print 0 (Time_at 0 42), Quiet, Quiet, Finish 0]"

text \<open>A process opens the device, a detection is recorded while it closes it again, and it prints it.\<close>

lemma spin_one_detection:
  "labelled si_start spin_emits [Quiet, Quiet, Quiet, Quiet, Quiet, Quiet, Recorded 42, Quiet, Quiet, Quiet, Look 0, Print 0 (Time_at 0 42), Quiet, Quiet, Finish 0]
    (si_two 1 [7 \<mapsto> 42] [7] False C_sync Outside [(0, Time_at 0 42)])"
proof -
  let ?R = "labelled si_start spin_emits"
  let ?s = "\<lparr>irq_num = 0, disable_depth = 0, unbalanced = False, time_list = []\<rparr>"
  obtain s1 tr where i: "spin_interrupt_init all_ok ?s = Inr (0, s1, tr)" "ret_request_irq all_ok (irq_num s1) = 0"
      "irq_num s1 = 117" "disable_depth s1 = 1" "\<not> unbalanced s1"
    by (simp add: spin_interrupt_init_def unchecked_cdev_init_def all_ok_def Let_def disable_irq_def SENSOR1_def)
  have "?R [] (si_two 1 Map.empty [] False Outside Outside [])"
    by (rule lab_start) (use i in \<open>auto simp: si_start_def si_two_def irq_line.truncate_def intro!: exI\<close>)
  then have "?R [Quiet] (si_two 1 Map.empty [] False Enable Outside [])"
    by (rule spin_log_step [where i = 0]) (use call_open [of "si_two 1 Map.empty [] False Outside Outside []" 0 False] in \<open>simp add: enable_irq_def disable_irq_def all_two\<close>, simp add: spin_event_of_def)
  then have "?R [Quiet, Quiet] (si_two 0 Map.empty [] False Opened Outside [])"
    by (rule spin_log_step [where i = 0]) (use enable [of "si_two 1 Map.empty [] False Enable Outside []" 0 False] in \<open>simp add: enable_irq_def disable_irq_def all_two\<close>, simp add: spin_event_of_def)
  then have "?R [Quiet, Quiet, Quiet] (si_two 0 Map.empty [] False Opened I_alloc [])"
    by (rule spin_log_step [where i = 1]) (use irq [of "si_two 0 Map.empty [] False Opened Outside []" 1 False] in \<open>simp add: enable_irq_def disable_irq_def all_two\<close>, simp add: spin_event_of_def)
  then have "?R [Quiet, Quiet, Quiet, Quiet] (si_two 0 [7 \<mapsto> 0] [] False Opened (I_lock (Some 7)) [])"
    by (rule spin_log_step [where i = 1]) (use kmalloc [of "si_two 0 Map.empty [] False Opened I_alloc []" 1 7 False 0] in \<open>simp add: enable_irq_def disable_irq_def all_two\<close>, simp add: spin_event_of_def)
  then have "?R [Quiet, Quiet, Quiet, Quiet, Quiet] (si_two 0 [7 \<mapsto> 0] [] True Opened (I_time (Some 7)) [])"
    by (rule spin_log_step [where i = 1]) (use isr_lock [of "si_two 0 [7 \<mapsto> 0] [] False Opened (I_lock (Some 7)) []" 1 "Some 7" False] in \<open>simp add: enable_irq_def disable_irq_def all_two\<close>, simp add: spin_event_of_def)
  then have "?R [Quiet, Quiet, Quiet, Quiet, Quiet, Quiet] (si_two 0 [7 \<mapsto> 42] [] True Opened (I_link 7) [])"
    by (rule spin_log_step [where i = 1]) (use get_time [of "si_two 0 [7 \<mapsto> 0] [] True Opened (I_time (Some 7)) []" 1 7 False 42] in \<open>simp add: enable_irq_def disable_irq_def all_two\<close>, simp add: spin_event_of_def)
  then have "?R [Quiet, Quiet, Quiet, Quiet, Quiet, Quiet, Recorded 42] (si_two 0 [7 \<mapsto> 42] [7] True Opened I_unlock [])"
    by (rule spin_log_step [where i = 1]) (use list_add_tail [of "si_two 0 [7 \<mapsto> 42] [] True Opened (I_link 7) []" 1 7 False] in \<open>simp add: enable_irq_def disable_irq_def all_two\<close>, simp add: spin_event_of_def)
  then have "?R [Quiet, Quiet, Quiet, Quiet, Quiet, Quiet, Recorded 42, Quiet] (si_two 0 [7 \<mapsto> 42] [7] True C_test I_unlock [])"
    by (rule spin_log_step [where i = 0]) (use call_release [of "si_two 0 [7 \<mapsto> 42] [7] True Opened I_unlock []" 0 False] in \<open>simp add: enable_irq_def disable_irq_def all_two\<close>, simp add: spin_event_of_def)
  then have "?R [Quiet, Quiet, Quiet, Quiet, Quiet, Quiet, Recorded 42, Quiet, Quiet] (si_two 0 [7 \<mapsto> 42] [7] True C_lock I_unlock [])"
    by (rule spin_log_step [where i = 0]) (use not_empty [of "si_two 0 [7 \<mapsto> 42] [7] True C_test I_unlock []" 0 False] in \<open>simp add: enable_irq_def disable_irq_def all_two\<close>, simp add: spin_event_of_def)
  then have "?R [Quiet, Quiet, Quiet, Quiet, Quiet, Quiet, Recorded 42, Quiet, Quiet, Quiet] (si_two 0 [7 \<mapsto> 42] [7] False C_lock Outside [])"
    by (rule spin_log_step [where i = 1]) (use isr_unlock [of "si_two 0 [7 \<mapsto> 42] [7] True C_lock I_unlock []" 1 False] in \<open>simp add: enable_irq_def disable_irq_def all_two\<close>, simp add: spin_event_of_def)
  then have "?R [Quiet, Quiet, Quiet, Quiet, Quiet, Quiet, Recorded 42, Quiet, Quiet, Quiet, Look 0] (si_two 0 [7 \<mapsto> 42] [7] True (C_show 0) Outside [])"
    by (rule spin_log_step [where i = 0]) (use show_lock [of "si_two 0 [7 \<mapsto> 42] [7] False C_lock Outside []" 0 False] in \<open>simp add: enable_irq_def disable_irq_def all_two\<close>, simp add: spin_event_of_def)
  then have "?R [Quiet, Quiet, Quiet, Quiet, Quiet, Quiet, Recorded 42, Quiet, Quiet, Quiet, Look 0, Print 0 (Time_at 0 42)] (si_two 0 [7 \<mapsto> 42] [7] True (C_show 1) Outside [(0, Time_at 0 42)])"
    by (rule spin_log_step [where i = 0]) (use show_time [of "si_two 0 [7 \<mapsto> 42] [7] True (C_show 0) Outside []" 0 0 42 False] in \<open>simp add: enable_irq_def disable_irq_def all_two\<close>, simp add: spin_event_of_def)
  then have "?R [Quiet, Quiet, Quiet, Quiet, Quiet, Quiet, Recorded 42, Quiet, Quiet, Quiet, Look 0, Print 0 (Time_at 0 42), Quiet] (si_two 0 [7 \<mapsto> 42] [7] True C_unlock Outside [(0, Time_at 0 42)])"
    by (rule spin_log_step [where i = 0]) (use show_end [of "si_two 0 [7 \<mapsto> 42] [7] True (C_show 1) Outside [(0, Time_at 0 42)]" 0 1 False] in \<open>simp add: enable_irq_def disable_irq_def all_two\<close>, simp add: spin_event_of_def)
  then have "?R [Quiet, Quiet, Quiet, Quiet, Quiet, Quiet, Recorded 42, Quiet, Quiet, Quiet, Look 0, Print 0 (Time_at 0 42), Quiet, Quiet] (si_two 0 [7 \<mapsto> 42] [7] False C_disable Outside [(0, Time_at 0 42)])"
    by (rule spin_log_step [where i = 0]) (use show_unlock [of "si_two 0 [7 \<mapsto> 42] [7] True C_unlock Outside [(0, Time_at 0 42)]" 0 False] in \<open>simp add: enable_irq_def disable_irq_def all_two\<close>, simp add: spin_event_of_def)
  then have "?R [Quiet, Quiet, Quiet, Quiet, Quiet, Quiet, Recorded 42, Quiet, Quiet, Quiet, Look 0, Print 0 (Time_at 0 42), Quiet, Quiet, Finish 0] (si_two 1 [7 \<mapsto> 42] [7] False C_sync Outside [(0, Time_at 0 42)])"
    by (rule spin_log_step [where i = 0]) (use disable [of "si_two 0 [7 \<mapsto> 42] [7] False C_disable Outside [(0, Time_at 0 42)]" 0 False] in \<open>simp add: enable_irq_def disable_irq_def all_two\<close>, simp add: spin_event_of_def)
  then show ?thesis .
qed

subsection \<open>Properties\<close>

text \<open>
  C25. The detection list under concurrency, allocations succeeding: whatever processes open
  and close the device and whenever interrupts arrive, no step faults, the list holds the
  recorded detections in order, what a close prints between taking the lock and disabling
  the interrupt is all detections recorded before it took the lock, numbered from 0, and
  nothing else, and when no handler runs unloading frees every node.
\<close>

theorem spin_interrupt_snapshots:
  assumes "labelled si_start spin_emits es s"
  shows "spec_run log_next es log_empty \<noteq> None \<and> times_of s = recorded es \<and> si_out s = prints es \<and> si_fault s = None \<and>
    (\<forall>es1 i es2 es3. es = es1 @ Look i # es2 @ Finish i # es3 \<longrightarrow> Look i \<notin> set es2 \<longrightarrow> Finish i \<notin> set es2 \<longrightarrow>
       prints_of i es2 = listing (recorded es1)) \<and>
    ((\<forall>i. \<not> in_handler (si_pc s i)) \<longrightarrow>
      (\<exists>s' tr. spin_irq_exit s = Inr (s', tr) \<and> si_node s' = Map.empty \<and> si_list s' = []))"
proof -
  obtain a where a: "spec_run log_next es log_empty = Some a" "si_rel s a" using spin_log.refines [OF assms] by blast
  have inv: "si_inv s" using a(2) by (simp add: si_rel_def)
  have "times_of s = recorded es" using log_records [OF a(1)] a(2) by (simp add: si_rel_def log_empty_def)
  then show ?thesis
    using a(1) spin_prints [OF assms] si_inv_simps(1) [OF inv] spin_idle_unload [OF inv] idle_node log_listing by auto
qed

theorem spin_interrupt_snapshots_witness:
  "\<exists>s :: spin_irq. labelled si_start spin_emits spin_sample_log s \<and> si_fault s = None \<and> recorded spin_sample_log = [42] \<and>
     times_of s = [42] \<and> si_out s = [(0, Time_at 0 42)] \<and>
     prints_of 0 [Print 0 (Time_at 0 42), Quiet, Quiet] = listing (recorded (take 10 spin_sample_log))"
proof -
  let ?s = "si_two 1 [7 \<mapsto> 42] [7] False C_sync Outside [(0, Time_at 0 42)]"
  note l = spin_one_detection [folded spin_sample_log_def]
  note p = spin_interrupt_snapshots [OF l]
  have "prints_of 0 [Print 0 (Time_at 0 42), Quiet, Quiet] = listing (recorded (take 10 spin_sample_log))"
    using p [THEN conjunct2, THEN conjunct2, THEN conjunct2, THEN conjunct2, THEN conjunct1, rule_format,
      of "take 10 spin_sample_log" 0 "[Print 0 (Time_at 0 42), Quiet, Quiet]" "[]"]
    by (simp add: spin_sample_log_def)
  moreover have "si_fault ?s = None" "times_of ?s = recorded spin_sample_log" "si_out ?s = prints spin_sample_log"
    by (rule p [THEN conjunct2, THEN conjunct2, THEN conjunct2, THEN conjunct1], rule p [THEN conjunct2, THEN conjunct1],
      rule p [THEN conjunct2, THEN conjunct2, THEN conjunct1])
  moreover have "recorded spin_sample_log = [42]" "prints spin_sample_log = [(0, Time_at 0 42)]"
    by (simp_all add: spin_sample_log_def)
  ultimately show ?thesis using l by metis
qed

end
