(* ===== verification/Deferred_Work.thy ===== *)
theory Deferred_Work
  imports Kernel
begin

text \<open>
  lab11: work put off by interrupt handlers and threads: the tasklet (ex1), the kernel
  thread (ex2) and the work queue (ex3), whose steps under concurrency are in Work_Threads.
  Shown: the work-queue module runs and frees every
  piece of work exactly once and leaves none behind when it is unloaded, while the tasklet
  module, which kills the tasklet before it gives the interrupt back, can leave one
  scheduled.
\<close>

definition SWITCH17 :: int where "SWITCH17 = 17"

text \<open>Both interrupt modules register the same way.\<close>

definition request_switch :: "kernel \<Rightarrow> int \<times> kcall list" where
  "request_switch k =
     (let irq = ret_gpio_to_irq k SWITCH17; ret = ret_request_irq k irq;
          tr = [Gpio_request_in SWITCH17 (ret_gpio_request k SWITCH17), Gpio_to_irq SWITCH17 irq, Request_irq irq ret]
      in (irq, if ret \<noteq> 0 then tr @ [Free_irq irq] else tr))"

subsection \<open>ex1: the tasklet\<close>

record tasklet_mod =
  tl_irq :: int
  tl_date :: "int \<times> int \<times> int"
  tl_scheduled :: bool

definition simple_tasklet_func :: "tasklet_mod \<Rightarrow> (int \<times> int \<times> int) \<times> tasklet_mod" where
  "simple_tasklet_func s = (tl_date s, s\<lparr>tl_scheduled := False\<rparr>)"

definition simple_tasklet_isr :: "tasklet_mod \<Rightarrow> tasklet_mod" where
  "simple_tasklet_isr s = s\<lparr>tl_scheduled := True\<rparr>"

definition simple_tasklet_init :: "kernel \<Rightarrow> tasklet_mod \<Rightarrow> int \<times> tasklet_mod \<times> kcall list" where
  "simple_tasklet_init k s =
     (let (irq, tr) = request_switch k
      in (0, s\<lparr>tl_date := (2026, 5, 27), tl_scheduled := False, tl_irq := irq\<rparr>, tr))"

text \<open>Unloading; tasklet_kill waits for a scheduled tasklet, an interrupt may follow.\<close>

definition simple_tasklet_exit :: "bool \<Rightarrow> tasklet_mod \<Rightarrow> tasklet_mod \<times> kcall list" where
  "simple_tasklet_exit irq s =
     (let s1 = s\<lparr>tl_scheduled := False\<rparr>; s2 = (if irq then simple_tasklet_isr s1 else s1)
      in (s2, [Free_irq (tl_irq s2), Gpio_free SWITCH17]))"

lemma tasklet_left_scheduled: "tl_scheduled (fst (simple_tasklet_exit irq s)) = irq"
  by (simp add: simple_tasklet_exit_def simple_tasklet_isr_def Let_def)

subsection \<open>ex2: the kernel thread\<close>

text \<open>
  The loop over what kthread_should_stop and jiffies read each second: the values printed
  when it returned, None while it runs.
\<close>

fun simple_kthread_func :: "(bool \<times> int) list \<Rightarrow> (int \<times> int list) option" where
  "simple_kthread_func [] = None"
| "simple_kthread_func ((stop, jiffies) # rest) =
     (if stop then Some (0, []) else map_option (\<lambda>(r, out). (r, jiffies # out)) (simple_kthread_func rest))"

text \<open>\<open>created\<close> is the thread, None when kthread_create returned an error pointer.\<close>

definition simple_kthread_init :: "nat option \<Rightarrow> (int \<times> nat option) result" where
  "simple_kthread_init created =
     (case created of None \<Rightarrow> Inl Null_deref | Some t \<Rightarrow> Inr (0, Some t))"

definition simple_kthread_exit :: "nat option \<Rightarrow> nat list" where
  "simple_kthread_exit my_kthread = (case my_kthread of None \<Rightarrow> [] | Some t \<Rightarrow> [t])"

lemma kthread_returns:
  "(\<exists>out. simple_kthread_func xs = Some (0, out)) \<longleftrightarrow> True \<in> fst ` set xs"
proof (induction xs)
  case (Cons a xs)
  then show ?case by (cases a) (auto simp: image_iff)
qed simp

subsection \<open>ex3: the work queue\<close>

record wq_mod =
  my_wq :: bool \<comment> \<open>the pointer is not null\<close>
  wq_irq :: int
  wq_alloc :: "nat set" \<comment> \<open>the allocated pieces of work\<close>
  wq_queue :: "nat list" \<comment> \<open>those queued and not run\<close>
  wq_printed :: "(int \<times> int \<times> int) list"

text \<open>The work function: it prints the date and frees its own piece of work.\<close>

definition my_work_func :: "nat \<Rightarrow> wq_mod \<Rightarrow> wq_mod result" where
  "my_work_func work s =
     (let s1 = s\<lparr>wq_printed := wq_printed s @ [(2026, 5, 27)]\<rparr> in
      if work \<in> wq_alloc s1 then Inr (s1\<lparr>wq_alloc := wq_alloc s1 - {work}\<rparr>) else Inl Double_free)"

text \<open>The handler; \<open>p\<close> is what kmalloc returns.\<close>

definition simple_workqueue_isr :: "nat option \<Rightarrow> wq_mod \<Rightarrow> wq_mod" where
  "simple_workqueue_isr p s =
     (if my_wq s then
        (case p of None \<Rightarrow> s
         | Some work \<Rightarrow> s\<lparr>wq_alloc := insert work (wq_alloc s), wq_queue := wq_queue s @ [work]\<rparr>)
      else s)"

definition simple_workqueue_init :: "kernel \<Rightarrow> bool \<Rightarrow> wq_mod \<Rightarrow> int \<times> wq_mod \<times> kcall list" where
  "simple_workqueue_init k created s =
     (let (irq, tr) = request_switch k in (0, s\<lparr>my_wq := created, wq_irq := irq\<rparr>, tr))"

text \<open>flush_workqueue runs everything queued, in order.\<close>

fun flush_workqueue :: "nat list \<Rightarrow> wq_mod \<Rightarrow> wq_mod result" where
  "flush_workqueue [] s = Inr (s\<lparr>wq_queue := []\<rparr>)"
| "flush_workqueue (w # ws) s = bindr (my_work_func w (s\<lparr>wq_queue := ws\<rparr>)) (flush_workqueue ws)"

definition simple_workqueue_exit :: "wq_mod \<Rightarrow> (wq_mod \<times> kcall list) result" where
  "simple_workqueue_exit s =
     (if \<not> my_wq s then Inl Null_deref
      else bindr (flush_workqueue (wq_queue s) s) (\<lambda>s1.
        Inr (s1, [Free_irq (wq_irq s), Gpio_free SWITCH17])))"

text \<open>While loaded: interrupts, and the worker taking the first piece of work.\<close>

datatype wq_event =
    Interrupt "nat option"
  | Worker

fun wq_run :: "wq_event list \<Rightarrow> wq_mod \<Rightarrow> wq_mod result" where
  "wq_run [] s = Inr s"
| "wq_run (Interrupt p # es) s = wq_run es (simple_workqueue_isr p s)"
| "wq_run (Worker # es) s =
     (case wq_queue s of
        [] \<Rightarrow> wq_run es s
      | w # ws \<Rightarrow> bindr (my_work_func w (s\<lparr>wq_queue := ws\<rparr>)) (wq_run es))"

text \<open>kmalloc returns nothing that is still allocated.\<close>

fun wq_fresh :: "wq_event list \<Rightarrow> wq_mod \<Rightarrow> bool" where
  "wq_fresh [] s = True"
| "wq_fresh (Interrupt p # es) s = ((\<forall>w. p = Some w \<longrightarrow> w \<notin> wq_alloc s) \<and> wq_fresh es (simple_workqueue_isr p s))"
| "wq_fresh (Worker # es) s =
     (case wq_queue s of
        [] \<Rightarrow> wq_fresh es s
      | w # ws \<Rightarrow> (case my_work_func w (s\<lparr>wq_queue := ws\<rparr>) of Inl e \<Rightarrow> True | Inr s1 \<Rightarrow> wq_fresh es s1))"

fun queued :: "wq_event list \<Rightarrow> nat" where
  "queued [] = 0"
| "queued (Interrupt p # es) = (if p = None then 0 else 1) + queued es"
| "queued (Worker # es) = queued es"

definition wq_inv :: "wq_mod \<Rightarrow> bool" where
  "wq_inv s \<longleftrightarrow> my_wq s \<and> distinct (wq_queue s) \<and> wq_alloc s = set (wq_queue s)"

lemma wq_work:
  assumes "wq_inv s" and "wq_queue s = w # ws"
  shows "\<exists>s1. my_work_func w (s\<lparr>wq_queue := ws\<rparr>) = Inr s1 \<and> wq_inv s1 \<and> wq_queue s1 = ws \<and>
    wq_printed s1 = wq_printed s @ [(2026, 5, 27)]"
  using assms by (auto simp: my_work_func_def wq_inv_def)

lemma wq_flush:
  "wq_inv s \<Longrightarrow> wq_queue s = ws \<Longrightarrow>
    \<exists>s1. flush_workqueue ws s = Inr s1 \<and> wq_inv s1 \<and> wq_queue s1 = [] \<and>
      wq_printed s1 = wq_printed s @ replicate (length ws) (2026, 5, 27)"
proof (induction ws arbitrary: s)
  case Nil
  then show ?case by (simp add: wq_inv_def)
next
  case (Cons w ws)
  obtain s1 where s1: "my_work_func w (s\<lparr>wq_queue := ws\<rparr>) = Inr s1" "wq_inv s1" "wq_queue s1 = ws"
      "wq_printed s1 = wq_printed s @ [(2026, 5, 27)]"
    using wq_work [OF Cons.prems] by blast
  then show ?case using Cons.IH [OF s1(2,3)] by auto
qed

lemma wq_run_inv:
  "wq_inv s \<Longrightarrow> wq_fresh es s \<Longrightarrow>
    \<exists>s1. wq_run es s = Inr s1 \<and> wq_inv s1 \<and>
      length (wq_printed s1) + length (wq_queue s1) = length (wq_printed s) + length (wq_queue s) + queued es \<and>
      (set (wq_printed s) \<subseteq> {(2026, 5, 27)} \<longrightarrow> set (wq_printed s1) \<subseteq> {(2026, 5, 27)})"
proof (induction es arbitrary: s)
  case Nil
  then show ?case by simp
next
  case (Cons e es)
  show ?case
  proof (cases e)
    case (Interrupt p)
    then have "wq_inv (simple_workqueue_isr p s)"
      using Cons.prems by (auto simp: simple_workqueue_isr_def wq_inv_def split: option.splits)
    moreover have "wq_printed (simple_workqueue_isr p s) = wq_printed s"
        "length (wq_queue (simple_workqueue_isr p s)) = length (wq_queue s) + (if p = None then 0 else 1)"
      using Cons.prems(1) by (auto simp: simple_workqueue_isr_def wq_inv_def split: option.splits)
    ultimately show ?thesis
      using Cons.IH [of "simple_workqueue_isr p s"] Cons.prems(2) Interrupt by auto
  next
    case Worker
    show ?thesis
    proof (cases "wq_queue s")
      case Nil
      then show ?thesis using Cons.IH [of s] Cons.prems Worker by simp
    next
      case (Cons w ws)
      obtain s1 where s1: "my_work_func w (s\<lparr>wq_queue := ws\<rparr>) = Inr s1" "wq_inv s1" "wq_queue s1 = ws"
          "wq_printed s1 = wq_printed s @ [(2026, 5, 27)]"
        using wq_work [OF Cons.prems(1) Cons] by blast
      then show ?thesis
        using Cons.IH [of s1] Cons.prems Worker Cons by auto
    qed
  qed
qed

subsection \<open>Properties\<close>

text \<open>
  The work-queue module loses no work and frees none twice: after any interrupts, with
  or without memory for them, and any progress of the worker, no run faults, and unloading
  runs what is still queued, so that in the end the date was printed once for every
  interrupt that got memory and nothing is left allocated or queued.
\<close>

lemma workqueue_drains:
  assumes "simple_workqueue_init k True s = (r, s1, tr)"
    and "wq_alloc s = {}" and "wq_queue s = []" and "wq_printed s = []" and "wq_fresh es s1"
  shows "\<exists>s2 s3 tr'. wq_run es s1 = Inr s2 \<and> simple_workqueue_exit s2 = Inr (s3, tr') \<and>
    wq_alloc s3 = {} \<and> wq_queue s3 = [] \<and> wq_printed s3 = replicate (queued es) (2026, 5, 27)"
proof -
  have s1: "wq_inv s1" "wq_printed s1 = []" "wq_queue s1 = []"
    using assms(1-4) by (auto simp: simple_workqueue_init_def wq_inv_def split: prod.splits)
  obtain s2 where s2: "wq_run es s1 = Inr s2" "wq_inv s2"
      "length (wq_printed s2) + length (wq_queue s2) = queued es" "set (wq_printed s2) \<subseteq> {(2026, 5, 27)}"
    using wq_run_inv [OF s1(1) assms(5)] s1(2,3) by auto
  obtain s3 where s3: "flush_workqueue (wq_queue s2) s2 = Inr s3" "wq_inv s3" "wq_queue s3 = []"
      "wq_printed s3 = wq_printed s2 @ replicate (length (wq_queue s2)) (2026, 5, 27)"
    using wq_flush [OF s2(2) refl] by blast
  have "wq_printed s2 = replicate (length (wq_printed s2)) (2026, 5, 27)"
    using s2(4) by (intro replicate_eqI) auto
  then have "wq_printed s3 = replicate (queued es) (2026, 5, 27)"
    using s3(4) s2(3) by (metis replicate_add)
  then show ?thesis
    using s2 s3 by (auto simp: simple_workqueue_exit_def wq_inv_def)
qed

lemma workqueue_drains_example:
  "\<exists>s1 tr s2 s3 tr'. simple_workqueue_init all_ok True
       \<lparr>my_wq = False, wq_irq = 0, wq_alloc = {}, wq_queue = [], wq_printed = []\<rparr> = (0, s1, tr) \<and>
     wq_run [Interrupt (Some 4), Interrupt None, Interrupt (Some 6), Worker, Interrupt (Some 4)] s1 = Inr s2 \<and>
     simple_workqueue_exit s2 = Inr (s3, tr') \<and> wq_alloc s3 = {} \<and> length (wq_printed s3) = 3"
proof -
  obtain s1 tr where i: "simple_workqueue_init all_ok True
      \<lparr>my_wq = False, wq_irq = 0, wq_alloc = {}, wq_queue = [], wq_printed = []\<rparr> = (0, s1, tr)"
    and q: "my_wq s1" "wq_alloc s1 = {}" "wq_queue s1 = []"
    by (auto simp: simple_workqueue_init_def request_switch_def all_ok_def Let_def)
  have "wq_fresh [Interrupt (Some 4), Interrupt None, Interrupt (Some 6), Worker, Interrupt (Some 4)] s1"
    using q by (simp add: simple_workqueue_isr_def my_work_func_def)
  then show ?thesis
    using workqueue_drains [OF i] i by fastforce
qed

end
