(* ===== verification/Work_Threads.thy ===== *)
theory Work_Threads
  imports Deferred_Work Simulation Locking Holding "HOL-Library.Multiset"
begin

text \<open>
  lab11/ex3 (simple_workqueue.c) with the interrupt handler, any number of workers and the
  unload running side by side, one step per access to shared data, the pieces of work
  checked and the global pointer \<open>work\<close> explicit. The kernel runs the handler of a line one
  at a time, free_irq waits for it, flush_workqueue for all work queued. A load whose
  create_workqueue failed succeeds all the same. Shown, for every interleaving: with a work
  queue no fault, each piece of work queued is run exactly once, and once the module is
  unloaded nothing is left allocated, queued or running; the unload is never stuck. Without
  one nothing is ever queued and the unload faults.
\<close>

subsection \<open>Contexts and steps\<close>

type_synonym date = "int \<times> int \<times> int"

datatype wq_pc =
    Outside
  | I_test
  | I_alloc
  | I_check "nat option" \<comment> \<open>ghost: what kmalloc returned; the handler reads \<open>work\<close>\<close>
  | I_init "nat option"
  | I_queue "nat option"
  | K_start nat \<comment> \<open>a worker, with its piece of work\<close>
  | K_sleep nat
  | K_date nat
  | K_print nat
  | K_free nat
  | X_free_irq
  | X_sync \<comment> \<open>in free_irq, waiting for a running handler\<close>
  | X_flush
  | X_destroy
  | Unloaded

record wq_threads =
  wt_wq :: bool \<comment> \<open>\<open>my_wq\<close> is not null\<close>
  wt_alive :: bool \<comment> \<open>the work queue is not destroyed\<close>
  wt_line :: bool \<comment> \<open>the handler is registered\<close>
  wt_leaving :: bool \<comment> \<open>the unload has begun\<close>
  wt_work :: "nat option" \<comment> \<open>the global pointer\<close>
  wt_item :: "nat \<rightharpoonup> bool \<times> date" \<comment> \<open>the allocated pieces of work: initialised, and the data\<close>
  wt_queue :: "nat list"
  wt_pc :: "nat \<Rightarrow> wq_pc"
  wt_fault :: "fault option"
  wt_out :: "date list"

definition wt_goto :: "wq_threads \<Rightarrow> nat \<Rightarrow> wq_pc \<Rightarrow> wq_threads" where
  "wt_goto s i x = s\<lparr>wt_pc := (wt_pc s)(i := x)\<rparr>"

fun in_handler :: "wq_pc \<Rightarrow> bool" where
  "in_handler I_test = True"
| "in_handler I_alloc = True"
| "in_handler (I_check p) = True"
| "in_handler (I_init p) = True"
| "in_handler (I_queue p) = True"
| "in_handler _ = False"

fun in_work :: "wq_pc \<Rightarrow> bool" where
  "in_work (K_start w) = True"
| "in_work (K_sleep w) = True"
| "in_work (K_date w) = True"
| "in_work (K_print w) = True"
| "in_work (K_free w) = True"
| "in_work _ = False"

text \<open>The start: a load, which returns 0 whether or not create_workqueue succeeded.\<close>

definition wt_start :: "wq_threads \<Rightarrow> bool" where
  "wt_start s \<longleftrightarrow>
     (\<exists>k created s0 s1 tr. simple_workqueue_init k created s0 = (0, s1, tr) \<and> wt_wq s = my_wq s1 \<and>
        wt_line s = (ret_request_irq k (wq_irq s1) = 0)) \<and>
     wt_alive s \<and> \<not> wt_leaving s \<and> wt_item s = Map.empty \<and> wt_queue s = [] \<and> wt_pc s = (\<lambda>_. Outside) \<and>
     wt_fault s = None \<and> wt_out s = []"

inductive wq_step :: "nat \<Rightarrow> wq_threads \<Rightarrow> wq_threads \<Rightarrow> bool" for i :: nat where
  irq: "wt_pc s i = Outside \<Longrightarrow> wt_line s \<Longrightarrow> \<forall>j. \<not> in_handler (wt_pc s j) \<Longrightarrow> wq_step i s (wt_goto s i I_test)"
| test: "wt_pc s i = I_test \<Longrightarrow> wt_wq s \<Longrightarrow> wq_step i s (wt_goto s i I_alloc)"
| test_null: "wt_pc s i = I_test \<Longrightarrow> \<not> wt_wq s \<Longrightarrow> wq_step i s (wt_goto s i Outside)"
| kmalloc: "wt_pc s i = I_alloc \<Longrightarrow> n \<notin> dom (wt_item s) \<Longrightarrow>
    wq_step i s ((wt_goto s i (I_check (Some n)))\<lparr>wt_work := Some n, wt_item := (wt_item s)(n \<mapsto> (False, junk))\<rparr>)"
| kmalloc_null: "wt_pc s i = I_alloc \<Longrightarrow> wq_step i s ((wt_goto s i (I_check None))\<lparr>wt_work := None\<rparr>)"
| check: "wt_pc s i = I_check p \<Longrightarrow> wt_work s \<noteq> None \<Longrightarrow> wq_step i s (wt_goto s i (I_init p))"
| check_null: "wt_pc s i = I_check p \<Longrightarrow> wt_work s = None \<Longrightarrow> wq_step i s (wt_goto s i Outside)"
| init_work: "wt_pc s i = I_init p \<Longrightarrow> wt_work s = Some n \<Longrightarrow> wt_item s n = Some (b, d) \<Longrightarrow>
    wq_step i s ((wt_goto s i (I_queue p))\<lparr>wt_item := (wt_item s)(n \<mapsto> (True, d))\<rparr>)"
| queue_work: "wt_pc s i = I_queue p \<Longrightarrow> wt_work s = Some n \<Longrightarrow> n \<in> dom (wt_item s) \<Longrightarrow> wt_alive s \<Longrightarrow>
    wq_step i s ((wt_goto s i Outside)\<lparr>wt_queue := wt_queue s @ [n]\<rparr>)"
| work_null: "wt_pc s i = I_init p \<or> wt_pc s i = I_queue p \<Longrightarrow> wt_work s = None \<Longrightarrow>
    wq_step i s (s\<lparr>wt_fault := Some Null_deref\<rparr>)"
| work_gone: "wt_pc s i = I_init p \<or> wt_pc s i = I_queue p \<Longrightarrow> wt_work s = Some n \<Longrightarrow> n \<notin> dom (wt_item s) \<Longrightarrow>
    wq_step i s (s\<lparr>wt_fault := Some Use_after_free\<rparr>)"
| queue_gone: "wt_pc s i = I_queue p \<Longrightarrow> \<not> wt_alive s \<Longrightarrow> wq_step i s (s\<lparr>wt_fault := Some Use_after_free\<rparr>)"
| take: "wt_pc s i = Outside \<Longrightarrow> wt_alive s \<Longrightarrow> w \<in> set (wt_queue s) \<Longrightarrow>
    wq_step i s ((wt_goto s i (K_start w))\<lparr>wt_queue := remove1 w (wt_queue s)\<rparr>)"
| start: "wt_pc s i = K_start w \<Longrightarrow> wt_item s w = Some (True, d) \<Longrightarrow> wq_step i s (wt_goto s i (K_sleep w))"
| start_fault: "wt_pc s i = K_start w \<Longrightarrow> \<forall>d. wt_item s w \<noteq> Some (True, d) \<Longrightarrow>
    wq_step i s (s\<lparr>wt_fault := Some Use_after_free\<rparr>)"
| msleep: "wt_pc s i = K_sleep w \<Longrightarrow> wq_step i s (wt_goto s i (K_date w))"
| set_date: "wt_pc s i = K_date w \<Longrightarrow> wt_item s w = Some (b, d) \<Longrightarrow>
    wq_step i s ((wt_goto s i (K_print w))\<lparr>wt_item := (wt_item s)(w \<mapsto> (b, (2026, 5, 27)))\<rparr>)"
| print: "wt_pc s i = K_print w \<Longrightarrow> wt_item s w = Some (b, d) \<Longrightarrow>
    wq_step i s ((wt_goto s i (K_free w))\<lparr>wt_out := wt_out s @ [d]\<rparr>)"
| item_gone: "wt_pc s i = K_date w \<or> wt_pc s i = K_print w \<Longrightarrow> wt_item s w = None \<Longrightarrow>
    wq_step i s (s\<lparr>wt_fault := Some Use_after_free\<rparr>)"
| kfree: "wt_pc s i = K_free w \<Longrightarrow> w \<in> dom (wt_item s) \<Longrightarrow>
    wq_step i s ((wt_goto s i Outside)\<lparr>wt_item := (wt_item s)(w := None)\<rparr>)"
| kfree_fault: "wt_pc s i = K_free w \<Longrightarrow> w \<notin> dom (wt_item s) \<Longrightarrow> wq_step i s (s\<lparr>wt_fault := Some Double_free\<rparr>)"
| unload: "wt_pc s i = Outside \<Longrightarrow> \<not> wt_leaving s \<Longrightarrow> wq_step i s ((wt_goto s i X_free_irq)\<lparr>wt_leaving := True\<rparr>)"
| free_irq: "wt_pc s i = X_free_irq \<Longrightarrow> wq_step i s ((wt_goto s i X_sync)\<lparr>wt_line := False\<rparr>)"
| irq_over: "wt_pc s i = X_sync \<Longrightarrow> \<forall>j. \<not> in_handler (wt_pc s j) \<Longrightarrow> wq_step i s (wt_goto s i X_flush)"
| flush: "wt_pc s i = X_flush \<Longrightarrow> wt_wq s \<Longrightarrow> wt_queue s = [] \<Longrightarrow> \<forall>j. \<not> in_work (wt_pc s j) \<Longrightarrow>
    wq_step i s (wt_goto s i X_destroy)"
| flush_null: "wt_pc s i = X_flush \<Longrightarrow> \<not> wt_wq s \<Longrightarrow> wq_step i s (s\<lparr>wt_fault := Some Null_deref\<rparr>)"
| destroy: "wt_pc s i = X_destroy \<Longrightarrow> wq_step i s ((wt_goto s i Unloaded)\<lparr>wt_alive := False\<rparr>)"

inductive_cases wq_stepE: "wq_step i s t"

text \<open>A load that got its work queue.\<close>

definition wt_with_queue :: "wq_threads \<Rightarrow> bool" where
  "wt_with_queue s \<longleftrightarrow> wt_start s \<and> wt_wq s"

lemma wt_startD:
  assumes "wt_start s"
  shows "wt_alive s" "\<not> wt_leaving s" "wt_item s = Map.empty" "wt_queue s = []" "wt_pc s = (\<lambda>_. Outside)"
    "wt_fault s = None" "wt_out s = []"
  using assms by (simp_all add: wt_start_def)

lemma wt_goto_simps [simp]:
  "wt_wq (wt_goto s i x) = wt_wq s" "wt_alive (wt_goto s i x) = wt_alive s" "wt_line (wt_goto s i x) = wt_line s"
  "wt_leaving (wt_goto s i x) = wt_leaving s" "wt_work (wt_goto s i x) = wt_work s" "wt_item (wt_goto s i x) = wt_item s"
  "wt_queue (wt_goto s i x) = wt_queue s" "wt_pc (wt_goto s i x) = (wt_pc s)(i := x)"
  "wt_fault (wt_goto s i x) = wt_fault s" "wt_out (wt_goto s i x) = wt_out s"
  by (simp_all add: wt_goto_def)

subsection \<open>The invariant\<close>

fun work_of :: "wq_pc \<Rightarrow> nat option" where
  "work_of (I_check p) = p"
| "work_of (I_init p) = p"
| "work_of (I_queue p) = p"
| "work_of (K_start w) = Some w"
| "work_of (K_sleep w) = Some w"
| "work_of (K_date w) = Some w"
| "work_of (K_print w) = Some w"
| "work_of (K_free w) = Some w"
| "work_of _ = None"

text \<open>How far the unload has come.\<close>

fun phase :: "wq_pc \<Rightarrow> nat" where
  "phase X_free_irq = 1"
| "phase X_sync = 2"
| "phase X_flush = 3"
| "phase X_destroy = 4"
| "phase Unloaded = 5"
| "phase _ = 0"

text \<open>What holds for a context alone.\<close>

fun item_ok :: "nat option \<Rightarrow> (nat \<rightharpoonup> bool \<times> date) \<Rightarrow> wq_pc \<Rightarrow> bool" where
  "item_ok work item (I_check p) = (work = p)"
| "item_ok work item (I_init p) = (work = p \<and> p \<noteq> None)"
| "item_ok work item (I_queue p) = (work = p \<and> (\<exists>n d. p = Some n \<and> item n = Some (True, d)))"
| "item_ok work item (K_start w) = (\<exists>d. item w = Some (True, d))"
| "item_ok work item (K_print w) = (\<exists>b. item w = Some (b, (2026, 5, 27)))"
| "item_ok work item _ = True"

definition phase_ok :: "wq_threads \<Rightarrow> nat \<Rightarrow> bool" where
  "phase_ok s n \<longleftrightarrow>
     (2 \<le> n \<longrightarrow> \<not> wt_line s) \<and> (3 \<le> n \<longrightarrow> (\<forall>j. \<not> in_handler (wt_pc s j))) \<and>
     (4 \<le> n \<longrightarrow> wt_queue s = [] \<and> (\<forall>j. \<not> in_work (wt_pc s j)))"

definition wt_inv :: "wq_threads \<Rightarrow> bool" where
  "wt_inv s \<longleftrightarrow> wt_fault s = None \<and> wt_wq s \<and> exclusive in_handler (wt_pc s) \<and>
     owned work_of (dom (wt_item s)) (wt_queue s) (wt_pc s) \<and>
     (\<forall>w \<in> set (wt_queue s). \<exists>d. wt_item s w = Some (True, d)) \<and>
     (\<forall>i. item_ok (wt_work s) (wt_item s) (wt_pc s i)) \<and>
     (\<forall>i. phase_ok s (phase (wt_pc s i))) \<and> wt_alive s = (\<forall>i. phase (wt_pc s i) \<noteq> 5)"

lemma wt_inv_simps:
  assumes "wt_inv s"
  shows "wt_fault s = None" "wt_wq s" "exclusive in_handler (wt_pc s)" "owned work_of (dom (wt_item s)) (wt_queue s) (wt_pc s)"
    "w \<in> set (wt_queue s) \<Longrightarrow> \<exists>d. wt_item s w = Some (True, d)" "item_ok (wt_work s) (wt_item s) (wt_pc s i)"
    "phase_ok s (phase (wt_pc s i))" "wt_alive s = (\<forall>i. phase (wt_pc s i) \<noteq> 5)"
  using assms by (simp_all add: wt_inv_def)

lemma item_ok_other:
  "item_ok work item x \<Longrightarrow> (in_handler x \<Longrightarrow> work' = work) \<Longrightarrow> (\<And>n. work_of x = Some n \<Longrightarrow> item' n = item n) \<Longrightarrow>
    item_ok work' item' x"
  by (cases x) auto

lemma phase_ok_early [simp]: "phase_ok s 0" "phase_ok s (Suc 0)"
  by (simp_all add: phase_ok_def)

lemma phase_ok_go:
  assumes "phase_ok s n" and "wt_line t \<longrightarrow> wt_line s" and "wt_pc t = (wt_pc s)(i := x)"
    and "in_handler x \<longrightarrow> in_handler (wt_pc s i) \<or> wt_line s" and "in_work x \<longrightarrow> in_work (wt_pc s i) \<or> wt_queue s \<noteq> []"
    and "wt_queue t \<noteq> [] \<longrightarrow> wt_queue s \<noteq> [] \<or> in_handler (wt_pc s i)"
  shows "phase_ok t n"
  using assms unfolding phase_ok_def by auto

text \<open>A step of context \<open>i\<close> to \<open>x\<close>, and what it has to keep.\<close>

lemma wt_inv_go:
  assumes "wt_inv s" and "wt_pc t = (wt_pc s)(i := x)"
    and "wt_fault t = None" and "wt_wq t" and "wt_alive t = wt_alive s" and "phase (wt_pc s i) \<noteq> 5 \<and> phase x \<noteq> 5"
    and "exclusive in_handler ((wt_pc s)(i := x))" and "owned work_of (dom (wt_item t)) (wt_queue t) ((wt_pc s)(i := x))"
    and "\<And>w. w \<in> set (wt_queue t) \<Longrightarrow> \<exists>d. wt_item t w = Some (True, d)"
    and "item_ok (wt_work t) (wt_item t) x" and "\<And>j. j \<noteq> i \<Longrightarrow> item_ok (wt_work t) (wt_item t) (wt_pc s j)"
    and "wt_line t \<longrightarrow> wt_line s" and "in_handler x \<longrightarrow> in_handler (wt_pc s i) \<or> wt_line s"
    and "in_work x \<longrightarrow> in_work (wt_pc s i) \<or> wt_queue s \<noteq> []"
    and "wt_queue t \<noteq> [] \<longrightarrow> wt_queue s \<noteq> [] \<or> in_handler (wt_pc s i)" and "phase_ok t (phase x)"
  shows "wt_inv t"
proof -
  have "item_ok (wt_work t) (wt_item t) (wt_pc t j)" for j using assms(2,10,11) by (cases "j = i") simp_all
  moreover have "phase_ok t (phase (wt_pc t j))" for j
    using phase_ok_go [OF wt_inv_simps(7) [OF assms(1), of j] assms(12,2,13-15)] assms(2,16) by (cases "j = i") simp_all
  moreover have "wt_alive t = (\<forall>j. phase (wt_pc t j) \<noteq> 5)"
    using wt_inv_simps(8) [OF assms(1)] assms(2,5,6) by (auto split: if_splits)
  ultimately show ?thesis unfolding wt_inv_def using assms(3,4,9) assms(7,8) [folded assms(2)] by blast
qed

text \<open>Steps that change nothing but the program counter, the line, the flag or what is printed.\<close>

lemma wt_inv_pc:
  assumes "wt_inv s" and "wt_pc t = (wt_pc s)(i := x)"
    and "wt_fault t = wt_fault s \<and> wt_wq t = wt_wq s \<and> wt_alive t = wt_alive s \<and> wt_item t = wt_item s \<and>
      wt_queue t = wt_queue s \<and> wt_work t = wt_work s"
    and "phase (wt_pc s i) \<noteq> 5 \<and> phase x \<noteq> 5" and "in_work x \<longrightarrow> in_work (wt_pc s i)"
    and "in_handler x \<longrightarrow> in_handler (wt_pc s i) \<or> wt_line s \<and> (\<forall>j. \<not> in_handler (wt_pc s j))"
    and "work_of x = work_of (wt_pc s i)" and "item_ok (wt_work s) (wt_item s) x"
    and "wt_line t \<longrightarrow> wt_line s" and "phase_ok t (phase x)"
  shows "wt_inv t"
proof (rule wt_inv_go [OF assms(1,2)])
  show "exclusive in_handler ((wt_pc s)(i := x))" 
  proof (cases "in_handler x \<longrightarrow> in_handler (wt_pc s i)")
    case True
    with wt_inv_simps(3) [OF assms(1)] show ?thesis by (rule exclusive_go)
  next
    case False
    then show ?thesis using assms(6) by (intro exclusive_enter) blast
  qed
  show "owned work_of (dom (wt_item t)) (wt_queue t) ((wt_pc s)(i := x))"
    using wt_inv_simps(4) [OF assms(1)] assms(3,7) by (simp add: owned_go)
qed (use assms wt_inv_simps(1,2,5,6) [OF assms(1)] in auto)

lemma other_item:
  assumes "wt_inv s" and "work_of (wt_pc s i) = Some n" and "j \<noteq> i"
  shows "work_of (wt_pc s j) \<noteq> Some n"
  using wt_inv_simps(4) [OF assms(1)] assms(2,3) by (auto simp: owned_def uniq_def)

text \<open>Steps of the holder of a piece of work on it.\<close>

lemma wt_inv_item:
  assumes "wt_inv s" and "work_of (wt_pc s i) = Some n" and "work_of x = Some n"
    and "wt_item s n = Some y" and "item_ok (wt_work s) ((wt_item s)(n \<mapsto> z)) x"
    and "in_handler x = in_handler (wt_pc s i)" and "in_work x = in_work (wt_pc s i)"
    and "phase (wt_pc s i) = 0" and "phase x = 0"
  shows "wt_inv ((wt_goto s i x)\<lparr>wt_item := (wt_item s)(n \<mapsto> z)\<rparr>)"
proof (rule wt_inv_go [where s = s and i = i and x = x])
  note o = wt_inv_simps(4) [OF assms(1)]
  have "dom ((wt_item s)(n \<mapsto> z)) = dom (wt_item s)" using assms(4) by auto
  then show "owned work_of (dom (wt_item ((wt_goto s i x)\<lparr>wt_item := (wt_item s)(n \<mapsto> z)\<rparr>)))
      (wt_queue ((wt_goto s i x)\<lparr>wt_item := (wt_item s)(n \<mapsto> z)\<rparr>)) ((wt_pc s)(i := x))"
    using owned_go [OF o, of x i] assms(2,3) by simp
  show "exclusive in_handler ((wt_pc s)(i := x))" using wt_inv_simps(3) [OF assms(1)] assms(6) by (simp add: exclusive_go)
  have "n \<notin> set (wt_queue s)" using owned_simps(4) [OF o assms(2)] .
  then show "w \<in> set (wt_queue ((wt_goto s i x)\<lparr>wt_item := (wt_item s)(n \<mapsto> z)\<rparr>)) \<Longrightarrow>
      \<exists>d. wt_item ((wt_goto s i x)\<lparr>wt_item := (wt_item s)(n \<mapsto> z)\<rparr>) w = Some (True, d)" for w
    using wt_inv_simps(5) [OF assms(1), of w] by auto
  show "item_ok (wt_work ((wt_goto s i x)\<lparr>wt_item := (wt_item s)(n \<mapsto> z)\<rparr>))
      (wt_item ((wt_goto s i x)\<lparr>wt_item := (wt_item s)(n \<mapsto> z)\<rparr>)) (wt_pc s j)" if "j \<noteq> i" for j
    using other_item [OF assms(1,2) that] by (auto intro: item_ok_other [OF wt_inv_simps(6) [OF assms(1)]])
qed (use assms wt_inv_simps(1,2) [OF assms(1)] in simp_all)

lemma wt_no_fault:
  assumes "wt_inv s"
  shows "wt_pc s i = I_init p \<Longrightarrow> \<exists>n b d. p = Some n \<and> wt_work s = Some n \<and> wt_item s n = Some (b, d)"
    and "wt_pc s i = I_queue p \<Longrightarrow> \<exists>n d. p = Some n \<and> wt_work s = Some n \<and> wt_item s n = Some (True, d) \<and> wt_alive s"
    and "wt_pc s i = K_start w \<Longrightarrow> \<exists>d. wt_item s w = Some (True, d)"
    and "work_of (wt_pc s i) = Some w \<Longrightarrow> w \<in> dom (wt_item s)"
proof -
  note ok = wt_inv_simps(6) [OF assms, of i]
  note o = owned_simps(3) [OF wt_inv_simps(4) [OF assms], of i]
  show "\<exists>n b d. p = Some n \<and> wt_work s = Some n \<and> wt_item s n = Some (b, d)" if "wt_pc s i = I_init p"
    using ok o that by (cases p) force+
  show "\<exists>n d. p = Some n \<and> wt_work s = Some n \<and> wt_item s n = Some (True, d) \<and> wt_alive s" if q: "wt_pc s i = I_queue p"
  proof -
    have "wt_alive s"
    proof (rule ccontr)
      assume "\<not> wt_alive s"
      then obtain j where "phase (wt_pc s j) = 5" using wt_inv_simps(8) [OF assms] by blast
      then have "\<not> in_handler (wt_pc s i)" using wt_inv_simps(7) [OF assms, of j] by (simp add: phase_ok_def)
      then show False using q by simp
    qed
    then show ?thesis using ok q by auto
  qed
  show "\<exists>d. wt_item s w = Some (True, d)" if "wt_pc s i = K_start w" using ok that by simp
  show "w \<in> dom (wt_item s)" if "work_of (wt_pc s i) = Some w" using o that by simp
qed

lemma handler_alone: "wt_inv s \<Longrightarrow> in_handler (wt_pc s i) \<Longrightarrow> j \<noteq> i \<Longrightarrow> \<not> in_handler (wt_pc s j)"
  by (rule exclusive_alone [OF wt_inv_simps(3)])

lemma wt_inv_step: "wq_step i s t \<Longrightarrow> wt_inv s \<Longrightarrow> wt_inv t"
proof (induction rule: wq_step.induct)
  case (irq s)
  show ?case by (rule wt_inv_pc [of s _ i I_test]) (use irq in auto)
next
  case (kmalloc s n junk)
  note inv = kmalloc(3)
  note o = wt_inv_simps(4) [OF inv]
  let ?t = "(wt_goto s i (I_check (Some n)))\<lparr>wt_work := Some n, wt_item := (wt_item s)(n \<mapsto> (False, junk))\<rparr>"
  show ?case
  proof (rule wt_inv_go [OF inv, of ?t i "I_check (Some n)"])
    show "owned work_of (dom (wt_item ?t)) (wt_queue ?t) ((wt_pc s)(i := I_check (Some n)))"
      using owned_alloc [OF o kmalloc(2), of i "I_check (Some n)"] kmalloc(1) by simp
    show "exclusive in_handler ((wt_pc s)(i := I_check (Some n)))"
      using wt_inv_simps(3) [OF inv] kmalloc(1) by (intro exclusive_go) simp_all
    show "w \<in> set (wt_queue ?t) \<Longrightarrow> \<exists>d. wt_item ?t w = Some (True, d)" for w
      using owned_simps(5) [OF o, of w] wt_inv_simps(5) [OF inv, of w] kmalloc(2) by auto
    show "item_ok (wt_work ?t) (wt_item ?t) (wt_pc s j)" if "j \<noteq> i" for j
    proof (rule item_ok_other [OF wt_inv_simps(6) [OF inv]])
      show "wt_work ?t = wt_work s" if "in_handler (wt_pc s j)"
        using handler_alone [OF inv, of i j] kmalloc(1) that \<open>j \<noteq> i\<close> by simp
      show "wt_item ?t m = wt_item s m" if "work_of (wt_pc s j) = Some m" for m
        using owned_simps(3) [OF o that] kmalloc(2) by auto
    qed
  qed (use kmalloc wt_inv_simps(1,2) [OF inv] in simp_all)
next
  case (kmalloc_null s)
  note inv = kmalloc_null(2)
  let ?t = "(wt_goto s i (I_check None))\<lparr>wt_work := None\<rparr>"
  show ?case
  proof (rule wt_inv_go [OF inv, of ?t i "I_check None"])
    show "owned work_of (dom (wt_item ?t)) (wt_queue ?t) ((wt_pc s)(i := I_check None))"
      using owned_go [OF wt_inv_simps(4) [OF inv], of "I_check None" i] kmalloc_null(1) by simp
    show "exclusive in_handler ((wt_pc s)(i := I_check None))"
      using wt_inv_simps(3) [OF inv] kmalloc_null(1) by (intro exclusive_go) simp_all
    show "item_ok (wt_work ?t) (wt_item ?t) (wt_pc s j)" if "j \<noteq> i" for j
      by (rule item_ok_other [OF wt_inv_simps(6) [OF inv]])
        (use handler_alone [OF inv, of i j] kmalloc_null(1) that in simp_all)
  qed (use kmalloc_null wt_inv_simps(1,2,5) [OF inv] in simp_all)
next
  case (check s p)
  show ?case by (rule wt_inv_pc [of s _ i "I_init p"]) (use check wt_inv_simps(6) [OF check(3), of i] in auto)
next
  case (check_null s p)
  show ?case by (rule wt_inv_pc [of s _ i Outside]) (use check_null wt_inv_simps(6) [OF check_null(3), of i] in auto)
next
  case (init_work s p n b d)
  then have "p = Some n" using wt_no_fault(1) [OF init_work(4), of i p] by auto
  show ?case by (cases d, rule wt_inv_item [where y = "(b, d)"]) (use init_work \<open>p = Some n\<close> in auto)
next
  case (queue_work s p n)
  note inv = queue_work(5)
  obtain d where "p = Some n" "wt_item s n = Some (True, d)" using wt_no_fault(2) [OF inv queue_work(1)] queue_work(2) by auto
  let ?t = "(wt_goto s i Outside)\<lparr>wt_queue := wt_queue s @ [n]\<rparr>"
  show ?case
  proof (rule wt_inv_go [OF inv, of ?t i Outside])
    show "owned work_of (dom (wt_item ?t)) (wt_queue ?t) ((wt_pc s)(i := Outside))"
      using owned_put [OF wt_inv_simps(4) [OF inv], of i n Outside] queue_work(1) \<open>p = Some n\<close> by simp
    show "exclusive in_handler ((wt_pc s)(i := Outside))" using wt_inv_simps(3) [OF inv] by (intro exclusive_go) simp_all
    show "w \<in> set (wt_queue ?t) \<Longrightarrow> \<exists>d. wt_item ?t w = Some (True, d)" for w
      using wt_inv_simps(5) [OF inv, of w] \<open>wt_item s n = Some (True, d)\<close> by (cases d) auto
  qed (use queue_work wt_inv_simps(1,2,6) [OF inv] in simp_all)
next
  case (work_null s p)
  then show ?case using wt_no_fault(1,2) [OF work_null(3), of i p] by auto
next
  case (work_gone s p n)
  then show ?case using wt_no_fault(1,2) [OF work_gone(4), of i p] by auto
next
  case (queue_gone s p)
  then show ?case using wt_no_fault(2) [OF queue_gone(3), of i p] by auto
next
  case (take s w)
  note inv = take(4)
  note o = wt_inv_simps(4) [OF inv]
  let ?t = "(wt_goto s i (K_start w))\<lparr>wt_queue := remove1 w (wt_queue s)\<rparr>"
  show ?case
  proof (rule wt_inv_go [OF inv, of ?t i "K_start w"])
    show "owned work_of (dom (wt_item ?t)) (wt_queue ?t) ((wt_pc s)(i := K_start w))"
      using owned_take [OF o take(3), of i "K_start w"] take(1) by simp
    show "exclusive in_handler ((wt_pc s)(i := K_start w))" using wt_inv_simps(3) [OF inv] by (intro exclusive_go) simp_all
    show "v \<in> set (wt_queue ?t) \<Longrightarrow> \<exists>d. wt_item ?t v = Some (True, d)" for v
      using wt_inv_simps(5) [OF inv, of v] notin_set_remove1 by fastforce
    show "wt_queue ?t \<noteq> [] \<longrightarrow> wt_queue s \<noteq> [] \<or> in_handler (wt_pc s i)" using take(3) by auto
    show "in_work (K_start w) \<longrightarrow> in_work (wt_pc s i) \<or> wt_queue s \<noteq> []" using take(3) by auto
  qed (use take wt_inv_simps(1,2,5,6) [OF inv] in simp_all)
next
  case (start s w d)
  show ?case by (rule wt_inv_pc [of s _ i "K_sleep w"]) (use start in auto)
next
  case (start_fault s w)
  then show ?case using wt_no_fault(3) [OF start_fault(3), of i w] by auto
next
  case (set_date s w b d)
  show ?case by (rule wt_inv_item [where y = "(b, d)"]) (use set_date in auto)
next
  case (print s w b d)
  show ?case by (rule wt_inv_pc [of s _ i "K_free w"]) (use print in auto)
next
  case (item_gone s w)
  then show ?case using wt_no_fault(4) [OF item_gone(3), of i w] by auto
next
  case (kfree s w)
  note inv = kfree(3)
  note o = wt_inv_simps(4) [OF inv]
  have w: "w \<notin> set (wt_queue s)" using owned_simps(4) [OF o, of i w] kfree(1) by simp
  let ?t = "(wt_goto s i Outside)\<lparr>wt_item := (wt_item s)(w := None)\<rparr>"
  show ?case
  proof (rule wt_inv_go [OF inv, of ?t i Outside])
    show "owned work_of (dom (wt_item ?t)) (wt_queue ?t) ((wt_pc s)(i := Outside))"
      using owned_free [OF o, of i w Outside] kfree(1) by simp
    show "exclusive in_handler ((wt_pc s)(i := Outside))" using wt_inv_simps(3) [OF inv] by (intro exclusive_go) simp_all
    show "v \<in> set (wt_queue ?t) \<Longrightarrow> \<exists>d. wt_item ?t v = Some (True, d)" for v
      using wt_inv_simps(5) [OF inv, of v] w by (cases "v = w") simp_all
    show "item_ok (wt_work ?t) (wt_item ?t) (wt_pc s j)" if "j \<noteq> i" for j
    proof (rule item_ok_other [OF wt_inv_simps(6) [OF inv]])
      show "wt_item ?t m = wt_item s m" if "work_of (wt_pc s j) = Some m" for m
        using other_item [OF inv _ \<open>j \<noteq> i\<close>, of w] kfree(1) that by (cases "m = w") simp_all
    qed simp
  qed (use kfree wt_inv_simps(1,2) [OF inv] in simp_all)
next
  case (kfree_fault s w)
  then show ?case using wt_no_fault(4) [OF kfree_fault(3), of i w] by auto
next
  case (flush_null s)
  then show ?case using wt_inv_simps(2) by blast
next
  case (destroy s)
  note inv = destroy(2)
  have "phase_ok s 4" using wt_inv_simps(7) [OF inv, of i] destroy(1) by simp
  then have "phase_ok ((wt_goto s i Unloaded)\<lparr>wt_alive := False\<rparr>) 5"
    using destroy(1) by (auto simp: phase_ok_def)
  moreover have "phase_ok ((wt_goto s i Unloaded)\<lparr>wt_alive := False\<rparr>) (phase (wt_pc s j))" for j
    by (rule phase_ok_go [OF wt_inv_simps(7) [OF inv], where i = i and x = Unloaded]) (use destroy(1) in simp_all)
  ultimately show ?case
    using inv destroy(1) unfolding wt_inv_def by (auto intro!: exclusive_go owned_go)
next
  case (irq_over s)
  have "phase_ok s 2" using wt_inv_simps(7) [OF irq_over(3), of i] irq_over(1) by simp
  then show ?case by - (rule wt_inv_pc [of s _ i X_flush]; use irq_over in \<open>auto simp: phase_ok_def\<close>)
next
  case (flush s)
  have "phase_ok s 3" using wt_inv_simps(7) [OF flush(5), of i] flush(1) by simp
  then show ?case by - (rule wt_inv_pc [of s _ i X_destroy]; use flush in \<open>auto simp: phase_ok_def\<close>)
next
  case (free_irq s)
  show ?case by (rule wt_inv_pc [of s _ i X_sync]) (use free_irq in \<open>auto simp: phase_ok_def\<close>)
next
  case (test s)
  show ?case by (rule wt_inv_pc [of s _ i I_alloc]) (use test in auto)
next
  case (test_null s)
  show ?case by (rule wt_inv_pc [of s _ i Outside]) (use test_null in auto)
next
  case (msleep s w)
  show ?case by (rule wt_inv_pc [of s _ i "K_date w"]) (use msleep in auto)
next
  case (unload s)
  show ?case by (rule wt_inv_pc [of s _ i X_free_irq]) (use unload in auto)
qed

lemma wt_inv_start: "wt_with_queue s \<Longrightarrow> wt_inv s"
  using wt_startD [of s] by (auto simp: wt_with_queue_def wt_inv_def exclusive_def intro!: owned_start)

subsection \<open>Work to do\<close>

text \<open>
  The specification: a set of work accepted and not run yet. Running takes a piece out of
  it, and the module may be gone only when it is empty.
\<close>

datatype wq_event =
    Quiet
  | Accept nat
  | Run nat date
  | Gone

record wq_spec =
  pending :: "nat set"
  closed :: bool

definition wq_none :: wq_spec where
  "wq_none = \<lparr>pending = {}, closed = False\<rparr>"

fun wq_next :: "wq_event \<Rightarrow> wq_spec \<Rightarrow> wq_spec option" where
  "wq_next Quiet a = Some a"
| "wq_next (Accept w) a = (if closed a \<or> w \<in> pending a then None else Some (a\<lparr>pending := insert w (pending a)\<rparr>))"
| "wq_next (Run w d) a = (if w \<in> pending a \<and> d = (2026, 5, 27) then Some (a\<lparr>pending := pending a - {w}\<rparr>) else None)"
| "wq_next Gone a = (if pending a = {} then Some (a\<lparr>closed := True\<rparr>) else None)"

fun accepts :: "wq_event list \<Rightarrow> nat list" where
  "accepts [] = []"
| "accepts (Accept w # es) = w # accepts es"
| "accepts (e # es) = accepts es"

fun runs :: "wq_event list \<Rightarrow> (nat \<times> date) list" where
  "runs [] = []"
| "runs (Run w d # es) = (w, d) # runs es"
| "runs (e # es) = runs es"

lemma runs_append [simp]: "runs (es @ fs) = runs es @ runs fs"
  by (induction es rule: runs.induct) auto

text \<open>In its histories each piece accepted is run once, or still pending.\<close>

lemma wq_balance:
  "spec_run wq_next es a = Some a' \<Longrightarrow> finite (pending a) \<Longrightarrow>
    finite (pending a') \<and>
    mset (accepts es) + mset_set (pending a) = mset (map fst (runs es)) + mset_set (pending a') \<and>
    (\<forall>r \<in> set (runs es). snd r = (2026, 5, 27))"
proof (induction es arbitrary: a)
  case (Cons e es)
  then obtain b where b: "wq_next e a = Some b" "spec_run wq_next es b = Some a'" by (auto split: option.splits)
  then have "finite (pending b)" using Cons.prems(2) by (cases e) (auto split: if_splits)
  from Cons.IH [OF b(2) this] b(1) Cons.prems(2) show ?case
    by (cases e) (auto simp: mset_set.remove split: if_splits)
qed simp

lemma wq_closed:
  "spec_run wq_next es a = Some a' \<Longrightarrow> Gone \<in> set es \<or> closed a \<and> pending a = {} \<Longrightarrow> closed a' \<and> pending a' = {}"
proof (induction es arbitrary: a)
  case (Cons e es)
  then obtain b where b: "wq_next e a = Some b" "spec_run wq_next es b = Some a'" by (auto split: option.splits)
  then have "Gone \<in> set es \<or> closed b \<and> pending b = {}"
    using Cons.prems(2) by (cases e) (auto split: if_splits)
  then show ?case by (rule Cons.IH [OF b(2)])
qed simp

subsection \<open>The module is that set\<close>

fun unrun :: "wq_pc \<Rightarrow> nat option" where
  "unrun (K_start w) = Some w"
| "unrun (K_sleep w) = Some w"
| "unrun (K_date w) = Some w"
| "unrun (K_print w) = Some w"
| "unrun _ = None"

definition to_run :: "wq_threads \<Rightarrow> nat set" where
  "to_run s = set (wt_queue s) \<union> held unrun (wt_pc s)"

definition wq_event_of :: "nat \<Rightarrow> wq_threads \<Rightarrow> wq_threads \<Rightarrow> wq_event" where
  "wq_event_of i s t =
     (case wt_pc s i of
        I_queue p \<Rightarrow> if wt_pc t i = Outside then Accept (the (wt_work s)) else Quiet
      | K_print w \<Rightarrow> if wt_pc t i = K_free w then Run w (snd (the (wt_item s w))) else Quiet
      | X_destroy \<Rightarrow> if wt_pc t i = Unloaded then Gone else Quiet
      | _ \<Rightarrow> Quiet)"

definition wq_emits :: "wq_event \<Rightarrow> wq_threads \<Rightarrow> wq_threads \<Rightarrow> bool" where
  "wq_emits e s t \<longleftrightarrow> (\<exists>i. wq_step i s t \<and> e = wq_event_of i s t)"

definition wt_rel :: "wq_threads \<Rightarrow> wq_spec \<Rightarrow> bool" where
  "wt_rel s a \<longleftrightarrow> wt_inv s \<and> pending a = to_run s \<and> closed a = (\<not> wt_alive s)"

lemma unrun_work: "unrun x = Some w \<Longrightarrow> work_of x = Some w"
  by (cases x) auto

lemma uniq_unrun: "uniq work_of pcs \<Longrightarrow> uniq unrun pcs"
  unfolding uniq_def using unrun_work by blast

lemma to_run_upd:
  assumes "wt_inv s" and "wt_pc t = (wt_pc s)(i := x)"
  shows "to_run t = set (wt_queue t) \<union> (set_option (unrun x) \<union> (held unrun (wt_pc s) - set_option (unrun (wt_pc s i))))"
  using held_upd [OF uniq_unrun, of "wt_pc s" i x] wt_inv_simps(4) [OF assms(1)] assms(2)
  by (simp add: to_run_def owned_def)

lemma queued_not_held: "wt_inv s \<Longrightarrow> w \<in> set (wt_queue s) \<Longrightarrow> w \<notin> held unrun (wt_pc s)"
  using wt_inv_simps(4) [of s] unrun_work by (fastforce simp: owned_def held_def)

lemma wq_quiet:
  assumes "wt_rel s a" and "wt_inv t" and "wt_alive t = wt_alive s" and "to_run t = to_run s"
  shows "\<exists>a'. wq_next Quiet a = Some a' \<and> wt_rel t a'"
  using assms by (simp add: wt_rel_def)

lemma wq_simulates:
  assumes "wq_emits e s t" and "wt_rel s a"
  shows "\<exists>a'. wq_next e a = Some a' \<and> wt_rel t a'"
proof -
  obtain i where i: "wq_step i s t" and e: "e = wq_event_of i s t" using assms(1) by (auto simp: wq_emits_def)
  have inv: "wt_inv s" using assms(2) by (simp add: wt_rel_def)
  have inv': "wt_inv t" by (rule wt_inv_step [OF i inv])
  have quiet: "\<exists>a'. wq_next e a = Some a' \<and> wt_rel t a'"
    if "e = Quiet" "wt_alive t = wt_alive s" "wt_pc t = (wt_pc s)(i := x)" "wt_queue t = wt_queue s" "unrun x = unrun (wt_pc s i)" for x
  proof -
    have "to_run t = to_run s" using that(3-5) by (simp add: to_run_def held_same)
    then show ?thesis using wq_quiet [OF assms(2) inv'] that(1,2) by simp
  qed
  show ?thesis
    using i
  proof cases
    case (queue_work p n)
    note o = wt_inv_simps(4) [OF inv]
    have p: "p = Some n" using wt_no_fault(2) [OF inv queue_work(2)] queue_work(3) by auto
    have "n \<notin> set (wt_queue s)" using owned_simps(4) [OF o, of i n] queue_work(2) p by simp
    moreover have "n \<notin> held unrun (wt_pc s)"
    proof
      assume "n \<in> held unrun (wt_pc s)"
      then obtain j where j: "unrun (wt_pc s j) = Some n" by (auto simp: held_def)
      then have "j = i" using other_item [OF inv, of i n j] queue_work(2) p unrun_work [OF j] by auto
      then show False using j queue_work(2) by simp
    qed
    ultimately have "n \<notin> to_run s" by (simp add: to_run_def)
    moreover have "to_run t = insert n (to_run s)"
      using to_run_upd [OF inv, of t i Outside] queue_work by (auto simp: to_run_def)
    moreover have "e = Accept n" using e queue_work by (simp add: wq_event_of_def)
    ultimately show ?thesis using assms(2) inv' queue_work by (auto simp: wt_rel_def)
  next
    case (take w)
    have "to_run t = to_run s"
      using to_run_upd [OF inv, of t i "K_start w"] take owned_simps(1) [OF wt_inv_simps(4) [OF inv]]
      by (auto simp: to_run_def)
    moreover have "e = Quiet" using e take by (simp add: wq_event_of_def)
    ultimately show ?thesis using wq_quiet [OF assms(2) inv'] take by simp
  next
    case (print w b d)
    have w: "w \<in> held unrun (wt_pc s)" using held_I [of unrun "wt_pc s" i w] print by simp
    then have "w \<notin> set (wt_queue s)" using queued_not_held [OF inv] by blast
    then have "to_run t = to_run s - {w}" using to_run_upd [OF inv, of t i "K_free w"] print by (auto simp: to_run_def)
    moreover have "e = Run w (2026, 5, 27)" using e print wt_inv_simps(6) [OF inv, of i] by (simp add: wq_event_of_def)
    ultimately show ?thesis using assms(2) inv' print w by (simp add: wt_rel_def to_run_def)
  next
    case destroy
    have "phase_ok s 4" using wt_inv_simps(7) [OF inv, of i] destroy by simp
    then have "wt_queue s = []" "\<forall>j. \<not> in_work (wt_pc s j)" by (simp_all add: phase_ok_def)
    moreover have "unrun x = Some w \<Longrightarrow> in_work x" for x w by (cases x) auto
    ultimately have "to_run s = {}" by (auto simp: to_run_def held_def)
    moreover from this have "to_run t = {}" using to_run_upd [OF inv, of t i Unloaded] destroy by (auto simp: to_run_def)
    moreover have "e = Gone" using e destroy by (simp add: wq_event_of_def)
    ultimately show ?thesis using assms(2) inv' destroy by (simp add: wt_rel_def)
  next
    case (work_null p)
    then show ?thesis using wt_inv_simps(1) [OF inv'] by simp
  next
    case (work_gone p n)
    then show ?thesis using wt_inv_simps(1) [OF inv'] by simp
  next
    case (queue_gone p)
    then show ?thesis using wt_inv_simps(1) [OF inv'] by simp
  next
    case (start_fault w)
    then show ?thesis using wt_inv_simps(1) [OF inv'] by simp
  next
    case (item_gone w)
    then show ?thesis using wt_inv_simps(1) [OF inv'] by simp
  next
    case (kfree_fault w)
    then show ?thesis using wt_inv_simps(1) [OF inv'] by simp
  next
    case flush_null
    then show ?thesis using wt_inv_simps(1) [OF inv'] by simp
  qed (rule quiet [of "wt_pc t i"]; simp add: e wq_event_of_def; fail)+
qed

interpretation wq_work: forward_simulation wq_next wq_none wt_with_queue wq_emits wt_rel
proof
  fix s
  assume s: "wt_with_queue s"
  then have "to_run s = {}" by (simp add: to_run_def wt_with_queue_def wt_start_def held_def)
  then show "wt_rel s wq_none"
    using s wt_inv_start [OF s] by (simp add: wt_rel_def wq_none_def wt_with_queue_def wt_start_def)
qed (rule wq_simulates)

lemma wq_prints: "labelled wt_with_queue wq_emits es s \<Longrightarrow> map snd (runs es) = wt_out s"
proof (induction rule: labelled.induct)
  case (lab_start s)
  then show ?case by (simp add: wt_with_queue_def wt_start_def)
next
  case (lab_step es s e t)
  then obtain i where i: "wq_step i s t" "e = wq_event_of i s t" by (auto simp: wq_emits_def)
  from i(1) have "wt_out s @ map snd (runs [e]) = wt_out t" by cases (auto simp: i(2) wq_event_of_def)
  then show ?case using lab_step.IH by simp
qed

subsection \<open>The unload ends\<close>

text \<open>
  An unload under way is never stuck: what it waits for, a handler or a piece of work, can
  go on, and every such step uses up some of the work there is.
\<close>

fun wq_rank :: "wq_pc \<Rightarrow> nat" where
  "wq_rank I_test = 14"
| "wq_rank I_alloc = 13"
| "wq_rank (I_check p) = 12"
| "wq_rank (I_init p) = 11"
| "wq_rank (I_queue p) = 10"
| "wq_rank (K_start w) = 5"
| "wq_rank (K_sleep w) = 4"
| "wq_rank (K_date w) = 3"
| "wq_rank (K_print w) = 2"
| "wq_rank (K_free w) = 1"
| "wq_rank X_free_irq = 4"
| "wq_rank X_sync = 3"
| "wq_rank X_flush = 2"
| "wq_rank X_destroy = 1"
| "wq_rank _ = 0"

definition wq_left :: "wq_threads \<Rightarrow> nat" where
  "wq_left s = 6 * length (wt_queue s) + (\<Sum>i \<in> {i. wt_pc s i \<noteq> Outside}. wq_rank (wt_pc s i))"

definition wt_live :: "wq_threads \<Rightarrow> bool" where
  "wt_live s \<longleftrightarrow> wt_inv s \<and> finite {i. wt_pc s i \<noteq> Outside}"

text \<open>The steps after which no interrupt comes.\<close>

definition wq_drains :: "wq_threads \<Rightarrow> wq_threads \<Rightarrow> bool" where
  "wq_drains s t \<longleftrightarrow> \<not> wt_line s \<and> wt_leaving s \<and> (\<exists>i. wq_step i s t)"

lemma wq_active_finite: "wq_step i s t \<Longrightarrow> finite {j. wt_pc s j \<noteq> Outside} \<Longrightarrow> finite {j. wt_pc t j \<noteq> Outside}"
proof -
  assume "wq_step i s t" and f: "finite {j. wt_pc s j \<noteq> Outside}"
  then have "\<And>j. j \<noteq> i \<Longrightarrow> wt_pc t j = wt_pc s j" by cases auto
  then have "{j. wt_pc t j \<noteq> Outside} \<subseteq> insert i {j. wt_pc s j \<noteq> Outside}" by auto
  then show ?thesis using f by (meson finite_insert finite_subset)
qed

lemma rank_sum:
  assumes "finite {i. wt_pc s i \<noteq> Outside}" and "\<And>j. j \<noteq> i \<Longrightarrow> wt_pc t j = wt_pc s j"
  shows "(\<Sum>j \<in> {j. wt_pc t j \<noteq> Outside}. wq_rank (wt_pc t j)) + wq_rank (wt_pc s i) =
    (\<Sum>j \<in> {j. wt_pc s j \<noteq> Outside}. wq_rank (wt_pc s j)) + wq_rank (wt_pc t i)"
proof -
  let ?A = "insert i {j. wt_pc s j \<noteq> Outside}"
  have A: "finite ?A" "i \<in> ?A" using assms(1) by simp_all
  have "(\<Sum>j \<in> {j. wt_pc t j \<noteq> Outside}. wq_rank (wt_pc t j)) = (\<Sum>j \<in> ?A. wq_rank (wt_pc t j))"
    using A(1) assms(2) by (intro sum.mono_neutral_left) auto
  moreover have "(\<Sum>j \<in> {j. wt_pc s j \<noteq> Outside}. wq_rank (wt_pc s j)) = (\<Sum>j \<in> ?A. wq_rank (wt_pc s j))"
    using A(1) by (intro sum.mono_neutral_left) auto
  moreover have "(\<Sum>j \<in> ?A - {i}. wq_rank (wt_pc t j)) = (\<Sum>j \<in> ?A - {i}. wq_rank (wt_pc s j))"
    using assms(2) by (intro sum.cong) auto
  ultimately show ?thesis
    using sum.remove [OF A, of "\<lambda>j. wq_rank (wt_pc t j)"] sum.remove [OF A, of "\<lambda>j. wq_rank (wt_pc s j)"] by simp
qed

lemma wq_drains_less:
  assumes "wq_drains s t" and "wt_live s"
  shows "wq_left t < wq_left s \<and> wt_live t \<and> \<not> wt_line t \<and> wt_leaving t"
proof -
  obtain i where i: "wq_step i s t" "\<not> wt_line s" "wt_leaving s" using assms(1) by (auto simp: wq_drains_def)
  have inv: "wt_inv s" "finite {i. wt_pc s i \<noteq> Outside}" using assms(2) by (simp_all add: wt_live_def)
  have inv': "wt_inv t" by (rule wt_inv_step [OF i(1) inv(1)])
  have same: "\<And>j. j \<noteq> i \<Longrightarrow> wt_pc t j = wt_pc s j" using i(1) by cases auto
  note sum = rank_sum [OF inv(2), where i = i and t = t, OF same]
  have len: "w \<in> set (wt_queue s) \<Longrightarrow> Suc (length (remove1 w (wt_queue s))) = length (wt_queue s)" for w
    by (simp add: length_remove1) (metis length_pos_if_in_set Suc_pred)
  have "6 * length (wt_queue t) + wq_rank (wt_pc t i) < 6 * length (wt_queue s) + wq_rank (wt_pc s i)"
    using i(1)
  proof cases
    case (take w)
    then show ?thesis using len [of w] by simp
  qed (use i(2,3) wt_inv_simps(1) [OF inv'] in simp_all)
  then have "wq_left t < wq_left s" using sum by (simp add: wq_left_def)
  moreover have "\<not> wt_line t \<and> wt_leaving t" using i by cases auto
  ultimately show ?thesis using inv' wq_active_finite [OF i(1) inv(2)] by (simp add: wt_live_def)
qed

lemma wq_runs_out:
  assumes "(wq_drains ^^ m) s t" and "wt_live s" and "\<not> wt_line s" and "wt_leaving s"
  shows "m + wq_left t \<le> wq_left s \<and> wt_live t \<and> \<not> wt_line t \<and> wt_leaving t"
  using assms(1)
proof (induction m arbitrary: t)
  case (Suc m)
  then obtain u where u: "(wq_drains ^^ m) s u" "wq_drains u t" by auto
  then show ?case using Suc.IH [OF u(1)] wq_drains_less [OF u(2)] by auto
qed (use assms in auto)

lemma wq_unload_moves:
  assumes "wt_live s" and "\<not> wt_line s" and "wt_leaving s" and "wt_alive s" and "0 < phase (wt_pc s u)"
  shows "\<exists>t. wq_drains s t"
proof -
  have inv: "wt_inv s" "finite {i. wt_pc s i \<noteq> Outside}" using assms(1) by (simp_all add: wt_live_def)
  have "\<exists>i t. wq_step i s t"
  proof (cases "\<exists>j. in_handler (wt_pc s j)")
    case True
    then obtain j where j: "in_handler (wt_pc s j)" by blast
    then show ?thesis
    proof (cases "wt_pc s j")
      case I_test
      then show ?thesis using test wt_inv_simps(2) [OF inv(1)] by blast
    next
      case I_alloc
      then show ?thesis using kmalloc_null by blast
    next
      case (I_check p)
      then show ?thesis using check check_null by blast
    next
      case (I_init p)
      obtain n b d where "wt_work s = Some n" "wt_item s n = Some (b, d)" using wt_no_fault(1) [OF inv(1) I_init] by blast
      then show ?thesis using init_work [OF I_init] by blast
    next
      case (I_queue p)
      obtain n d where "wt_work s = Some n" "wt_item s n = Some (True, d)" using wt_no_fault(2) [OF inv(1) I_queue] by blast
      then show ?thesis using queue_work [OF I_queue, of n] assms(4) by blast
    qed simp_all
  next
    case idle: False
    show ?thesis
    proof (cases "\<exists>j. in_work (wt_pc s j)")
      case True
      then obtain j where j: "in_work (wt_pc s j)" by blast
      then show ?thesis
      proof (cases "wt_pc s j")
        case (K_start w)
        then show ?thesis using wt_no_fault(3) [OF inv(1) K_start] start [OF K_start] by blast
      next
        case (K_sleep w)
        then show ?thesis using msleep by blast
      next
        case (K_date w)
        then show ?thesis using set_date [OF K_date] item_gone [of s j w] by (cases "wt_item s w") (blast | metis surj_pair)+
      next
        case (K_print w)
        then show ?thesis using print [OF K_print] item_gone [of s j w] by (cases "wt_item s w") (blast | metis surj_pair)+
      next
        case (K_free w)
        then show ?thesis using kfree [OF K_free] kfree_fault [OF K_free] by blast
      qed simp_all
    next
      case no_work: False
      obtain k where k: "wt_pc s k = Outside" using ex_new_if_finite [OF infinite_UNIV_nat inv(2)] by blast
      show ?thesis
      proof (cases "wt_queue s")
        case (Cons w ws)
        then have "w \<in> set (wt_queue s)" by simp
        then show ?thesis using take [OF k assms(4)] by blast
      next
        case Nil
        show ?thesis
        proof (cases "wt_pc s u")
          case Unloaded
          then show ?thesis using wt_inv_simps(8) [OF inv(1)] assms(4) by (metis phase.simps(5))
        qed (use assms(5) idle no_work Nil wt_inv_simps(2) [OF inv(1)] free_irq irq_over flush destroy in \<open>(simp; fail) | blast\<close>)+
      qed
    qed
  qed
  then show ?thesis using assms(2,3) by (auto simp: wq_drains_def)
qed

lemma wq_labelled_live: "labelled wt_with_queue wq_emits es s \<Longrightarrow> wt_live s"
proof (induction rule: labelled.induct)
  case (lab_start s)
  then have "wt_inv s" "wt_start s" using wt_inv_start by (auto simp: wt_with_queue_def)
  then show ?case using wt_startD [of s] by (simp add: wt_live_def)
next
  case (lab_step es s e t)
  then show ?case using wt_inv_step wq_active_finite by (auto simp: wt_live_def wq_emits_def)
qed

text \<open>
  From free_irq on the module makes at most \<open>wq_left\<close> steps more, and it can make one as
  long as the work queue is not destroyed: flush_workqueue and the unload return.
\<close>

lemma workqueue_unload_ends:
  assumes "labelled wt_with_queue wq_emits es s" and "\<not> wt_line s" and "wt_leaving s" and "(wq_drains ^^ m) s t"
  shows "m \<le> wq_left s \<and> (wt_alive t \<and> (\<exists>u. 0 < phase (wt_pc t u)) \<longrightarrow> (\<exists>t'. wq_drains t t'))"
  using wq_runs_out [OF assms(4) wq_labelled_live [OF assms(1)] assms(2,3)] wq_unload_moves [of t] by auto

subsection \<open>A sample run\<close>

lemma wq_log_step:
  "labelled wt_start wq_emits es s \<Longrightarrow> wq_step i s t \<Longrightarrow> es' = es @ [wq_event_of i s t] \<Longrightarrow> labelled wt_start wq_emits es' t"
  by (simp, rule lab_step) (auto simp: wq_emits_def)

definition wt_two ::
  "bool \<Rightarrow> bool \<Rightarrow> bool \<Rightarrow> nat option \<Rightarrow> (nat \<rightharpoonup> bool \<times> date) \<Rightarrow> nat list \<Rightarrow> wq_pc \<Rightarrow> wq_pc \<Rightarrow> date list \<Rightarrow> wq_threads" where
  "wt_two al li le wk it q x y out =
     \<lparr>wt_wq = True, wt_alive = al, wt_line = li, wt_leaving = le, wt_work = wk, wt_item = it, wt_queue = q,
      wt_pc = (\<lambda>_. Outside)(0 := x, 1 := y), wt_fault = None, wt_out = out\<rparr>"

lemma wt_two_simps [simp]:
  "wt_wq (wt_two al li le wk it q x y out)" "wt_alive (wt_two al li le wk it q x y out) = al"
  "wt_line (wt_two al li le wk it q x y out) = li" "wt_leaving (wt_two al li le wk it q x y out) = le"
  "wt_work (wt_two al li le wk it q x y out) = wk" "wt_item (wt_two al li le wk it q x y out) = it"
  "wt_queue (wt_two al li le wk it q x y out) = q" "wt_out (wt_two al li le wk it q x y out) = out"
  "wt_pc (wt_two al li le wk it q x y out) 0 = x" "wt_pc (wt_two al li le wk it q x y out) (Suc 0) = y"
  "wt_goto (wt_two al li le wk it q x y out) 0 z = wt_two al li le wk it q z y out"
  "wt_goto (wt_two al li le wk it q x y out) (Suc 0) z = wt_two al li le wk it q x z out"
  "(wt_two al li le wk it q x y out)\<lparr>wt_alive := al'\<rparr> = wt_two al' li le wk it q x y out"
  "(wt_two al li le wk it q x y out)\<lparr>wt_line := li'\<rparr> = wt_two al li' le wk it q x y out"
  "(wt_two al li le wk it q x y out)\<lparr>wt_leaving := le'\<rparr> = wt_two al li le' wk it q x y out"
  "(wt_two al li le wk it q x y out)\<lparr>wt_work := wk'\<rparr> = wt_two al li le wk' it q x y out"
  "(wt_two al li le wk it q x y out)\<lparr>wt_item := it'\<rparr> = wt_two al li le wk it' q x y out"
  "(wt_two al li le wk it q x y out)\<lparr>wt_queue := q'\<rparr> = wt_two al li le wk it q' x y out"
  "(wt_two al li le wk it q x y out)\<lparr>wt_out := out'\<rparr> = wt_two al li le wk it q x y out'"
  by (simp_all add: wt_two_def wt_goto_def fun_upd_twist)

lemma handler_two: "(\<forall>j. \<not> in_handler (wt_pc (wt_two al li le wk it q x y out) j)) \<longleftrightarrow> \<not> in_handler x \<and> \<not> in_handler y"
  by (auto simp: wt_two_def)

lemma work_two: "(\<forall>j. \<not> in_work (wt_pc (wt_two al li le wk it q x y out) j)) \<longleftrightarrow> \<not> in_work x \<and> \<not> in_work y"
  by (auto simp: wt_two_def)

definition wq_sample_log :: "wq_event list" where
  "wq_sample_log = [Quiet, Quiet, Quiet, Quiet, Quiet, Accept 5, Quiet, Quiet, Quiet, Quiet, Quiet, Quiet, Quiet, Run 5 (2026, 5, 27), Quiet, Quiet, Gone]"

text \<open>A piece of work is queued and taken, and the module is unloaded while it sleeps.\<close>

lemma wq_one_piece:
  "labelled wt_start wq_emits [Quiet, Quiet, Quiet, Quiet, Quiet, Accept 5, Quiet, Quiet, Quiet, Quiet, Quiet, Quiet, Quiet, Run 5 (2026, 5, 27), Quiet, Quiet, Gone]
    (wt_two False False True (Some 5) Map.empty [] Unloaded Outside [(2026, 5, 27)])"
proof -
  let ?R = "labelled wt_start wq_emits"
  let ?s = "\<lparr>my_wq = False, wq_irq = 0, wq_alloc = {}, wq_queue = [], wq_printed = []\<rparr>"
  obtain s1 tr where i: "simple_workqueue_init all_ok True ?s = (0, s1, tr)" "my_wq s1" "ret_request_irq all_ok (wq_irq s1) = 0"
    by (simp add: simple_workqueue_init_def request_switch_def all_ok_def Let_def)
  have "?R [] (wt_two True True False None Map.empty [] Outside Outside [])"
    by (rule lab_start) (use i in \<open>auto simp: wt_start_def wt_two_def intro!: exI\<close>)
  then have "?R [Quiet] (wt_two True True False None Map.empty [] I_test Outside [])"
    by (rule wq_log_step [where i = 0]) (use irq [of "wt_two True True False None Map.empty [] Outside Outside []" 0] in \<open>simp add: handler_two work_two\<close>, simp add: wq_event_of_def)
  then have "?R [Quiet, Quiet] (wt_two True True False None Map.empty [] I_alloc Outside [])"
    by (rule wq_log_step [where i = 0]) (use test [of "wt_two True True False None Map.empty [] I_test Outside []" 0] in \<open>simp add: handler_two work_two\<close>, simp add: wq_event_of_def)
  then have "?R [Quiet, Quiet, Quiet] (wt_two True True False (Some 5) [5 \<mapsto> (False, (0, 0, 0))] [] (I_check (Some 5)) Outside [])"
    by (rule wq_log_step [where i = 0]) (use kmalloc [of "wt_two True True False None Map.empty [] I_alloc Outside []" 0 5 "(0, 0, 0)"] in \<open>simp add: handler_two work_two\<close>, simp add: wq_event_of_def)
  then have "?R [Quiet, Quiet, Quiet, Quiet] (wt_two True True False (Some 5) [5 \<mapsto> (False, (0, 0, 0))] [] (I_init (Some 5)) Outside [])"
    by (rule wq_log_step [where i = 0]) (use check [of "wt_two True True False (Some 5) [5 \<mapsto> (False, (0, 0, 0))] [] (I_check (Some 5)) Outside []" 0 "Some 5"] in \<open>simp add: handler_two work_two\<close>, simp add: wq_event_of_def)
  then have "?R [Quiet, Quiet, Quiet, Quiet, Quiet] (wt_two True True False (Some 5) [5 \<mapsto> (True, (0, 0, 0))] [] (I_queue (Some 5)) Outside [])"
    by (rule wq_log_step [where i = 0]) (use init_work [of "wt_two True True False (Some 5) [5 \<mapsto> (False, (0, 0, 0))] [] (I_init (Some 5)) Outside []" 0 "Some 5" 5 False "(0, 0, 0)"] in \<open>simp add: handler_two work_two\<close>, simp add: wq_event_of_def)
  then have "?R [Quiet, Quiet, Quiet, Quiet, Quiet, Accept 5] (wt_two True True False (Some 5) [5 \<mapsto> (True, (0, 0, 0))] [5] Outside Outside [])"
    by (rule wq_log_step [where i = 0]) (use queue_work [of "wt_two True True False (Some 5) [5 \<mapsto> (True, (0, 0, 0))] [] (I_queue (Some 5)) Outside []" 0 "Some 5" 5] in \<open>simp add: handler_two work_two\<close>, simp add: wq_event_of_def)
  then have "?R [Quiet, Quiet, Quiet, Quiet, Quiet, Accept 5, Quiet] (wt_two True True False (Some 5) [5 \<mapsto> (True, (0, 0, 0))] [] Outside (K_start 5) [])"
    by (rule wq_log_step [where i = 1]) (use take [of "wt_two True True False (Some 5) [5 \<mapsto> (True, (0, 0, 0))] [5] Outside Outside []" 1 5] in \<open>simp add: handler_two work_two\<close>, simp add: wq_event_of_def)
  then have "?R [Quiet, Quiet, Quiet, Quiet, Quiet, Accept 5, Quiet, Quiet] (wt_two True True False (Some 5) [5 \<mapsto> (True, (0, 0, 0))] [] Outside (K_sleep 5) [])"
    by (rule wq_log_step [where i = 1]) (use start [of "wt_two True True False (Some 5) [5 \<mapsto> (True, (0, 0, 0))] [] Outside (K_start 5) []" 1 5 "(0, 0, 0)"] in \<open>simp add: handler_two work_two\<close>, simp add: wq_event_of_def)
  then have "?R [Quiet, Quiet, Quiet, Quiet, Quiet, Accept 5, Quiet, Quiet, Quiet] (wt_two True True True (Some 5) [5 \<mapsto> (True, (0, 0, 0))] [] X_free_irq (K_sleep 5) [])"
    by (rule wq_log_step [where i = 0]) (use unload [of "wt_two True True False (Some 5) [5 \<mapsto> (True, (0, 0, 0))] [] Outside (K_sleep 5) []" 0] in \<open>simp add: handler_two work_two\<close>, simp add: wq_event_of_def)
  then have "?R [Quiet, Quiet, Quiet, Quiet, Quiet, Accept 5, Quiet, Quiet, Quiet, Quiet] (wt_two True False True (Some 5) [5 \<mapsto> (True, (0, 0, 0))] [] X_sync (K_sleep 5) [])"
    by (rule wq_log_step [where i = 0]) (use free_irq [of "wt_two True True True (Some 5) [5 \<mapsto> (True, (0, 0, 0))] [] X_free_irq (K_sleep 5) []" 0] in \<open>simp add: handler_two work_two\<close>, simp add: wq_event_of_def)
  then have "?R [Quiet, Quiet, Quiet, Quiet, Quiet, Accept 5, Quiet, Quiet, Quiet, Quiet, Quiet] (wt_two True False True (Some 5) [5 \<mapsto> (True, (0, 0, 0))] [] X_sync (K_date 5) [])"
    by (rule wq_log_step [where i = 1]) (use msleep [of "wt_two True False True (Some 5) [5 \<mapsto> (True, (0, 0, 0))] [] X_sync (K_sleep 5) []" 1 5] in \<open>simp add: handler_two work_two\<close>, simp add: wq_event_of_def)
  then have "?R [Quiet, Quiet, Quiet, Quiet, Quiet, Accept 5, Quiet, Quiet, Quiet, Quiet, Quiet, Quiet] (wt_two True False True (Some 5) [5 \<mapsto> (True, (0, 0, 0))] [] X_flush (K_date 5) [])"
    by (rule wq_log_step [where i = 0]) (use irq_over [of "wt_two True False True (Some 5) [5 \<mapsto> (True, (0, 0, 0))] [] X_sync (K_date 5) []" 0] in \<open>simp add: handler_two work_two\<close>, simp add: wq_event_of_def)
  then have "?R [Quiet, Quiet, Quiet, Quiet, Quiet, Accept 5, Quiet, Quiet, Quiet, Quiet, Quiet, Quiet, Quiet] (wt_two True False True (Some 5) [5 \<mapsto> (True, (2026, 5, 27))] [] X_flush (K_print 5) [])"
    by (rule wq_log_step [where i = 1]) (use set_date [of "wt_two True False True (Some 5) [5 \<mapsto> (True, (0, 0, 0))] [] X_flush (K_date 5) []" 1 5 True "(0, 0, 0)"] in \<open>simp add: handler_two work_two\<close>, simp add: wq_event_of_def)
  then have "?R [Quiet, Quiet, Quiet, Quiet, Quiet, Accept 5, Quiet, Quiet, Quiet, Quiet, Quiet, Quiet, Quiet, Run 5 (2026, 5, 27)] (wt_two True False True (Some 5) [5 \<mapsto> (True, (2026, 5, 27))] [] X_flush (K_free 5) [(2026, 5, 27)])"
    by (rule wq_log_step [where i = 1]) (use print [of "wt_two True False True (Some 5) [5 \<mapsto> (True, (2026, 5, 27))] [] X_flush (K_print 5) []" 1 5 True "(2026, 5, 27)"] in \<open>simp add: handler_two work_two\<close>, simp add: wq_event_of_def)
  then have "?R [Quiet, Quiet, Quiet, Quiet, Quiet, Accept 5, Quiet, Quiet, Quiet, Quiet, Quiet, Quiet, Quiet, Run 5 (2026, 5, 27), Quiet] (wt_two True False True (Some 5) Map.empty [] X_flush Outside [(2026, 5, 27)])"
    by (rule wq_log_step [where i = 1]) (use kfree [of "wt_two True False True (Some 5) [5 \<mapsto> (True, (2026, 5, 27))] [] X_flush (K_free 5) [(2026, 5, 27)]" 1 5] in \<open>simp add: handler_two work_two\<close>, simp add: wq_event_of_def)
  then have "?R [Quiet, Quiet, Quiet, Quiet, Quiet, Accept 5, Quiet, Quiet, Quiet, Quiet, Quiet, Quiet, Quiet, Run 5 (2026, 5, 27), Quiet, Quiet] (wt_two True False True (Some 5) Map.empty [] X_destroy Outside [(2026, 5, 27)])"
    by (rule wq_log_step [where i = 0]) (use flush [of "wt_two True False True (Some 5) Map.empty [] X_flush Outside [(2026, 5, 27)]" 0] in \<open>simp add: handler_two work_two\<close>, simp add: wq_event_of_def)
  then have "?R [Quiet, Quiet, Quiet, Quiet, Quiet, Accept 5, Quiet, Quiet, Quiet, Quiet, Quiet, Quiet, Quiet, Run 5 (2026, 5, 27), Quiet, Quiet, Gone] (wt_two False False True (Some 5) Map.empty [] Unloaded Outside [(2026, 5, 27)])"
    by (rule wq_log_step [where i = 0]) (use destroy [of "wt_two True False True (Some 5) Map.empty [] X_destroy Outside [(2026, 5, 27)]" 0] in \<open>simp add: handler_two work_two\<close>, simp add: wq_event_of_def)
  then show ?thesis .
qed

subsection \<open>A load without a work queue\<close>

text \<open>Then the handler does nothing, and all that can be reached is the flush of a null queue.\<close>

fun null_pc :: "bool \<Rightarrow> wq_pc \<Rightarrow> bool" where
  "null_pc leaving Outside = True"
| "null_pc leaving I_test = True"
| "null_pc leaving X_free_irq = leaving"
| "null_pc leaving X_sync = leaving"
| "null_pc leaving X_flush = leaving"
| "null_pc leaving _ = False"

definition wt_null :: "wq_threads \<Rightarrow> bool" where
  "wt_null s \<longleftrightarrow> \<not> wt_wq s \<and> wt_alive s \<and> wt_item s = Map.empty \<and> wt_queue s = [] \<and> wt_out s = [] \<and>
     (wt_fault s = None \<or> wt_leaving s \<and> wt_fault s = Some Null_deref) \<and>
     (\<forall>i. null_pc (wt_leaving s) (wt_pc s i))"

lemma null_pc_True: "null_pc leaving x \<Longrightarrow> null_pc True x"
  by (cases x) auto

lemma wt_null_go:
  assumes "wt_null s" and "wt_pc t = (wt_pc s)(i := x)" and "null_pc (wt_leaving t) x"
    and "wt_leaving s \<longrightarrow> wt_leaving t" and "wt_fault t = wt_fault s" and "wt_wq t = wt_wq s" and "wt_alive t = wt_alive s"
    and "wt_item t = wt_item s" and "wt_queue t = wt_queue s" and "wt_out t = wt_out s"
  shows "wt_null t"
proof -
  have "null_pc (wt_leaving t) (wt_pc s j)" for j
    using assms(1,4) null_pc_True [of "wt_leaving s" "wt_pc s j"] by (cases "wt_leaving t") (auto simp: wt_null_def)
  then show ?thesis using assms by (auto simp: wt_null_def)
qed

lemma wt_null_step:
  assumes "wq_step i s t" and "wt_null s"
  shows "wt_null t \<and> wq_event_of i s t = Quiet"
proof -
  have s: "\<not> wt_wq s" "wt_queue s = []" "null_pc (wt_leaving s) (wt_pc s i)" using assms(2) by (simp_all add: wt_null_def)
  from assms(1) show ?thesis
  proof cases
    case irq
    then show ?thesis using wt_null_go [OF assms(2), of t i I_test] by (simp add: wq_event_of_def)
  next
    case test_null
    then show ?thesis using wt_null_go [OF assms(2), of t i Outside] by (simp add: wq_event_of_def)
  next
    case unload
    then show ?thesis using wt_null_go [OF assms(2), of t i X_free_irq] by (simp add: wq_event_of_def)
  next
    case free_irq
    then show ?thesis using s wt_null_go [OF assms(2), of t i X_sync] by (simp add: wq_event_of_def)
  next
    case irq_over
    then show ?thesis using s wt_null_go [OF assms(2), of t i X_flush] by (simp add: wq_event_of_def)
  next
    case flush_null
    then show ?thesis using s assms(2) by (simp add: wt_null_def wq_event_of_def)
  qed (use s in auto)
qed

lemma wq_keeps_queue: "wq_step i s t \<Longrightarrow> wt_wq t = wt_wq s"
  by (cases rule: wq_step.cases) auto

lemma wq_loaded:
  "labelled wt_start wq_emits es s \<Longrightarrow>
    if wt_wq s then labelled wt_with_queue wq_emits es s else wt_null s \<and> set es \<subseteq> {Quiet}"
proof (induction rule: labelled.induct)
  case (lab_start s)
  have "wt_with_queue s" if "wt_wq s" using lab_start that by (simp add: wt_with_queue_def)
  then show ?case using wt_startD [OF lab_start] by (auto simp: wt_null_def intro!: labelled.lab_start)
next
  case (lab_step es s e t)
  then obtain i where i: "wq_step i s t" "e = wq_event_of i s t" by (auto simp: wq_emits_def)
  show ?case
    using lab_step.IH wq_keeps_queue [OF i(1)] wt_null_step [OF i(1)] i(2)
      labelled.lab_step [of wt_with_queue wq_emits es s e t] lab_step.hyps(2)
    by (auto split: if_splits)
qed

lemma wq_all_quiet: "set es \<subseteq> {Quiet} \<Longrightarrow> spec_run wq_next es a = Some a \<and> accepts es = [] \<and> runs es = []"
  by (induction es) auto

lemma wt_null_to_run: "wt_null s \<Longrightarrow> to_run s = {}"
proof -
  assume s: "wt_null s"
  have "unrun (wt_pc s i) = None" for i
  proof -
    have "null_pc (wt_leaving s) (wt_pc s i)" using s by (simp add: wt_null_def)
    then show ?thesis by (cases "wt_pc s i") simp_all
  qed
  then show ?thesis using s by (simp add: to_run_def held_def wt_null_def)
qed

text \<open>Loading without a work queue succeeds, and unloading the module dereferences null.\<close>

lemma null_queue_flushed:
  "\<exists>k s0 s1 tr es s. simple_workqueue_init k False s0 = (0, s1, tr) \<and>
     labelled wt_start wq_emits es s \<and> \<not> wt_wq s \<and> wt_fault s = Some Null_deref"
proof -
  let ?s = "\<lparr>my_wq = False, wq_irq = 0, wq_alloc = {}, wq_queue = [], wq_printed = []\<rparr>"
  obtain s1 tr where i: "simple_workqueue_init all_ok False ?s = (0, s1, tr)" "\<not> my_wq s1" "ret_request_irq all_ok (wq_irq s1) = 0"
    by (simp add: simple_workqueue_init_def request_switch_def all_ok_def Let_def)
  let ?t = "\<lambda>li le x. \<lparr>wt_wq = False, wt_alive = True, wt_line = li, wt_leaving = le, wt_work = None, wt_item = Map.empty,
      wt_queue = [], wt_pc = (\<lambda>_. Outside)(0 := x), wt_fault = None, wt_out = []\<rparr>"
  note step = wq_log_step [where i = 0, OF _ _ refl]
  have "labelled wt_start wq_emits [] (?t True False Outside)"
    by (rule lab_start) (use i in \<open>auto simp: wt_start_def intro!: exI\<close>)
  from step [OF this, of "?t True True X_free_irq"]
  have 1: "\<exists>es. labelled wt_start wq_emits es (?t True True X_free_irq)"
    using unload [of "?t True False Outside" 0] by (auto simp: wt_goto_def)
  have 2: "wq_step 0 (?t True True X_free_irq) (?t False True X_sync)"
    using free_irq [of "?t True True X_free_irq" 0] by (simp add: wt_goto_def)
  have 3: "wq_step 0 (?t False True X_sync) (?t False True X_flush)"
    using irq_over [of "?t False True X_sync" 0] by (simp add: wt_goto_def)
  have 4: "wq_step 0 (?t False True X_flush) ((?t False True X_flush)\<lparr>wt_fault := Some Null_deref\<rparr>)"
    by (rule flush_null) simp_all
  obtain es where "labelled wt_start wq_emits es ((?t False True X_flush)\<lparr>wt_fault := Some Null_deref\<rparr>)"
    using 1 step [OF _ 2] step [OF _ 3] step [OF _ 4] by meson
  then show ?thesis using i(1) by (intro exI conjI) (assumption | simp)+
qed

subsection \<open>Properties\<close>

lemma work_of_busy: "work_of x = Some w \<Longrightarrow> in_handler x \<or> in_work x"
  by (cases x) auto

lemma wq_all_gone:
  assumes "wt_inv s" and "\<not> wt_alive s"
  shows "wt_item s = Map.empty \<and> wt_queue s = [] \<and> (\<forall>i. \<not> in_handler (wt_pc s i) \<and> \<not> in_work (wt_pc s i))"
proof -
  obtain j where "phase (wt_pc s j) = 5" using wt_inv_simps(8) [OF assms(1)] assms(2) by auto
  then have idle: "wt_queue s = []" "\<forall>i. \<not> in_handler (wt_pc s i) \<and> \<not> in_work (wt_pc s i)"
    using wt_inv_simps(7) [OF assms(1), of j] by (auto simp: phase_ok_def)
  then have "work_of (wt_pc s i) = None" for i using work_of_busy [of "wt_pc s i"] by (cases "work_of (wt_pc s i)") auto
  then show ?thesis using owned_idle [OF wt_inv_simps(4) [OF assms(1)]] idle by auto
qed

text \<open>With a work queue.\<close>

lemma wq_with_queue:
  assumes "labelled wt_with_queue wq_emits es s"
  shows "spec_run wq_next es wq_none \<noteq> None \<and> wt_fault s = None \<and>
    wt_out s = replicate (length (runs es)) (2026, 5, 27) \<and>
    mset (accepts es) = mset (map fst (runs es)) + mset_set (to_run s) \<and>
    (Gone \<in> set es \<longrightarrow> mset (accepts es) = mset (map fst (runs es)) \<and> wt_item s = Map.empty \<and> wt_queue s = [] \<and>
       (\<forall>i. \<not> in_handler (wt_pc s i) \<and> \<not> in_work (wt_pc s i)))"
proof -
  obtain a where a: "spec_run wq_next es wq_none = Some a" "wt_rel s a" using wq_work.refines [OF assms] by blast
  have inv: "wt_inv s" and p: "pending a = to_run s" "closed a = (\<not> wt_alive s)" using a(2) by (simp_all add: wt_rel_def)
  have b: "mset (accepts es) = mset (map fst (runs es)) + mset_set (to_run s)" "\<forall>r \<in> set (runs es). snd r = (2026, 5, 27)"
    using wq_balance [OF a(1)] p(1) by (simp_all add: wq_none_def)
  have "wt_out s = replicate (length (runs es)) (2026, 5, 27)"
    unfolding wq_prints [OF assms, symmetric] using b(2) by (intro replicate_eqI) auto
  moreover have "to_run s = {} \<and> \<not> wt_alive s" if "Gone \<in> set es"
    using wq_closed [OF a(1)] that p by simp
  ultimately show ?thesis using a(1) b(1) wt_inv_simps(1) [OF inv] wq_all_gone [OF inv] by auto
qed

text \<open>
  C28. The work-queue module under concurrency, from any load: whatever interrupts come, with
  or without memory for their work, however the workers interleave and whenever the module
  is unloaded, each piece of work queued is run once, or still waiting or running, each run
  prints the date, and when the work queue has been destroyed every piece was run, and
  nothing of the module is allocated, queued or running. No step faults, except that when
  create_workqueue failed, which the load ignores, nothing is ever queued and the unload
  dereferences the null queue and never ends.
\<close>

theorem workqueue_runs_once:
  assumes "labelled wt_start wq_emits es s"
  shows "spec_run wq_next es wq_none \<noteq> None \<and>
    (wt_fault s = None \<or> \<not> wt_wq s \<and> wt_leaving s \<and> wt_fault s = Some Null_deref) \<and>
    (\<not> wt_wq s \<longrightarrow> accepts es = [] \<and> Gone \<notin> set es) \<and>
    wt_out s = replicate (length (runs es)) (2026, 5, 27) \<and>
    mset (accepts es) = mset (map fst (runs es)) + mset_set (to_run s) \<and>
    (Gone \<in> set es \<longrightarrow> mset (accepts es) = mset (map fst (runs es)) \<and> wt_item s = Map.empty \<and> wt_queue s = [] \<and>
       (\<forall>i. \<not> in_handler (wt_pc s i) \<and> \<not> in_work (wt_pc s i)))"
proof (cases "wt_wq s")
  case True
  then have "labelled wt_with_queue wq_emits es s" using wq_loaded [OF assms] by simp
  from wq_with_queue [OF this] show ?thesis using True by blast
next
  case False
  then have n: "wt_null s" "set es \<subseteq> {Quiet}" using wq_loaded [OF assms] by simp_all
  moreover from n(2) have "Gone \<notin> set es" by auto
  ultimately show ?thesis
    using False wq_all_quiet [OF n(2)] wt_null_to_run [OF n(1)] by (auto simp: wt_null_def)
qed

theorem workqueue_runs_once_witness:
  "\<exists>s :: wq_threads. labelled wt_start wq_emits wq_sample_log s \<and> wt_wq s \<and> Gone \<in> set wq_sample_log \<and> wt_fault s = None \<and>
     wt_out s = [(2026, 5, 27)] \<and> wt_item s = Map.empty \<and> accepts wq_sample_log = [5] \<and>
     mset (accepts wq_sample_log) = mset (map fst (runs wq_sample_log))"
proof -
  let ?s = "wt_two False False True (Some 5) Map.empty [] Unloaded Outside [(2026, 5, 27)]"
  note l = wq_one_piece [folded wq_sample_log_def]
  have g: "Gone \<in> set wq_sample_log" "accepts wq_sample_log = [5]" "length (runs wq_sample_log) = 1"
    by (simp_all add: wq_sample_log_def)
  have "wt_wq ?s" by simp
  then have "wt_fault ?s = None" "wt_out ?s = replicate (length (runs wq_sample_log)) (2026, 5, 27)"
    "mset (accepts wq_sample_log) = mset (map fst (runs wq_sample_log)) \<and> wt_item ?s = Map.empty"
    using workqueue_runs_once [OF l] g(1) by blast+
  then show ?thesis using l g by (intro exI [of _ ?s]) simp
qed

end
