(* ===== verification/Small_Modules.thy ===== *)
theory Small_Modules
  imports Msg_Store
begin

text \<open>
  lab2 and lab4/ex1: the modules that print and share symbols (hello, debug, symbol, ch1)
  and the linked list. Shown: the list is printed last in first out and freed completely,
  and what the symbol modules print.
\<close>

subsection \<open>lab2\<close>

definition hello_init :: "int \<times> string list" where "hello_init = (0, [''Hello, World!'' @ [NL]])"
definition hello_exit :: "string list" where "hello_exit = [''Goodbye'' @ [NL]]"

text \<open>\<open>my_debug\<close>: whether the macro MY_DEBUG is defined.\<close>

definition debug_init :: "bool \<Rightarrow> int \<times> string list" where
  "debug_init my_debug =
     (0, [''Debug init'' @ [NL]] @ (if my_debug then [''MYDEBUG: Hello debug world!'' @ [NL]] else []))"

definition debug_exit :: "string list" where "debug_exit = [''Debug exit'' @ [NL]]"

text \<open>ch1: the first module keeps \<open>my_id\<close> (an int) and exports its functions.\<close>

definition ch1_mod1_init :: int where "ch1_mod1_init = 0"
definition ch1_my_id :: int where "ch1_my_id = 123456789"
definition get_my_id :: "int \<Rightarrow> int" where "get_my_id my_id = my_id"
definition set_my_id :: "int \<Rightarrow> int \<Rightarrow> int \<times> int" where "set_my_id i my_id = (1, i)"

definition ch1_mod2_init :: "int \<Rightarrow> int \<times> int \<times> string list" where
  "ch1_mod2_init my_id =
     (let out1 = ''My ID : '' @ dec_int (get_my_id my_id) @ [NL];
          (_, my_id) = set_my_id 202111360 my_id
      in (0, my_id, [out1, ''My ID : '' @ dec_int (get_my_id my_id) @ [NL]]))"

text \<open>symbol: the second module prints the variable the first one exports.\<close>

definition symbol_my_id :: int where "symbol_my_id = 123456789"
definition mod1_init :: "int \<times> string list" where "mod1_init = (0, [''Hello, Mod1'' @ [NL]])"
definition mod1_exit :: "string list" where "mod1_exit = [''Goodbye, Mod1'' @ [NL]]"
definition mod2_exit :: "string list" where "mod2_exit = [''Goodbye, Mod2'' @ [NL]]"

definition mod2_init :: "int \<Rightarrow> int \<times> string list" where
  "mod2_init my_id = (0, [''Hello, Mod2'' @ [NL], ''My ID : '' @ dec_int my_id @ [NL]])"

text \<open>Loaded once, the second module of ch1 prints both numbers; loaded again, the new one twice.\<close>

lemma ch1_prints:
  "snd (snd (ch1_mod2_init ch1_my_id)) =
     [''My ID : '' @ dec_int 123456789 @ [NL], ''My ID : '' @ dec_int 202111360 @ [NL]]"
  "fst (snd (ch1_mod2_init v)) = 202111360"
  by (simp_all add: ch1_mod2_init_def ch1_my_id_def get_my_id_def set_my_id_def)

subsection \<open>lab4/ex1: the linked list\<close>

record list_mod =
  ll_ids :: "addr \<rightharpoonup> int" \<comment> \<open>the allocated nodes\<close>
  ll_list :: "addr list"

text \<open>The first loop over what its kmalloc calls return, from index \<open>i\<close>.\<close>

fun ll_fill :: "addr option list \<Rightarrow> int \<Rightarrow> list_mod \<Rightarrow> list_mod result" where
  "ll_fill [] i s = Inr s"
| "ll_fill (None # as) i s = Inl Null_deref"
| "ll_fill (Some a # as) i s =
     ll_fill as (i + 1) (s\<lparr>ll_ids := (ll_ids s)(a \<mapsto> i + 100), ll_list := a # ll_list s\<rparr>)"

text \<open>Walking the list and printing positions and ids.\<close>

fun ll_show :: "nat \<Rightarrow> addr list \<Rightarrow> list_mod \<Rightarrow> (nat \<times> int) list result" where
  "ll_show i [] s = Inr []"
| "ll_show i (a # as) s =
     (case ll_ids s a of
        None \<Rightarrow> Inl Use_after_free
      | Some d \<Rightarrow> bindr (ll_show (i + 1) as s) (\<lambda>out. Inr ((i, d) # out)))"

definition simple_linked_list_init ::
  "addr option list \<Rightarrow> list_mod \<Rightarrow> (int \<times> (nat \<times> int) list \<times> list_mod) result" where
  "simple_linked_list_init as s =
     bindr (ll_fill (take 5 as) 0 (s\<lparr>ll_list := []\<rparr>)) (\<lambda>s1.
       bindr (ll_show 0 (ll_list s1) s1) (\<lambda>out. Inr (0, out, s1)))"

fun ll_free_all :: "nat \<Rightarrow> addr list \<Rightarrow> list_mod \<Rightarrow> ((nat \<times> int) list \<times> list_mod) result" where
  "ll_free_all i [] s = Inr ([], s)"
| "ll_free_all i (pos # q) s =
     (case ll_ids s pos of
        None \<Rightarrow> Inl Use_after_free
      | Some d \<Rightarrow>
          bindr (ll_free_all (i + 1) q (s\<lparr>ll_list := remove1 pos (ll_list s), ll_ids := (ll_ids s)(pos := None)\<rparr>))
            (\<lambda>(out, s1). Inr ((i, d) # out, s1)))"

definition simple_linked_list_exit :: "list_mod \<Rightarrow> ((nat \<times> int) list \<times> list_mod) result" where
  "simple_linked_list_exit s = ll_free_all 0 (ll_list s) s"

text \<open>A concrete run: the list holds 104 to 100 and is freed in that order.\<close>

lemma linked_list_run:
  "\<exists>s1 s2. simple_linked_list_init (map Some [10, 11, 12, 13, 14]) \<lparr>ll_ids = Map.empty, ll_list = []\<rparr> =
      Inr (0, [(0, 104), (1, 103), (2, 102), (3, 101), (4, 100)], s1) \<and>
     simple_linked_list_exit s1 = Inr ([(0, 104), (1, 103), (2, 102), (3, 101), (4, 100)], s2) \<and>
     ll_ids s2 = Map.empty \<and> ll_list s2 = []"
  by (simp add: simple_linked_list_init_def simple_linked_list_exit_def fun_eq_iff)

lemma ll_eqI: "ll_ids s = ll_ids t \<Longrightarrow> ll_list s = ll_list t \<Longrightarrow> s = (t :: list_mod)"
  by (cases s, cases t) simp

lemma ll_fill_fails: "None \<in> set as \<Longrightarrow> ll_fill as i s = Inl Null_deref"
  by (induction as i s rule: ll_fill.induct) auto

lemma ll_fill_all:
  "distinct as \<Longrightarrow> set as \<inter> dom (ll_ids s) = {} \<Longrightarrow>
    \<exists>s1. ll_fill (map Some as) i s = Inr s1 \<and> ll_list s1 = rev as @ ll_list s \<and>
      ll_ids s1 = ll_ids s ++ map_of (zip as (map (\<lambda>k. i + int k + 100) [0..<length as]))"
proof (induction as arbitrary: i s)
  case (Cons a as)
  let ?s = "s\<lparr>ll_ids := (ll_ids s)(a \<mapsto> i + 100), ll_list := a # ll_list s\<rparr>"
  obtain s1 where s1: "ll_fill (map Some as) (i + 1) ?s = Inr s1" "ll_list s1 = rev as @ a # ll_list s"
      "ll_ids s1 = ll_ids ?s ++ map_of (zip as (map (\<lambda>k. i + 1 + int k + 100) [0..<length as]))"
  proof -
    have "\<exists>s1. ll_fill (map Some as) (i + 1) ?s = Inr s1 \<and> ll_list s1 = rev as @ ll_list ?s \<and>
        ll_ids s1 = ll_ids ?s ++ map_of (zip as (map (\<lambda>k. i + 1 + int k + 100) [0..<length as]))"
      by (rule Cons.IH) (use Cons.prems in \<open>auto simp: disjoint_iff domIff\<close>)
    then show ?thesis by (elim exE conjE) (rule that, simp_all)
  qed
  have m: "map (\<lambda>k. i + int k + 100) [0..<length (a # as)] = (i + 100) # map (\<lambda>k. i + 1 + int k + 100) [0..<length as]"
    by (simp add: map_upt_Suc del: upt_Suc)
  have "a \<notin> dom (map_of (zip as (map (\<lambda>k. i + 1 + int k + 100) [0..<length as])))"
    using Cons.prems(1) by (simp add: dom_map_of_zip)
  then have "ll_ids s1 = ll_ids s ++ map_of (zip (a # as) (map (\<lambda>k. i + int k + 100) [0..<length (a # as)]))"
    unfolding m using s1(3) by (simp add: map_add_upd_left)
  then show ?case using s1 by simp
qed simp

text \<open>Walking and freeing a list of allocated nodes.\<close>

lemma ll_show_all:
  "set as \<subseteq> dom (ll_ids s) \<Longrightarrow> ll_show i as s = Inr (zip [i..<i + length as] (map (the \<circ> ll_ids s) as))"
proof (induction as arbitrary: i)
  case (Cons a as)
  obtain d where "ll_ids s a = Some d" using Cons.prems by auto
  then show ?case using Cons.IH [of "i + 1"] Cons.prems by (simp add: upt_conv_Cons del: upt_Suc)
qed simp

lemma ll_free_all_all:
  "distinct as \<Longrightarrow> set as \<subseteq> dom (ll_ids s) \<Longrightarrow> ll_list s = as \<Longrightarrow>
    ll_free_all i as s = Inr (zip [i..<i + length as] (map (the \<circ> ll_ids s) as),
      s\<lparr>ll_list := [], ll_ids := ll_ids s |` (- set as)\<rparr>)"
proof (induction as arbitrary: i s)
  case (Cons a as)
  let ?s = "s\<lparr>ll_list := as, ll_ids := (ll_ids s)(a := None)\<rparr>"
  obtain d where d: "ll_ids s a = Some d" using Cons.prems(2) by auto
  have m: "map (the \<circ> ll_ids ?s) as = map (the \<circ> ll_ids s) as" using Cons.prems(1) by auto
  have "ll_ids ?s |` (- set as) = ll_ids s |` (- set (a # as))"
    by (auto simp: fun_eq_iff restrict_map_def)
  then have "?s\<lparr>ll_list := [], ll_ids := ll_ids ?s |` (- set as)\<rparr> =
      s\<lparr>ll_list := [], ll_ids := ll_ids s |` (- set (a # as))\<rparr>"
    by (intro ll_eqI) simp_all
  moreover have "ll_free_all (i + 1) as ?s = Inr (zip [i + 1..<i + 1 + length as] (map (the \<circ> ll_ids ?s) as),
      ?s\<lparr>ll_list := [], ll_ids := ll_ids ?s |` (- set as)\<rparr>)"
    using Cons.prems by (intro Cons.IH) auto
  ultimately have "ll_free_all (i + 1) as ?s = Inr (zip [i + 1..<i + 1 + length as] (map (the \<circ> ll_ids s) as),
      s\<lparr>ll_list := [], ll_ids := ll_ids s |` (- set (a # as))\<rparr>)"
    by (simp only: m)
  then show ?case using d Cons.prems(3) by (simp add: upt_conv_Cons comp_def del: upt_Suc)
qed (auto intro!: ll_eqI simp: restrict_map_def)

text \<open>
  Loading the linked-list module prints its five nodes last in first out, 104 to 100, at
  the positions 0 to 4, and unloading prints the same and frees exactly these five nodes,
  whatever addresses kmalloc gave; if one of the five allocations fails the load
  dereferences null.
\<close>

lemma linked_list_lifo:
  assumes "length as = 5" and "distinct as" and "set as \<inter> dom (ll_ids s) = {}"
    and "length bs = 5" and "None \<in> set bs"
  shows "(\<exists>s1. simple_linked_list_init (map Some as) s = Inr (0, zip [0..<5] [104, 103, 102, 101, 100], s1) \<and>
      dom (ll_ids s1) = dom (ll_ids s) \<union> set as \<and>
      simple_linked_list_exit s1 = Inr (zip [0..<5] [104, 103, 102, 101, 100], s\<lparr>ll_list := []\<rparr>)) \<and>
    simple_linked_list_init bs s = Inl Null_deref"
proof -
  let ?s = "s\<lparr>ll_list := []\<rparr>"
  obtain s1 where s1: "ll_fill (map Some as) 0 ?s = Inr s1" "ll_list s1 = rev as"
      "ll_ids s1 = ll_ids s ++ map_of (zip as (map (\<lambda>k. int k + 100) [0..<5]))"
    using ll_fill_all [of as ?s 0] assms(1-3) by auto
  have d: "dom (ll_ids s1) = dom (ll_ids s) \<union> set as" using s1(3) assms(1) by (auto simp: dom_map_of_zip)
  obtain a b c d' e where as: "as = [a, b, c, d', e]"
    using assms(1) by (auto simp: eval_nat_numeral length_Suc_conv)
  have ids: "map (the \<circ> ll_ids s1) (rev as) = [104, 103, 102, 101, 100]"
    using assms(2) by (auto simp: s1(3) as upt_rec)
  have "(ll_ids s1) |` (- set as) = ll_ids s"
  proof
    show "(ll_ids s1 |` (- set as)) x = ll_ids s x" for x
      using assms(1,3) by (cases "x \<in> set as")
        (auto simp: restrict_map_def s1(3) map_add_def disjoint_iff domIff split: option.split
          dest: map_of_SomeD set_zip_leftD)
  qed
  then have "s1\<lparr>ll_list := [], ll_ids := ll_ids s1 |` (- set (rev as))\<rparr> = ?s" by (simp add: ll_eqI)
  moreover have "ll_free_all 0 (rev as) s1 = Inr (zip [0..<0 + length (rev as)] (map (the \<circ> ll_ids s1) (rev as)),
      s1\<lparr>ll_list := [], ll_ids := ll_ids s1 |` (- set (rev as))\<rparr>)"
    using assms(2) d s1(2) by (intro ll_free_all_all) auto
  moreover have "ll_show 0 (rev as) s1 = Inr (zip [0..<0 + length (rev as)] (map (the \<circ> ll_ids s1) (rev as)))"
    using d by (intro ll_show_all) auto
  ultimately show ?thesis
    using s1 d assms(1,4,5) ids
    by (simp add: simple_linked_list_init_def simple_linked_list_exit_def ll_fill_fails)
qed

lemma linked_list_lifo_example:
  "\<exists>s1. simple_linked_list_init (map Some [14, 3, 15, 9, 26]) \<lparr>ll_ids = Map.empty, ll_list = []\<rparr> =
      Inr (0, zip [0..<5] [104, 103, 102, 101, 100], s1) \<and>
    simple_linked_list_exit s1 = Inr (zip [0..<5] [104, 103, 102, 101, 100], \<lparr>ll_ids = Map.empty, ll_list = []\<rparr>) \<and>
    simple_linked_list_init [Some 1, None, Some 2, Some 3, Some 4] \<lparr>ll_ids = Map.empty, ll_list = []\<rparr> = Inl Null_deref"
  using linked_list_lifo [of "[14, 3, 15, 9, 26]" "\<lparr>ll_ids = Map.empty, ll_list = []\<rparr>"
      "[Some 1, None, Some 2, Some 3, Some 4]"]
  by auto

end
