(* ===== verification/Spin_Mailbox.thy ===== *)
theory Spin_Mailbox
  imports Msg_Store Ioctl Draining Locking
begin

text \<open>
  lab4/ex2: simple_spin, one message under a spin lock, with its two programs. The
  operations come first as functions of an undisturbed call, then as the steps of any
  number of threads that contend for the lock. Shown: however the threads are interleaved
  the module is a mailbox for one message, no message is delivered twice, the lock excludes,
  and every call returns.
\<close>

subsection \<open>The module, call by call\<close>

definition SIMPLE_SPIN_READ :: "nat \<Rightarrow> 32 word" where "SIMPLE_SPIN_READ n = iowr SIMPLE_IOCTL_NUM IOCTL_NUM1 n"
definition SIMPLE_SPIN_WRITE :: "nat \<Rightarrow> 32 word" where "SIMPLE_SPIN_WRITE n = iowr SIMPLE_IOCTL_NUM IOCTL_NUM2 n"

text \<open>\<open>kern_buf\<close> and whether the lock is held; \<open>struct str_st\<close> has the layout of a message.\<close>

record spin_mod =
  kern_buf :: msg_st
  spin_held :: bool

definition simple_spin_read :: "msg_st \<Rightarrow> nat \<Rightarrow> spin_mod \<Rightarrow> (int \<times> msg_st \<times> spin_mod) result" where
  "simple_spin_read usr u s =
     (if spin_held s then Inl Self_deadlock
      else Inr (int u, struct_copy usr (kern_buf s) u, s\<lparr>kern_buf := zero_msg, spin_held := False\<rparr>))"

text \<open>copy_from_user pads what it could not copy with zero.\<close>

definition simple_spin_write :: "msg_st \<Rightarrow> nat \<Rightarrow> spin_mod \<Rightarrow> (int \<times> spin_mod) result" where
  "simple_spin_write usr u s =
     (if spin_held s then Inl Self_deadlock
      else Inr (int u, s\<lparr>kern_buf := struct_copy zero_msg usr u, spin_held := False\<rparr>))"

definition simple_spin_ioctl ::
  "nat \<Rightarrow> 32 word \<Rightarrow> msg_st \<Rightarrow> nat \<Rightarrow> spin_mod \<Rightarrow> (int \<times> msg_st \<times> spin_mod) result" where
  "simple_spin_ioctl n cmd usr u s =
     (if cmd = SIMPLE_SPIN_READ n then
        bindr (simple_spin_read usr u s) (\<lambda>(ret, usr, s). Inr (0, usr, s))
      else if cmd = SIMPLE_SPIN_WRITE n then
        bindr (simple_spin_write usr u s) (\<lambda>(ret, s). Inr (0, usr, s))
      else Inr (0, usr, s))"

text \<open>Loading; \<open>ok\<close>: vmalloc did not return null. The device is added before the buffer exists.\<close>

definition simple_spin_init :: "kernel \<Rightarrow> bool \<Rightarrow> (int \<times> spin_mod option \<times> kcall list) result" where
  "simple_spin_init k ok =
     bindr (unchecked_cdev_init k) (\<lambda>(_, tr).
       if ret_cdev_add k < 0 then Inr (ret_cdev_add k, None, tr)
       else if \<not> ok then Inl Null_deref
       else Inr (0, Some \<lparr>kern_buf = zero_msg, spin_held = False\<rparr>, tr))"

text \<open>Unloading frees the buffer and removes the device.\<close>

definition simple_spin_exit :: "spin_mod \<Rightarrow> spin_mod option \<times> kcall list" where
  "simple_spin_exit s = (None, cdev_exit)"

text \<open>Opening and releasing: the result and what is logged.\<close>

definition simple_spin_open :: "int \<times> string list" where "simple_spin_open = (0, [''simple_spin: open'' @ [NL]])"
definition simple_spin_release :: "int \<times> string list" where "simple_spin_release = (0, [''simple_spin: release'' @ [NL]])"

definition simple_spin_writer_main :: msg_st where
  "simple_spin_writer_main =
     (let str1 = ''reader: hi, writer!'' @ replicate (128 - length ''reader: hi, writer!'') NUL
      in \<lparr>msg_len = word_of_nat (length (cstring str1)), msg_str = str1\<rparr>)"

definition simple_spin_reader_main :: "msg_st \<Rightarrow> string" where
  "simple_spin_reader_main user_str = cstring (msg_str user_str) @ [NL]"

text \<open>A sequence of complete calls: Some is a write, None a read; what the reads return.\<close>

fun spin_calls :: "nat \<Rightarrow> msg_st option list \<Rightarrow> spin_mod \<Rightarrow> (msg_st list \<times> spin_mod) result" where
  "spin_calls n [] s = Inr ([], s)"
| "spin_calls n (Some m # cs) s =
     bindr (simple_spin_ioctl n (SIMPLE_SPIN_WRITE n) m 0 s) (\<lambda>(_, _, s1). spin_calls n cs s1)"
| "spin_calls n (None # cs) s =
     bindr (simple_spin_ioctl n (SIMPLE_SPIN_READ n) zero_msg 0 s) (\<lambda>(_, m, s1).
       bindr (spin_calls n cs s1) (\<lambda>(out, s2). Inr (m # out, s2)))"

text \<open>The abstract mailbox: at most one message, a write replaces it, a read takes it.\<close>

fun mailbox :: "msg_st option list \<Rightarrow> msg_st option \<Rightarrow> msg_st option list" where
  "mailbox [] b = []"
| "mailbox (Some m # cs) b = mailbox cs (Some m)"
| "mailbox (None # cs) b = b # mailbox cs None"

definition as_read :: "msg_st option \<Rightarrow> msg_st" where
  "as_read b = (case b of None \<Rightarrow> zero_msg | Some m \<Rightarrow> m)"

lemma spin_commands [simp]: "SIMPLE_SPIN_WRITE n \<noteq> SIMPLE_SPIN_READ n"
  by (simp add: SIMPLE_SPIN_WRITE_def SIMPLE_SPIN_READ_def iowr_neq ioctl_nums)

lemma as_read_ok: "pred_option msg_ok b \<Longrightarrow> msg_ok (as_read b)"
  by (cases b) (auto simp: as_read_def)

text \<open>
  The spin-lock module is a mailbox for one message: for any sequence of complete
  writes and reads, a read returns the message of the last write if no other read came
  since, and an all-zero message otherwise; the lock is free after every call.
\<close>

lemma simple_spin_mailbox:
  assumes "\<And>m. Some m \<in> set cs \<Longrightarrow> msg_ok m" and "pred_option msg_ok b"
    and "kern_buf s = as_read b" and "\<not> spin_held s"
  shows "\<exists>s'. spin_calls n cs s = Inr (map as_read (mailbox cs b), s') \<and> \<not> spin_held s'"
  using assms
proof (induction cs b arbitrary: s rule: mailbox.induct)
  case (2 m cs b)
  let ?s = "s\<lparr>kern_buf := m, spin_held := False\<rparr>"
  have "struct_copy zero_msg m 0 = m" using 2(2) by (intro struct_copy_all) auto
  moreover have "\<exists>s'. spin_calls n cs ?s = Inr (map as_read (mailbox cs (Some m)), s') \<and> \<not> spin_held s'"
    using 2 by (intro "2.IH") (auto simp: as_read_def)
  ultimately show ?case
    using 2 by (simp add: simple_spin_ioctl_def simple_spin_write_def)
next
  case (3 cs b)
  let ?s = "s\<lparr>kern_buf := zero_msg, spin_held := False\<rparr>"
  have "struct_copy zero_msg (as_read b) 0 = as_read b"
    using as_read_ok [OF 3(3)] by (intro struct_copy_all) auto
  moreover have "\<exists>s'. spin_calls n cs ?s = Inr (map as_read (mailbox cs None), s') \<and> \<not> spin_held s'"
    using 3 by (intro "3.IH") (auto simp: as_read_def)
  ultimately show ?case
    using 3 by (auto simp: simple_spin_ioctl_def simple_spin_read_def)
qed auto

lemma simple_spin_mailbox_example:
  "\<exists>s1 tr s2. simple_spin_init all_ok True = Inr (0, Some s1, tr) \<and>
     spin_calls 8 [Some simple_spin_writer_main, None, None] s1 = Inr ([simple_spin_writer_main, zero_msg], s2)"
proof -
  let ?s1 = "\<lparr>kern_buf = zero_msg, spin_held = False\<rparr>"
  obtain tr where i: "simple_spin_init all_ok True = Inr (0, Some ?s1, tr)"
    by (simp add: simple_spin_init_def unchecked_cdev_init_def all_ok_def Let_def)
  have "msg_ok simple_spin_writer_main"
    by (simp add: simple_spin_writer_main_def msg_ok_def Let_def del: replicate.simps)
  then show ?thesis
    using simple_spin_mailbox [of "[Some simple_spin_writer_main, None, None]" None ?s1 8] i
    by (auto simp: as_read_def)
qed

subsection \<open>Many threads\<close>

text \<open>The loop of delay: the microseconds of its udelay calls.\<close>

definition spin_delay :: "int \<Rightarrow> nat list" where
  "spin_delay sec = concat (replicate (nat sec) (replicate 1000 1000))"

datatype spin_pc =
    Outside
  | R_delay msg_st "nat list"
  | R_lock msg_st
  | R_copy msg_st
  | R_clear msg_st
  | R_unlock msg_st
  | W_lock msg_st
  | W_copy msg_st
  | W_unlock
  | Returning

text \<open>
  What happened to the buffer, in order: a thread stored a message of which \<open>u\<close> bytes could
  not be copied, or took the contents into its own buffer.
\<close>

datatype spin_access =
    Stored nat msg_st nat
  | Taken nat msg_st msg_st nat

record spin_threads = spin_mod +
  sp_pc :: "nat \<Rightarrow> spin_pc"
  sp_log :: "spin_access list" \<comment> \<open>ghost\<close>
  sp_got :: "(nat \<times> msg_st) list" \<comment> \<open>ghost: what the finished reads left in the user's memory\<close>

definition sp_goto :: "spin_threads \<Rightarrow> nat \<Rightarrow> spin_pc \<Rightarrow> spin_threads" where
  "sp_goto s i x = s\<lparr>sp_pc := (sp_pc s)(i := x)\<rparr>"

definition spin_start :: "spin_threads \<Rightarrow> bool" where
  "spin_start s \<longleftrightarrow> (\<exists>k tr. simple_spin_init k True = Inr (0, Some (spin_mod.truncate s), tr)) \<and>
     sp_pc s = (\<lambda>_. Outside) \<and> sp_log s = [] \<and> sp_got s = []"

text \<open>
  One step of thread \<open>i\<close> through simple_spin_ioctl, simple_spin_read and simple_spin_write;
  \<open>usr\<close> is the user's structure, \<open>u\<close> the number of bytes a copy leaves out. spin_lock waits
  until the lock is free.
\<close>

inductive spin_step :: "nat \<Rightarrow> nat \<Rightarrow> spin_threads \<Rightarrow> spin_threads \<Rightarrow> bool"
  for n :: nat and i :: nat where
  call_read: "sp_pc s i = Outside \<Longrightarrow> cmd = SIMPLE_SPIN_READ n \<Longrightarrow> msg_ok usr \<Longrightarrow>
    spin_step n i s (sp_goto s i (R_delay usr (spin_delay 5)))"
| udelay: "sp_pc s i = R_delay usr (d # ds) \<Longrightarrow> spin_step n i s (sp_goto s i (R_delay usr ds))"
| delayed: "sp_pc s i = R_delay usr [] \<Longrightarrow> spin_step n i s (sp_goto s i (R_lock usr))"
| read_lock: "sp_pc s i = R_lock usr \<Longrightarrow> \<not> spin_held s \<Longrightarrow>
    spin_step n i s ((sp_goto s i (R_copy usr))\<lparr>spin_held := True\<rparr>)"
| copy_out: "sp_pc s i = R_copy usr \<Longrightarrow>
    spin_step n i s ((sp_goto s i (R_clear (struct_copy usr (kern_buf s) u)))
      \<lparr>sp_log := sp_log s @ [Taken i usr (kern_buf s) u]\<rparr>)"
| memset: "sp_pc s i = R_clear m \<Longrightarrow>
    spin_step n i s ((sp_goto s i (R_unlock m))\<lparr>kern_buf := zero_msg\<rparr>)"
| read_unlock: "sp_pc s i = R_unlock m \<Longrightarrow>
    spin_step n i s ((sp_goto s i Returning)\<lparr>spin_held := False, sp_got := sp_got s @ [(i, m)]\<rparr>)"
| call_write: "sp_pc s i = Outside \<Longrightarrow> cmd = SIMPLE_SPIN_WRITE n \<Longrightarrow> msg_ok usr \<Longrightarrow>
    spin_step n i s (sp_goto s i (W_lock usr))"
| write_lock: "sp_pc s i = W_lock usr \<Longrightarrow> \<not> spin_held s \<Longrightarrow>
    spin_step n i s ((sp_goto s i (W_copy usr))\<lparr>spin_held := True\<rparr>)"
| copy_in: "sp_pc s i = W_copy usr \<Longrightarrow>
    spin_step n i s ((sp_goto s i W_unlock)
      \<lparr>kern_buf := struct_copy zero_msg usr u, sp_log := sp_log s @ [Stored i usr u]\<rparr>)"
| write_unlock: "sp_pc s i = W_unlock \<Longrightarrow>
    spin_step n i s ((sp_goto s i Returning)\<lparr>spin_held := False\<rparr>)"
| unknown: "sp_pc s i = Outside \<Longrightarrow> cmd \<noteq> SIMPLE_SPIN_READ n \<Longrightarrow> cmd \<noteq> SIMPLE_SPIN_WRITE n \<Longrightarrow>
    spin_step n i s (sp_goto s i Returning)"
| return: "sp_pc s i = Returning \<Longrightarrow> spin_step n i s (sp_goto s i Outside)"

inductive_cases spin_stepE: "spin_step n i s t"

definition spin_some :: "nat \<Rightarrow> spin_threads \<Rightarrow> spin_threads \<Rightarrow> bool" where
  "spin_some n s t \<longleftrightarrow> (\<exists>i. spin_step n i s t)"

lemma sp_goto_simps [simp]:
  "kern_buf (sp_goto s i x) = kern_buf s" "spin_held (sp_goto s i x) = spin_held s"
  "sp_pc (sp_goto s i x) = (sp_pc s)(i := x)" "sp_log (sp_goto s i x) = sp_log s"
  "sp_got (sp_goto s i x) = sp_got s"
  by (simp_all add: sp_goto_def)

subsection \<open>The mailbox as specification\<close>

text \<open>
  The contents after a history, and when a history is one of a mailbox: every message taken
  is the contents at that moment.
\<close>

fun box :: "msg_st \<Rightarrow> spin_access list \<Rightarrow> msg_st" where
  "box b [] = b"
| "box b (Stored i m u # l) = box (struct_copy zero_msg m u) l"
| "box b (Taken i usr m u # l) = box zero_msg l"

fun legal :: "msg_st \<Rightarrow> spin_access list \<Rightarrow> bool" where
  "legal b [] = True"
| "legal b (Stored i m u # l) = legal (struct_copy zero_msg m u) l"
| "legal b (Taken i usr m u # l) = (m = b \<and> legal zero_msg l)"

lemma box_append [simp]: "box b (l @ l') = box (box b l) l'"
  by (induction b l rule: box.induct) auto

lemma legal_append [simp]: "legal b (l @ l') \<longleftrightarrow> legal b l \<and> legal (box b l) l'"
  by (induction b l rule: box.induct) auto

text \<open>What the reads of a thread put into its memory, by the history.\<close>

fun takes :: "nat \<Rightarrow> spin_access list \<Rightarrow> msg_st list" where
  "takes i [] = []"
| "takes i (Taken j usr m u # l) = (if j = i then struct_copy usr m u # takes i l else takes i l)"
| "takes i (a # l) = takes i l"

lemma takes_append [simp]: "takes i (l @ l') = takes i l @ takes i l'"
  by (induction i l rule: takes.induct) auto

fun in_transit :: "spin_pc \<Rightarrow> msg_st list" where
  "in_transit (R_clear m) = [m]"
| "in_transit (R_unlock m) = [m]"
| "in_transit _ = []"

definition got_by :: "nat \<Rightarrow> (nat \<times> msg_st) list \<Rightarrow> msg_st list" where
  "got_by i l = map snd (filter (\<lambda>x. fst x = i) l)"

lemma got_by_simps [simp]: "got_by i [] = []" "got_by i (l @ [(j, m)]) = got_by i l @ (if j = i then [m] else [])"
  by (simp_all add: got_by_def)

subsection \<open>The invariant\<close>

fun critical :: "spin_pc \<Rightarrow> bool" where
  "critical (R_copy usr) = True"
| "critical (R_clear m) = True"
| "critical (R_unlock m) = True"
| "critical (W_copy usr) = True"
| "critical W_unlock = True"
| "critical _ = False"

fun clearing :: "spin_pc \<Rightarrow> bool" where
  "clearing (R_clear m) = True"
| "clearing _ = False"

lemma clearing_critical: "clearing x \<Longrightarrow> critical x" by (cases x) auto

definition box_ok :: "msg_st \<Rightarrow> spin_access list \<Rightarrow> (nat \<Rightarrow> spin_pc) \<Rightarrow> bool" where
  "box_ok b l pcs \<longleftrightarrow> legal zero_msg l \<and>
     (if \<exists>i. clearing (pcs i) then box zero_msg l = zero_msg else b = box zero_msg l)"

definition spin_inv :: "spin_threads \<Rightarrow> bool" where
  "spin_inv s \<longleftrightarrow> lock_ok critical (spin_held s) (sp_pc s) \<and> box_ok (kern_buf s) (sp_log s) (sp_pc s) \<and>
     (\<forall>i. takes i (sp_log s) = got_by i (sp_got s) @ in_transit (sp_pc s i))"

lemma box_ok_stay: "box_ok b l pcs \<Longrightarrow> \<not> clearing x \<Longrightarrow> \<not> clearing (pcs i) \<Longrightarrow> box_ok b l (pcs(i := x))"
  unfolding box_ok_def by (metis fun_upd_apply)

text \<open>In its critical section a thread is the only one that may be clearing.\<close>

lemma box_ok_alone:
  assumes "lock_ok critical h pcs" and "critical (pcs i)"
  shows "box_ok b l (pcs(i := x)) \<longleftrightarrow>
      legal zero_msg l \<and> (if clearing x then box zero_msg l = zero_msg else b = box zero_msg l)"
    and "box_ok b l pcs \<longleftrightarrow>
      legal zero_msg l \<and> (if clearing (pcs i) then box zero_msg l = zero_msg else b = box zero_msg l)"
  using lock_ok_alone [OF assms clearing_critical] by (simp_all add: box_ok_def del: fun_upd_apply)

text \<open>A step inside the critical section.\<close>

lemma spin_inv_inside:
  assumes "spin_inv s" and "critical (sp_pc s i)" and "critical x"
    and "legal zero_msg (sp_log s) \<Longrightarrow>
      (if clearing (sp_pc s i) then box zero_msg (sp_log s) = zero_msg else kern_buf s = box zero_msg (sp_log s)) \<Longrightarrow>
      legal zero_msg l \<and> (if clearing x then box zero_msg l = zero_msg else b = box zero_msg l)"
    and "\<And>j. takes j l = got_by j (sp_got s) @ in_transit (((sp_pc s)(i := x)) j)"
  shows "spin_inv ((sp_goto s i x)\<lparr>kern_buf := b, sp_log := l\<rparr>)"
proof -
  have l: "lock_ok critical (spin_held s) (sp_pc s)" using assms(1) by (simp add: spin_inv_def)
  then have "lock_ok critical (spin_held s) ((sp_pc s)(i := x))" using assms(2,3) by (intro lock_ok_stay) simp_all
  moreover have "box_ok b l ((sp_pc s)(i := x))"
    using assms(1,4) unfolding spin_inv_def box_ok_alone [OF l assms(2)] by blast
  ultimately show ?thesis using assms(5) by (simp add: spin_inv_def del: fun_upd_apply)
qed

lemma spin_same [simp]:
  "s\<lparr>kern_buf := kern_buf s, sp_log := l\<rparr> = s\<lparr>sp_log := l\<rparr>" "s\<lparr>kern_buf := b, sp_log := sp_log s\<rparr> = s\<lparr>kern_buf := b\<rparr>"
  for s :: spin_threads
  by (cases s; simp)+

lemma spin_inv_step: "spin_step n i s t \<Longrightarrow> spin_inv s \<Longrightarrow> spin_inv t"
proof (induction rule: spin_step.induct)
  case (copy_out s usr u)
  then have "\<forall>i. takes i (sp_log s) = got_by i (sp_got s) @ in_transit (sp_pc s i)" by (simp add: spin_inv_def)
  with copy_out spin_inv_inside [of s i "R_clear (struct_copy usr (kern_buf s) u)"
      "sp_log s @ [Taken i usr (kern_buf s) u]" "kern_buf s"]
  show ?case by (simp add: sp_goto_def)
next
  case (memset s m)
  then have "\<forall>i. takes i (sp_log s) = got_by i (sp_got s) @ in_transit (sp_pc s i)" by (simp add: spin_inv_def)
  with memset spin_inv_inside [of s i "R_unlock m" "sp_log s" zero_msg]
  show ?case by (simp add: sp_goto_def)
next
  case (copy_in s usr u)
  then have "\<forall>i. takes i (sp_log s) = got_by i (sp_got s) @ in_transit (sp_pc s i)" by (simp add: spin_inv_def)
  with copy_in spin_inv_inside [of s i W_unlock "sp_log s @ [Stored i usr u]" "struct_copy zero_msg usr u"]
  show ?case by simp
next
  case (read_unlock s m)
  then show ?case
    by (auto simp: spin_inv_def intro!: box_ok_stay lock_ok_leave)
next
  case (write_unlock s)
  then show ?case
    by (auto simp: spin_inv_def intro!: box_ok_stay lock_ok_leave)
qed (auto simp: spin_inv_def lock_ok_enter intro!: box_ok_stay lock_ok_stay)

lemma spin_inv_start: "spin_start s \<Longrightarrow> spin_inv s"
  by (auto simp: spin_start_def spin_inv_def lock_ok_def box_ok_def simple_spin_init_def
      bindr_eq_Inr spin_mod.truncate_def split: if_splits)

lemma spin_reachable_inv: "reachable spin_start (spin_some n) s \<Longrightarrow> spin_inv s"
  by (erule reachable_invariant) (auto simp: spin_some_def intro: spin_inv_start spin_inv_step)

text \<open>
  An undisturbed call is the function of the first part: the steps from the lock to the end
  of the call leave the module's state and the user's memory as it says.
\<close>

lemma read_undisturbed:
  assumes "sp_pc s i = R_lock usr" and "\<not> spin_held s"
  shows "\<exists>t m. (spin_step n i)\<^sup>*\<^sup>* s t \<and> sp_pc t i = Returning \<and> sp_got t = sp_got s @ [(i, m)] \<and>
    simple_spin_read usr u (spin_mod.truncate s) = Inr (int u, m, spin_mod.truncate t)"
proof -
  let ?m = "struct_copy usr (kern_buf s) u"
  let ?s1 = "(sp_goto s i (R_copy usr))\<lparr>spin_held := True\<rparr>"
  let ?s2 = "(sp_goto ?s1 i (R_clear ?m))\<lparr>sp_log := sp_log s @ [Taken i usr (kern_buf s) u]\<rparr>"
  let ?s3 = "(sp_goto ?s2 i (R_unlock ?m))\<lparr>kern_buf := zero_msg\<rparr>"
  let ?s4 = "(sp_goto ?s3 i Returning)\<lparr>spin_held := False, sp_got := sp_got s @ [(i, ?m)]\<rparr>"
  have "spin_step n i s ?s1" by (rule read_lock) (use assms in simp_all)
  moreover have "spin_step n i ?s1 ?s2" using copy_out [of ?s1 i usr n u] by simp
  moreover have "spin_step n i ?s2 ?s3" by (rule memset) simp
  moreover have "spin_step n i ?s3 ?s4" using read_unlock [of ?s3 i ?m n] by simp
  ultimately have "(spin_step n i)\<^sup>*\<^sup>* s ?s4" by (meson converse_rtranclp_into_rtranclp rtranclp.rtrancl_refl)
  then show ?thesis
    using assms(2) by (intro exI [of _ ?s4] exI [of _ ?m])
      (simp add: simple_spin_read_def spin_mod.truncate_def sp_goto_def)
qed

lemma write_undisturbed:
  assumes "sp_pc s i = W_lock usr" and "\<not> spin_held s"
  shows "\<exists>t. (spin_step n i)\<^sup>*\<^sup>* s t \<and> sp_pc t i = Returning \<and>
    simple_spin_write usr u (spin_mod.truncate s) = Inr (int u, spin_mod.truncate t)"
proof -
  let ?s1 = "(sp_goto s i (W_copy usr))\<lparr>spin_held := True\<rparr>"
  let ?s2 = "(sp_goto ?s1 i W_unlock)\<lparr>kern_buf := struct_copy zero_msg usr u, sp_log := sp_log s @ [Stored i usr u]\<rparr>"
  let ?s3 = "(sp_goto ?s2 i Returning)\<lparr>spin_held := False\<rparr>"
  have "spin_step n i s ?s1" by (rule write_lock) (use assms in simp_all)
  moreover have "spin_step n i ?s1 ?s2" using copy_in [of ?s1 i usr n u] by simp
  moreover have "spin_step n i ?s2 ?s3" by (rule write_unlock) simp
  ultimately have "(spin_step n i)\<^sup>*\<^sup>* s ?s3" by (meson converse_rtranclp_into_rtranclp rtranclp.rtrancl_refl)
  then show ?thesis
    using assms(2) by (intro exI [of _ ?s3]) (simp add: simple_spin_write_def spin_mod.truncate_def sp_goto_def)
qed

subsection \<open>Every call returns\<close>

fun spin_rank :: "spin_pc \<Rightarrow> nat" where
  "spin_rank Outside = 0"
| "spin_rank Returning = 1"
| "spin_rank (R_unlock m) = 2"
| "spin_rank (R_clear m) = 3"
| "spin_rank (R_copy usr) = 4"
| "spin_rank (R_lock usr) = 5"
| "spin_rank (R_delay usr ds) = 6 + length ds"
| "spin_rank W_unlock = 2"
| "spin_rank (W_copy usr) = 3"
| "spin_rank (W_lock usr) = 4"

lemma spin_rank_0 [simp]: "0 < spin_rank x \<longleftrightarrow> x \<noteq> Outside"
  by (cases x) auto

lemma length_spin_delay [simp]: "length (spin_delay sec) = 1000 * nat sec"
  by (simp add: spin_delay_def length_concat sum_list_replicate del: replicate.simps)

definition spin_live :: "spin_threads \<Rightarrow> bool" where
  "spin_live s \<longleftrightarrow> spin_inv s \<and> finite {i. sp_pc s i \<noteq> Outside} \<and> (\<forall>i. spin_rank (sp_pc s i) \<le> 5006)"

lemma spin_nearer: "spin_step n i s t \<Longrightarrow> sp_pc s i \<noteq> Outside \<Longrightarrow> spin_rank (sp_pc t i) < spin_rank (sp_pc s i)"
  by (auto elim!: spin_stepE)

lemma spin_live_step:
  assumes "spin_step n i s t" and "spin_live s"
  shows "spin_live t"
proof -
  have "finite {i. sp_pc t i \<noteq> Outside}"
    using assms by (auto simp: spin_live_def simp del: fun_upd_apply elim!: spin_stepE)
  moreover have "spin_rank (sp_pc t i) \<le> 5006"
  proof (cases "sp_pc s i = Outside")
    case True
    then show ?thesis using assms(1) by (auto elim!: spin_stepE)
  next
    case False
    moreover have "spin_rank (sp_pc s i) \<le> 5006" using assms(2) by (simp add: spin_live_def)
    ultimately show ?thesis using spin_nearer [OF assms(1)] by simp
  qed
  then have "spin_rank (sp_pc t j) \<le> 5006" for j
    using assms by (cases "j = i") (auto simp: spin_live_def elim!: spin_stepE)
  ultimately show ?thesis using spin_inv_step assms by (auto simp: spin_live_def)
qed

lemma critical_can_move: "critical (sp_pc s j) \<Longrightarrow> \<exists>t. spin_step n j s t"
  by (cases "sp_pc s j") (auto intro: spin_step.intros)

lemma spin_can_move:
  assumes "spin_inv s" and "sp_pc s i \<noteq> Outside"
  shows "\<exists>j t. spin_step n j s t \<and> sp_pc s j \<noteq> Outside"
proof (cases "spin_held s")
  case True
  then obtain j where "critical (sp_pc s j)" using assms(1) by (auto simp: spin_inv_def lock_ok_def)
  then show ?thesis using critical_can_move [of s j n] by force
next
  case free: False
  have "\<exists>t. spin_step n i s t"
  proof (cases "sp_pc s i")
    case (R_delay usr ds)
    then show ?thesis by (cases ds) (blast intro: spin_step.intros)+
  qed (use free assms(2) in \<open>blast intro: spin_step.intros\<close>)+
  then show ?thesis using assms(2) by blast
qed

interpretation spin_calls_in_progress: draining "spin_step n" "\<lambda>s i. spin_rank (sp_pc s i)" spin_live "\<lambda>_. 5006"
proof
  fix s t i j
  assume "spin_live s" "spin_step n i s t"
  then show "0 < spin_rank (sp_pc s i) \<Longrightarrow> spin_live t"
    and "0 < spin_rank (sp_pc s i) \<Longrightarrow> spin_rank (sp_pc t i) < spin_rank (sp_pc s i)"
    using spin_live_step spin_nearer by auto
  show "j \<noteq> i \<Longrightarrow> spin_rank (sp_pc t j) = spin_rank (sp_pc s j)"
    using \<open>spin_step n i s t\<close> by cases auto
next
  fix s i
  assume "spin_live s" "0 < spin_rank (sp_pc s i)"
  then show "\<exists>j t. spin_step n j s t \<and> 0 < spin_rank (sp_pc s j)"
    using spin_can_move [of s i n] by (auto simp: spin_live_def)
qed (simp_all add: spin_live_def)

lemma spin_reachable_live: "reachable spin_start (spin_some n) s \<Longrightarrow> spin_live s"
proof (erule reachable_invariant)
  show "spin_start s \<Longrightarrow> spin_live s" for s
    using spin_inv_start [of s] by (auto simp: spin_live_def spin_start_def)
qed (auto simp: spin_some_def intro: spin_live_step)

subsection \<open>A sample run\<close>

definition spin_zero :: spin_threads where
  "spin_zero = \<lparr>kern_buf = zero_msg, spin_held = False, sp_pc = \<lambda>_. Outside, sp_log = [], sp_got = []\<rparr>"

lemma spin_zero_start: "reachable spin_start (spin_some n) spin_zero"
proof (rule reach_start)
  show "spin_start spin_zero"
    unfolding spin_start_def
    by (intro conjI exI [of _ all_ok])
      (simp_all add: spin_zero_def simple_spin_init_def unchecked_cdev_init_def all_ok_def Let_def spin_mod.truncate_def)
qed

lemma spin_run: "reachable spin_start (spin_some n) s \<Longrightarrow> spin_step n i s t \<Longrightarrow>
    reachable spin_start (spin_some n) t"
  by (rule reach_step, assumption) (auto simp: spin_some_def)

lemma spin_written:
  "\<exists>s. reachable spin_start (spin_some 8) s \<and> spin_held s \<and> sp_pc s 1 = W_unlock \<and> sp_pc s 2 = W_lock zero_msg \<and>
    sp_log s = [Stored 1 simple_spin_writer_main 0]"
proof -
  let ?R = "reachable spin_start (spin_some 8)"
  note step = spin_run [where n = 8]
  have ok: "msg_ok simple_spin_writer_main"
    by (simp add: simple_spin_writer_main_def msg_ok_def Let_def del: replicate.simps)
  have "?R spin_zero" by (rule spin_zero_start)
  then have "?R (sp_goto spin_zero 2 (W_lock zero_msg))" (is "reachable _ _ ?s1")
    by (rule step [where i = 2]) (rule call_write, simp_all add: spin_zero_def)
  then have "?R (sp_goto ?s1 1 (W_lock simple_spin_writer_main))" (is "reachable _ _ ?s2")
    by (rule step [where i = 1]) (rule call_write, simp_all add: spin_zero_def ok)
  then have "?R ((sp_goto ?s2 1 (W_copy simple_spin_writer_main))\<lparr>spin_held := True\<rparr>)" (is "reachable _ _ ?s3")
    by (rule step [where i = 1]) (rule write_lock, simp_all add: spin_zero_def)
  then have "?R ((sp_goto ?s3 1 W_unlock)\<lparr>kern_buf := struct_copy zero_msg simple_spin_writer_main 0,
      sp_log := sp_log ?s3 @ [Stored 1 simple_spin_writer_main 0]\<rparr>)" (is "reachable _ _ ?s4")
    by (rule step [where i = 1]) (rule copy_in, simp_all)
  then show ?thesis by (intro exI [of _ ?s4]) (simp add: spin_zero_def)
qed

subsection \<open>Properties\<close>

text \<open>
  C10. However the threads of simple_spin are interleaved and however much a copy leaves out,
  what they do to the buffer is a history of a one-place mailbox: what a read takes is the
  message stored last if no other read took it, and all zeros otherwise; each thread is
  handed what its own reads took, in order and once (at most one is still in transit); at
  most one thread is in its critical section, and when none is the lock is free and the
  buffer is what the history says.
\<close>

theorem spin_mailbox_history:
  assumes "reachable spin_start (spin_some n) s"
  shows "legal zero_msg (sp_log s) \<and>
    (\<forall>i. takes i (sp_log s) = got_by i (sp_got s) @ in_transit (sp_pc s i)) \<and>
    (\<forall>i j. critical (sp_pc s i) \<and> critical (sp_pc s j) \<longrightarrow> i = j) \<and>
    ((\<forall>i. \<not> critical (sp_pc s i)) \<longleftrightarrow> \<not> spin_held s) \<and>
    (\<not> spin_held s \<longrightarrow> kern_buf s = box zero_msg (sp_log s))"
proof -
  have inv: "spin_inv s" by (rule spin_reachable_inv [OF assms])
  have "kern_buf s = box zero_msg (sp_log s)" if "\<not> spin_held s"
  proof -
    have "\<not> clearing (sp_pc s i)" for i
      using inv that clearing_critical by (auto simp: spin_inv_def lock_ok_def)
    then show ?thesis using inv by (simp add: spin_inv_def box_ok_def)
  qed
  then show ?thesis using inv unfolding spin_inv_def box_ok_def lock_ok_def by blast
qed

theorem spin_mailbox_history_witness:
  "\<exists>s :: spin_threads. sp_pc s 1 = W_unlock \<and> sp_pc s 2 = W_lock zero_msg \<and> spin_held s \<and>
     legal zero_msg (sp_log s) \<and> sp_log s = [Stored 1 simple_spin_writer_main 0] \<and> takes 1 (sp_log s) = got_by 1 (sp_got s)"
proof -
  obtain s where s: "reachable spin_start (spin_some 8) s" "spin_held s" "sp_pc s 1 = W_unlock"
      "sp_pc s 2 = W_lock zero_msg" "sp_log s = [Stored 1 simple_spin_writer_main 0]"
    using spin_written by blast
  from spin_mailbox_history [OF s(1)] have h: "legal zero_msg (sp_log s)"
      "\<forall>i. takes i (sp_log s) = got_by i (sp_got s) @ in_transit (sp_pc s i)"
    by blast+
  then have "takes 1 (sp_log s) = got_by 1 (sp_got s)" using s(3) h(2) [rule_format, of 1] by simp
  then show ?thesis using s h(1) by blast
qed

text \<open>
  C33. No schedule keeps a call of simple_spin from returning: until new calls begin the
  threads inside make at most 5006 steps each (5000 of them the microsecond loop of a read),
  and while one is inside one of those inside can move: whoever waits for the lock waits for
  a thread that can go on.
\<close>

theorem spin_calls_return:
  assumes "reachable spin_start (spin_some n) s"
    and "((\<lambda>s t. \<exists>i. spin_step n i s t \<and> sp_pc s i \<noteq> Outside) ^^ m) s t"
  shows "m \<le> 5006 * card {i. sp_pc s i \<noteq> Outside} \<and>
    ((\<exists>i. sp_pc t i \<noteq> Outside) \<longrightarrow> (\<exists>u i. spin_step n i t u \<and> sp_pc t i \<noteq> Outside))"
  using spin_calls_in_progress.calls_return [of m n s t] spin_reachable_live [OF assms(1)] assms(2) by simp

theorem spin_calls_return_witness:
  "\<exists>s u i. spin_held s \<and> sp_pc s 2 = W_lock zero_msg \<and> spin_step 8 i s u"
proof -
  obtain s where s: "reachable spin_start (spin_some 8) s" "spin_held s" "sp_pc s 2 = W_lock zero_msg"
    using spin_written by blast
  have "((\<lambda>s t. \<exists>i. spin_step 8 i s t \<and> sp_pc s i \<noteq> Outside) ^^ 0) s s" by simp
  from spin_calls_return [OF s(1) this] have
    "(\<exists>i. sp_pc s i \<noteq> Outside) \<longrightarrow> (\<exists>u i. spin_step 8 i s u \<and> sp_pc s i \<noteq> Outside)"
    by (rule conjunct2)
  moreover have "sp_pc s 2 \<noteq> Outside" using s(3) by simp
  ultimately show ?thesis using s(2,3) by blast
qed

end
