(* ===== verification/Team_System.thy ===== *)
theory Team_System
  imports Gate_Server
begin

text \<open>
  The team project as a whole: the driver is loaded, the server runs on it from start to
  end, the driver is unloaded. The contract \<open>led_port\<close> between server and device is used a
  second time, with the driver's variable and the pin of the board in step as what has to
  stay true. Shown: the pin shows the driver's variable and the occupancy at every moment,
  and at the end the lamp is dark and server and kernel have everything back.
\<close>

subsection \<open>The whole of main under the contract\<close>

context led_port begin

lemma server_main_led:
  assumes "server_main wr fd new_ok rc early script server_static d = Some (status, s', d', a)" and "usable d"
  shows "usable d' \<and> (if fd < 0 then d' = d else \<not> lit d')"
proof -
  let ?s = "(if early then handle_signal server_static else server_static)\<lparr>led_fd := fd\<rparr>"
  let ?d = "fst (set_inside_led wr False ?s d)"
  have u: "usable ?d" "0 \<le> fd \<Longrightarrow> \<not> lit ?d" using set_led [OF assms(2), of False ?s] by auto
  show ?thesis
  proof (cases "0 \<le> fd \<and> new_ok \<and> rc = 0")
    case False
    then show ?thesis using assms u by (auto simp: server_main_def Let_def case_prod_beta split: if_splits)
  next
    case True
    then obtain s1 d2 a1 where m: "main_loop wr script ?s ?d = Some (s1, d2, a1)"
      and d': "d' = fst (set_inside_led wr False s1 d2)"
      using assms(1) by (auto simp: server_main_def Let_def case_prod_beta split: if_splits option.splits)
    have "led_in_step usable lit ?s ?d" using u True
      by (simp add: led_in_step_def server_static_def handle_signal_def)
    from main_loop_led [OF m this] have "usable d2" "0 \<le> led_fd s1" by (simp_all add: led_in_step_def)
    then show ?thesis using set_led [of d2 False s1] True d' by simp
  qed
qed

end

subsection \<open>The driver and its pin in step\<close>

definition in_sync :: "int \<Rightarrow> led_dev \<times> int \<Rightarrow> bool" where
  "in_sync g d \<longleftrightarrow> led_gpio (fst d) = g \<and> snd d = led_state (fst d)"

lemma loaded_in_sync:
  "pi2_led_init k s = (0, s1, t1) \<Longrightarrow> in_sync (led_gpio s) (s1, pin_level (led_gpio s) v t1)"
  using led_init_pin [of k s s1 t1 v] by (simp add: in_sync_def)

lemma dark_state: "in_sync g d \<Longrightarrow> led_state (fst d) \<in> {0, 1} \<Longrightarrow> \<not> pin_lit d \<Longrightarrow> led_state (fst d) = 0"
  by (auto simp: in_sync_def pin_lit_def)

text \<open>The driver's variable stays 0 or 1.\<close>

definition binary :: "int \<Rightarrow> led_dev \<times> int \<Rightarrow> bool" where
  "binary g d \<longleftrightarrow> in_sync g d \<and> led_state (fst d) \<in> {0, 1}"

interpretation binary: led_port led_device_write "binary g" pin_lit for g
  by unfold_locales (auto simp: led_device_write_def binary_def in_sync_def pin_lit_def led_write_cases)

subsection \<open>Properties\<close>

text \<open>
  C11. A session of the project gives everything back: when the driver has been loaded, the
  server has run to its end on the loaded driver, by whatever path (the device not opened,
  no client, no broker, or a signal after any messages), and the driver is unloaded, then
  the LED pin is low and the driver's variable 0 before the unload already, the driver still
  drives the pin it requested, the kernel has every resource back once, and so has the
  server's side.
\<close>

theorem team_session_balanced:
  assumes "kernel_ok k" and "pi2_led_init k s = (0, s1, t1)"
    and "server_main led_device_write fd new_ok rc early script server_static
      (s1, pin_level (led_gpio s) v t1) = Some (status, s', (s2, lv), a)"
  shows "lv = 0 \<and> led_state s2 = 0 \<and> led_gpio s2 = led_gpio s \<and>
    ledger {#} (t1 @ snd (pi2_led_exit s2)) = Some {#} \<and> server_ledger {#} a = Some {#}"
proof -
  let ?d = "(s1, pin_level (led_gpio s) v t1)"
  have "binary (led_gpio s) ?d"
    using loaded_in_sync [OF assms(2), of v] led_init_pin [OF assms(2)] by (simp add: binary_def)
  from binary.server_main_led [OF assms(3) this]
  have b: "binary (led_gpio s) (s2, lv)" and e: "if fd < 0 then (s2, lv) = ?d else \<not> pin_lit (s2, lv)"
    by simp_all
  have "led_state s2 = 0"
  proof (cases "fd < 0")
    case True
    then show ?thesis using e led_init_pin [OF assms(2)] by simp
  next
    case False
    then show ?thesis using e b dark_state [of "led_gpio s" "(s2, lv)"] by (simp add: binary_def)
  qed
  moreover have "lv = led_state s2" and g: "led_gpio s2 = led_gpio s"
    using b by (simp_all add: binary_def in_sync_def)
  moreover have "ledger {#} t1 = Some (led_owned s2)"
    using led_init_success [OF assms(1,2)] g by (simp add: led_owned_def)
  then have "ledger {#} (t1 @ snd (pi2_led_exit s2)) = Some {#}"
    using led_exit_returns [of s2] by (simp add: ledger_append prod_eq_iff)
  moreover have "server_ledger {#} a = Some {#}"
    using server_main_balanced [OF assms(3)] .
  ultimately show ?thesis by simp
qed

theorem team_session_balanced_witness:
  "\<exists>s1 t1 s' s2 lv a. pi2_led_init all_ok pi2_led_static = (0, s1, t1) \<and>
     server_main led_device_write 3 True 0 False [([Connected 0, Message enter_message], 0), ([Signal], 7)] server_static
       (s1, pin_level 5 1 t1) = Some (0, s', (s2, lv), a) \<and>
     lv = 0 \<and> ledger {#} (t1 @ snd (pi2_led_exit s2)) = Some {#}"
proof -
  let ?script = "[([Connected 0, Message enter_message], 0), ([Signal], 7)]"
  obtain s1 t1 where i: "pi2_led_init all_ok pi2_led_static = (0, s1, t1)"
    by (auto simp: pi2_led_init_def all_ok_def Let_def)
  have g: "led_gpio pi2_led_static = 5" by (simp add: pi2_led_static_def DEFAULT_LED_GPIO_def)
  let ?d = "(s1, pin_level 5 1 t1)"
  have "main_loop led_device_write ?script (server_static\<lparr>led_fd := 3\<rparr>)
      (fst (set_inside_led led_device_write False (server_static\<lparr>led_fd := 3\<rparr>) ?d)) \<noteq> None"
    by (subst main_loop_returns) simp
  then obtain s' s2 lv a where m:
    "server_main led_device_write 3 True 0 False ?script server_static ?d = Some (0, s', (s2, lv), a)"
    by (fastforce simp: server_main_def Let_def case_prod_beta split: option.splits)
  show ?thesis
    using i m team_session_balanced [OF kernel_ok_all_ok i, of 3 True 0 False ?script 1] by (auto simp: g)
qed

end
