(* ===== verification/User_Programs.thy ===== *)
theory User_Programs
  imports Prelude
begin

text \<open>
  lab13 and lab14: the tracing probe that redirects opens of one file name (ex3) with the
  programs that exercise it, and the programs that ask for a scheduling policy (ex2 FIFO,
  ex3 round robin, ex4 deadline, ex5 extended). System calls are parameters; a program is
  the list of what it does and its exit status.
\<close>

subsection \<open>lab13/ex3: open_modify\<close>

definition target :: string where "target = ''./test.txt''"
definition bypass :: string where "bypass = ''./hack.txt''"

text \<open>
  bpf_probe_read_user_str copies at most 255 bytes and a NUL; the rest of the buffer is
  whatever \<open>junk\<close> it held.
\<close>

definition probe_read_str :: "string \<Rightarrow> char list \<Rightarrow> char list" where
  "probe_read_str name junk = overwrite junk (take 255 name @ [NUL])"

fun names_match :: "nat \<Rightarrow> char list \<Rightarrow> bool" where
  "names_match 0 filename = True"
| "names_match (Suc k) filename = (filename ! (9 - k) = target ! (9 - k) \<and> names_match k filename)"

text \<open>The user's memory from the name on, as the probe leaves it, and what it writes to the trace.\<close>

definition sys_enter_openat :: "char list \<Rightarrow> char list \<Rightarrow> int \<times> char list \<times> string list" where
  "sys_enter_openat junk umem =
     (let filename = probe_read_str (cstring umem) junk in
      if names_match 10 filename
      then (0, overwrite umem (bypass @ [NUL]), [''Redirected openat: '' @ target @ '' -> '' @ bypass @ [NL]])
      else (0, umem, []))"

lemma names_match_take:
  "k \<le> 10 \<Longrightarrow> 10 \<le> length f \<Longrightarrow> names_match k f \<longleftrightarrow> drop (10 - k) (take 10 f) = drop (10 - k) target"
proof (induction k)
  case 0
  then show ?case by (simp add: target_def)
next
  case (Suc k)
  have "drop (10 - Suc k) xs = xs ! (9 - k) # drop (10 - k) xs" if "length xs = 10" for xs :: string
  proof -
    have "10 - k = Suc (9 - k)" "10 - Suc k = 9 - k" using Suc.prems(1) by auto
    then show ?thesis using that by (simp add: Cons_nth_drop_Suc)
  qed
  from this [of target] this [of "take 10 f"] show ?case
    using Suc by (simp add: target_def)
qed

subsection \<open>The programs of lab13\<close>

text \<open>
  What a program does with files, with the results of the calls: an opened name and its
  descriptor, a read of at most so many bytes and its result, a close, a line printed, a
  complaint of perror, a sleep of a second.
\<close>

datatype file_act =
    Opened string int
  | Read int nat int
  | Closed int
  | Printed string
  | Perror string
  | Slept

text \<open>ch12: three rounds that open the program's own source and close it again.\<close>

definition target_app_main :: "(nat \<Rightarrow> int) \<Rightarrow> file_act list" where
  "target_app_main fd =
     Printed (''target_app start'' @ [NL]) #
     concat (map (\<lambda>i. [Opened ''target_app.c'' (fd i),
         Printed (''Iteration '' @ dec_nat i @ '' - fd: '' @ dec_int (fd i) @ [NL]),
         Closed (fd i), Slept]) [0..<3]) @
     [Printed (''target_app end'' @ [NL])]"

text \<open>The program of the same name in lab13: one open and one read, each checked.\<close>

definition target_app_once :: "int \<Rightarrow> int \<Rightarrow> int \<times> file_act list" where
  "target_app_once fd n =
     (let t0 = [Printed (''target_app start'' @ [NL]), Opened ''./target_app.c'' fd] in
      if fd < 0 then (1, t0 @ [Perror ''open''])
      else if n < 0 then (1, t0 @ [Read fd 127 n, Perror ''read'', Closed fd])
      else (0, t0 @ [Read fd 127 n, Printed (''read success: '' @ dec_int n @ '' bytes'' @ [NL]),
                     Closed fd, Printed (''target_app end'' @ [NL])]))"

text \<open>
  The first \<open>k\<close> rounds of the endless loop of read_file: descriptor and contents of each
  round are the system's; the buffer of 100 bytes starts as zeros and the text printed is
  what the read put before the first NUL.
\<close>

definition read_file_rounds :: "nat \<Rightarrow> (nat \<Rightarrow> int) \<Rightarrow> (nat \<Rightarrow> int \<times> char list) \<Rightarrow> file_act list" where
  "read_file_rounds k fd got =
     concat (map (\<lambda>i.
       let (ret, bytes) = got i; buf = overwrite (replicate 100 NUL) (take 8 bytes) in
       [Opened ''./test.txt'' (fd i), Read (fd i) 8 ret,
        Printed (''read '' @ dec_int ret @ '' bytes: '' @ cstring buf @ '' from ./test.txt'' @ [NL]),
        Closed (fd i), Slept]) [0..<k])"

text \<open>Every descriptor that was opened is closed once, in every run.\<close>

fun opens :: "file_act list \<Rightarrow> int list" where
  "opens [] = []"
| "opens (Opened p fd # t) = (if fd < 0 then opens t else fd # opens t)"
| "opens (a # t) = opens t"

fun closes :: "file_act list \<Rightarrow> int list" where
  "closes [] = []"
| "closes (Closed fd # t) = (if fd < 0 then closes t else fd # closes t)"
| "closes (a # t) = closes t"

lemma opens_append [simp]: "opens (a @ b) = opens a @ opens b"
  by (induction a rule: opens.induct) auto

lemma closes_append [simp]: "closes (a @ b) = closes a @ closes b"
  by (induction a rule: closes.induct) auto

lemma target_app_once_closes: "opens (snd (target_app_once fd n)) = closes (snd (target_app_once fd n))"
  by (simp add: target_app_once_def Let_def)

lemma read_file_closes: "opens (read_file_rounds k fd got) = closes (read_file_rounds k fd got)"
  by (induction k) (simp_all add: read_file_rounds_def Let_def split: prod.split)

subsection \<open>lab14: scheduling policies\<close>

definition SCHED_OTHER :: int where "SCHED_OTHER = 0"
definition SCHED_FIFO :: int where "SCHED_FIFO = 1"
definition SCHED_RR :: int where "SCHED_RR = 2"
definition SCHED_DEADLINE :: int where "SCHED_DEADLINE = 6"
definition SCHED_EXT :: int where "SCHED_EXT = 7"

record sched_attr =
  attr_size :: nat
  sched_policy :: int
  sched_flags :: nat
  sched_nice :: int
  sched_priority :: int
  sched_runtime :: nat
  sched_deadline :: nat
  sched_period :: nat

text \<open>
  The system: the process number, that of the first child, whether the affinity and attribute calls succeed, what
  sched_getattr reports, which requests sched_setattr grants, what sched_getscheduler then
  returns, the priority bounds, and what the first and the second fork return. A process
  forked off runs on with the result 0, its parent with the child's number, so a run is one
  process of the tree.
\<close>

record sched_sys =
  my_pid :: int
  child_pid :: int
  affinity_ok :: bool
  getattr :: "sched_attr option"
  grants :: "sched_attr \<Rightarrow> bool"
  getscheduler :: int
  prio_min :: "int \<Rightarrow> int"
  prio_max :: "int \<Rightarrow> int"
  fork_1 :: int
  fork_2 :: int

datatype sched_act =
    Set_affinity nat
  | Set_attr sched_attr
  | Print string
  | Fork int
  | Busy nat \<comment> \<open>milliseconds of the loop of delay\<close>
  | Sleep_secs nat

definition policy_line :: "int \<Rightarrow> string option" where
  "policy_line p =
     (if p = SCHED_OTHER then Some (''Default scheduler is beding used '' @ [NL])
      else if p = SCHED_FIFO then Some (''FIFO scheduler is being used '' @ [NL])
      else if p = SCHED_RR then Some (''Round robin scheduler is being used '' @ [NL])
      else if p = SCHED_DEADLINE then Some (''Deadline scheduler is being used '' @ [NL])
      else if p = SCHED_EXT then Some (''Extended scheduler is being used '' @ [NL])
      else None)"

text \<open>
  The loop of delay for \<open>ms\<close> milliseconds over what clock() returns, in microseconds, from
  the reading \<open>start\<close> on: how many readings it took, None while it runs.
\<close>

fun delay :: "nat \<Rightarrow> int \<Rightarrow> int list \<Rightarrow> nat option" where
  "delay ms start [] = None"
| "delay ms start (c # cs) =
     (if c - start < 1000 * int ms then map_option Suc (delay ms start cs) else Some 1)"

lemma delay_returns: "(\<exists>n. delay ms start cs = Some n) \<longleftrightarrow> (\<exists>c \<in> set cs. 1000 * int ms \<le> c - start)"
  by (induction cs) auto

text \<open>
  The part the four programs share, in the order of their main: \<open>pin\<close> tells whether the
  program sets its affinity, \<open>want\<close> the attributes it asks for; \<open>work\<close> is the example that
  follows, with those attributes.
\<close>

definition sched_start ::
  "bool \<Rightarrow> (sched_sys \<Rightarrow> sched_attr \<Rightarrow> sched_attr) \<Rightarrow>
   (sched_sys \<Rightarrow> sched_attr \<Rightarrow> int \<times> sched_act list) \<Rightarrow> sched_sys \<Rightarrow> int \<times> sched_act list" where
  "sched_start pin want work y =
     (let t1 = (if pin then [Set_affinity 0] else []) in
      if pin \<and> \<not> affinity_ok y then (1, t1 @ [Print (''failed to set affinity'' @ [NL])])
      else case getattr y of
        None \<Rightarrow> (1, t1 @ [Print (''failed to get attr '' @ [NL])])
      | Some a \<Rightarrow>
          let param = want y a;
              t2 = t1 @ [Print (''Process '' @ dec_int (my_pid y) @ '' '' @ [NL]), Set_attr param] in
          if \<not> grants y param then (1, t2 @ [Print (''failed to set attr '' @ [NL])])
          else case policy_line (getscheduler y) of
            None \<Rightarrow> (1, t2 @ [Print (''failed to get scheduler'' @ [NL])])
          | Some line \<Rightarrow>
              let (r, t3) = work y param in (r, t2 @ [Print line] @ t3))"

definition sched_fifo_main :: "sched_sys \<Rightarrow> int \<times> sched_act list" where
  "sched_fifo_main =
     sched_start True (\<lambda>y a. a\<lparr>sched_policy := SCHED_FIFO, sched_priority := prio_min y SCHED_FIFO\<rparr>)
       (\<lambda>y param.
         if fork_1 y = 0 then
           let t = [Fork 0, Print (''Child process '' @ dec_int (child_pid y) @ '' with the high priority '' @ [NL])];
               param = param\<lparr>sched_priority := prio_max y SCHED_FIFO\<rparr> in
           if \<not> grants y param then (1, t @ [Set_attr param, Print (''failed to set parameter '' @ [NL])])
           else (0, t @ [Set_attr param, Sleep_secs 2, Busy 3000])
         else (0, [Fork (fork_1 y), Print (''Parent process '' @ dec_int (my_pid y) @ '' with the low priority '' @ [NL]),
                   Sleep_secs 1, Busy 3000]))"

definition sched_rr_main :: "sched_sys \<Rightarrow> int \<times> sched_act list" where
  "sched_rr_main =
     sched_start True (\<lambda>y a. a\<lparr>sched_policy := SCHED_RR, sched_priority := prio_min y SCHED_RR\<rparr>)
       (\<lambda>y param.
         if fork_1 y \<noteq> 0 then (0, [Fork (fork_1 y), Busy 3000])
         else (0, [Fork 0, Fork (fork_2 y), Busy 3000]))"

definition sched_deadline_main :: "sched_sys \<Rightarrow> int \<times> sched_act list" where
  "sched_deadline_main =
     sched_start False
       (\<lambda>y a. a\<lparr>sched_policy := SCHED_DEADLINE, sched_runtime := 2000000, sched_deadline := 10000000,
          sched_period := 10000000\<rparr>)
       (\<lambda>y param. (0, [Fork (fork_1 y), Busy 100]))"

definition sched_ext_main :: "sched_sys \<Rightarrow> int \<times> sched_act list" where
  "sched_ext_main =
     sched_start True (\<lambda>y a. a\<lparr>sched_policy := SCHED_EXT, sched_nice := - 5\<rparr>)
       (\<lambda>y param.
         if fork_1 y = 0 then
           let param = param\<lparr>sched_nice := 5\<rparr> in
           if \<not> grants y param then (1, [Fork 0, Set_attr param, Print (''failed to set attr '' @ [NL])])
           else (0, [Fork 0, Set_attr param, Busy 2000])
         else (0, [Fork (fork_1 y), Busy 2000]))"

text \<open>
  A process that gets to its busy loop was granted every request it made and has printed
  the policy it runs under; it exits with 0 exactly when it gets there.
\<close>

definition earned :: "sched_sys \<Rightarrow> int \<times> sched_act list \<Rightarrow> bool" where
  "earned y = (\<lambda>(r, tr). (r = 0 \<or> r = 1) \<and> (r = 1 \<longleftrightarrow> (\<forall>d. Busy d \<notin> set tr)) \<and>
     (\<forall>d. Busy d \<in> set tr \<longrightarrow> (\<forall>a. Set_attr a \<in> set tr \<longrightarrow> grants y a) \<and>
       (\<exists>line. policy_line (getscheduler y) = Some line \<and> Print line \<in> set tr)))"

definition work_earned :: "sched_sys \<Rightarrow> int \<times> sched_act list \<Rightarrow> bool" where
  "work_earned y = (\<lambda>(r, tr). (r = 0 \<or> r = 1) \<and> (r = 1 \<longleftrightarrow> (\<forall>d. Busy d \<notin> set tr)) \<and>
     (\<forall>d. Busy d \<in> set tr \<longrightarrow> (\<forall>a. Set_attr a \<in> set tr \<longrightarrow> grants y a)))"

lemma sched_start_stops:
  assumes "pin \<and> \<not> affinity_ok y \<or> getattr y = None"
  shows "\<exists>t. sched_start pin want work y = (1, t) \<and> (\<forall>d. Busy d \<notin> set t)"
  using assms by (cases "pin \<and> \<not> affinity_ok y") (auto simp: sched_start_def)

lemma sched_start_earned:
  assumes "\<And>param. grants y param \<Longrightarrow> work_earned y (work y param)"
  shows "earned y (sched_start pin want work y)"
proof (cases "pin \<and> \<not> affinity_ok y \<or> getattr y = None")
  case True
  then obtain t where "sched_start pin want work y = (1, t)" "\<forall>d. Busy d \<notin> set t"
    using sched_start_stops by blast
  then show ?thesis by (simp add: earned_def)
next
  case False
  then obtain a where a: "getattr y = Some a" and p: "\<not> (pin \<and> \<not> affinity_ok y)" by auto
  obtain r tr where w: "work y (want y a) = (r, tr)" by force
  show ?thesis
  proof (cases "grants y (want y a) \<and> policy_line (getscheduler y) \<noteq> None")
    case True
    then obtain line where l: "policy_line (getscheduler y) = Some line" by auto
    show ?thesis using assms [of "want y a"] w True
      by (auto simp: sched_start_def earned_def work_earned_def Let_def a p l)
  next
    case False
    have "Busy d \<notin> set (snd (sched_start pin want work y)) \<and> fst (sched_start pin want work y) = 1" for d
    proof (cases "grants y (want y a)")
      case True
      with False have "policy_line (getscheduler y) = None" by simp
      then show ?thesis using True p by (simp add: sched_start_def Let_def a)
    next
      case False
      then show ?thesis using p by (simp add: sched_start_def Let_def a)
    qed
    then show ?thesis by (auto simp: earned_def split: prod.split)
  qed
qed

subsection \<open>Properties\<close>

text \<open>
  C29. The unrolled comparison of the probe is a test for a prefix: it redirects an open
  exactly when the first ten characters of the name are the target's, whatever the buffer
  held before and however long the name is, and then writes the other name and its
  terminator over the user's memory and one line to the trace; otherwise it does neither.
\<close>

theorem redirects_prefix:
  assumes "length junk = 256" and "NUL \<notin> set name" and "umem = name @ NUL # rest"
  shows "sys_enter_openat junk umem =
    (if take 10 name = target
     then (0, overwrite umem (bypass @ [NUL]), [''Redirected openat: ./test.txt -> ./hack.txt'' @ [NL]])
     else (0, umem, []))"
proof -
  have n: "cstring umem = name" using assms(2,3) by (simp add: cstring_append_NUL)
  let ?f = "probe_read_str name junk"
  have l: "10 \<le> length ?f" using assms(1) by (simp add: probe_read_str_def overwrite_def)
  have "take 10 ?f = target \<longleftrightarrow> take 10 name = target"
  proof (cases "10 \<le> length name")
    case True
    then show ?thesis by (simp add: probe_read_str_def overwrite_def min_def)
  next
    case False
    then have "?f ! length name = NUL" "length name < 10"
      by (auto simp: probe_read_str_def overwrite_def nth_append)
    moreover have "NUL \<notin> set target" "length target = 10" by (simp_all add: target_def)
    ultimately have "take 10 ?f \<noteq> target" by (metis nth_mem nth_take)
    moreover have "take 10 name \<noteq> target" using False \<open>length target = 10\<close> by auto
    ultimately show ?thesis by simp
  qed
  then show ?thesis
    using names_match_take [of 10 ?f] l by (simp add: sys_enter_openat_def n target_def bypass_def)
qed

theorem redirects_prefix_witness:
  "sys_enter_openat (replicate 256 CHR ''x'') (''./test.txt.old'' @ [NUL]) =
     (0, ''./hack.txt'' @ NUL # ''old'' @ [NUL], [''Redirected openat: ./test.txt -> ./hack.txt'' @ [NL]]) \<and>
   sys_enter_openat (replicate 256 CHR ''x'') (''./test'' @ NUL # ''.txt'') = (0, ''./test'' @ NUL # ''.txt'', [])"
  using redirects_prefix [of "replicate 256 CHR ''x''" "''./test.txt.old''" "''./test.txt.old'' @ [NUL]" "[]"]
    redirects_prefix [of "replicate 256 CHR ''x''" "''./test''" "''./test'' @ NUL # ''.txt''" "''.txt''"]
  by (simp add: target_def bypass_def overwrite_def)

text \<open>
  C39. Each of the four scheduling programs exits with 0 exactly when it gets to its busy
  loop, and with 1 otherwise; a process that gets there was granted every set of attributes
  it asked for, its child's change included, and has printed the policy the system then
  reported, so no work is done under a policy that was refused or not recognised.
\<close>

theorem sched_programs_earned:
  "earned y (sched_fifo_main y) \<and> earned y (sched_rr_main y) \<and>
   earned y (sched_deadline_main y) \<and> earned y (sched_ext_main y)"
  unfolding sched_fifo_main_def sched_rr_main_def sched_deadline_main_def sched_ext_main_def
  by (intro conjI sched_start_earned; simp add: work_earned_def Let_def)

end
