(* ===== verification/Spec2Isabelle.thy ===== *)
theory Spec2Isabelle
  imports Led_Driver Led_Threads Gate_Server Msg_Queue Queue_Threads Block_Queue Block_Counter Rcu Rwlock Stepper
    Pir_Threads Proc_Threads Char_Devices Timers Irq_Threads Work_Threads Small_Modules Spin_Mailbox
    Team_System User_Programs
begin

text \<open>
  A verification library for the Embedded-System repository: the team project (a server that
  counts the people in a room and the driver of the LED it switches) and the kernel modules
  and user programs of the course, lab2 to lab14. Every C file is modelled except the one
  the kernel build generates (lab9/ex2/simple_rcu.mod.c).

  How the parts interact. The server (team/server_pi_app.c) receives entry and exit requests
  over MQTT, keeps a count, answers and publishes the status, and writes to /dev/pi2_led_dev,
  which is the driver (team/pi2_led_driver.c). In the labs a module offers a character
  device or a file in /proc or /sys, and the programs beside it call it; the modules of lab6,
  lab8, lab10 and lab11 are driven by timers and interrupts instead.

  Common ground.
  \<^item> Prelude: results with errors as values (\<open>bindr\<close>), reachability under a step relation,
    C strings in buffers, decimal printing, a C long of \<open>n\<close> bytes (\<open>wrap_long\<close>), ledgers.
  \<^item> Kernel: what the kernel calls return is the parameter \<open>kernel\<close>; a function returns the
    trace of its calls beside its result, so every early return is a shorter trace. What a
    call acquires and releases is \<open>acquires\<close> and \<open>releases\<close>, the documented effect. The
    locale \<open>kmodule\<close> (a module's load, events and unload keep its ledger) is interpreted for
    the LED driver, ch6, ch7 and the modules of lab12. User copies are \<open>copy_from_user\<close> and its
    counterpart; a fault of C (null, double free, use after free, out of bounds, a lock taken
    twice) is a value of \<open>fault\<close>.
  \<^item> Draining: the locale \<open>draining\<close> (a step lowers the rank of the thread that makes it,
    leaves the others', and some thread inside can always move) gives that every call
    returns under every schedule; interpreted for lab4/ex2, lab4/ch3, lab8/ex3, lab8/ch7, both
    modules of lab9, lab12/ch11 and the LED driver.
  \<^item> Settling: the locale \<open>settling\<close>, the same for handlers that sleep until they are woken (a
    wake-up may send every sleeper one step back): only so many steps until new calls begin,
    and at rest everybody inside is asleep; interpreted for lab5/ch4 and both counters.
  \<^item> Simulation: runs labelled with visible events, and the locale \<open>forward_simulation\<close> (a
    relation to a specification kept by every step), which two specifications extend and two modules (lab8/ex3, lab11/ex3) interpret
    directly.
    Register: an atomic register; \<open>register_impl\<close> is interpreted for lab9 and the LED driver,
    \<open>register_current\<close> (a reader shows the current value) for lab9/ex1. Fifo_Spec: an atomic
    queue; \<open>fifo_impl\<close> is interpreted for lab4/ch3 and lab5/ch4.
  \<^item> Locking: a lock is held exactly while one thread is in its critical section; an interrupt
    handler runs one at a time. Holding: what is allocated is what is on a list and what the
    threads hold, each once. Node_Heap: the same for the nodes and messages of a queue, the
    locale \<open>node_holders\<close> interpreted for lab4/ch3 and lab5/ch4.
  \<^item> Ioctl: the command numbers as the macros compute them, at 32 bits; the size \<open>n\<close> of a
    long or pointer is a parameter. The handlers are proved for every \<open>n\<close>.

  The theories and the code.
  \<^item> Led_Driver (team/pi2_led_driver.c): every file operation, load and unload with every
    failure. Shown: it refines a lamp, loading and unloading are balanced, and what goes
    wrong when the parameter is changed at run time. Led_Threads: the same file operations
    step by step in any number of threads, with the mutex and the bytes each writer passed.
    Shown: an atomic register for the last command accepted, read off those bytes, the pin
    following it, every call returns, and alone a call is the function
    of Led_Driver.
  \<^item> Gate_Server (team/server_pi_app.c): every function; the broker's messages and the
    signals are the script of an execution, the library's calls and the lines on the terminal
    are actions of a trace; \<open>early\<close> is a signal that comes after the handlers are installed and
    before the loop.
    Shown: the callbacks refine a gate with at most five inside, the count is the entries
    answered with yes less the exits, the LED follows the count, main returns when told to
    stop, with no round of the loop after an early signal, and closes and frees what it opened;
    each message is followed by a report of the count after it.
  \<^item> Team_System (both files of team/): the driver is loaded, the server runs on it, the driver
    is unloaded. Shown: a whole session leaves nothing acquired and the LED off.
  \<^item> Msg_Store (the message structure, the heap of list nodes), Msg_Queue (lab4/ch3) and
    Block_Queue (lab5/ch4). The heap is explicit and accesses are checked. lab4/ch3 is modelled
    call by call with its programs, and in Queue_Threads, as is lab5/ch4, as a step relation
    with any number of threads, a program counter each, and the structures in user memory that
    they pass. In lab5/ch4 the code under the spin lock is one step, since every other access is
    under the same lock but the test of the wait, a read of one pointer. Shown: first in first
    out whatever the interleaving, each message taken once, what the user's structure holds when
    a read returns and what is lost when the copy fails, no lost wake-up, memory safety, calls
    return, and lab5/ch4 comes to rest with readers waiting only when every message has been taken.
  \<^item> Block_Counter (lab5/ex1, ex2): both handlers as one step relation over the commands each
    module knows; histories of a run count what was produced, reduced and timed out. Shown: the
    counter is what was produced less the reductions, how far below zero it goes, what a wake-up
    reaches, when it comes to rest.
  \<^item> Value_Cell, Rwlock (lab9/ex1), Rcu (lab9/ex2): a published cell replaced by writers.
    The read-write lock is state, the number of readers and the writer, and a waiting thread is
    inside its call. \<open>oom\<close> lets kmalloc fail, \<open>excl\<close> asks for one writer at a time. A grace period ends when
    every section that was open at its start is over. Shown: memory safety, that a reader sees
    one value twice, no leak at unload, that every call returns and every grace period ends,
    that runs are those of an atomic register, and the double free of two writers.
  \<^item> Stepper (lab10/ch9): the sequence of pin settings; a rotor that follows the energised
    coils. Shown: the turn in half steps for every angle, and the overflow from 4194304
    degrees.
  \<^item> Pir_Led (lab8/ch7): handlers, load, unload; time in jiffies, \<open>hz\<close> a second. Shown: lit
    for ten seconds after the last detection. Pir_Threads: the handler, the expired timer's
    function and the unload side by side with the spin lock and the clock. Shown: the pin is
    what the variable says, no LED stays lit without a timer, what an unload leaves, calls
    return, and the two races (an early switch-off, a detection during the unload).
  \<^item> Irq_Modules (lab8/ex1-ex3), Deferred_Work (lab11), Timers (lab6): interrupt lines with
    their disable depth, the work queue with its allocations, the timers as states; in
    Timers a timer that is due runs in that jiffy, where the kernel promises not earlier.
    Irq_Threads (lab8/ex3) and Work_Threads (lab11/ex3): the same handlers step by step, beside
    processes, workers and the unload. Shown: a close prints a snapshot of the detections, each
    piece of work runs once, nothing is left after an unload, closes and the unload end; and
    that a load which got no work queue leaves an unload that dereferences null.
  \<^item> Proc_Files (lab12): buffers of the declared size with checked access; sscanf as the
    sources use it. Shown: ch11 never leaves its buffer, every branch of a write to ex1, what is
    written is read, for inputs that the unbounded \<open>%s\<close> of ex1 and ex2 survives. Proc_Threads: ch11 with readers and
    writers side by side, which take no lock, one character a step. Shown: no access leaves
    the buffer, calls return, and a report can be torn.
  \<^item> Spin_Mailbox (lab4/ex2): the module call by call and as threads that contend for the
    spin lock. Shown: it is a mailbox for one message whatever the interleaving, calls return.
  \<^item> Char_Devices (lab3), Small_Modules (lab2, lab4/ex1), User_Programs (lab13, lab14): the
    remaining devices, printers and programs.

  Bounds and fuel. No definition has fuel. Endless loops of the code (the server's main loop,
  the polling loop of lab6/ex2, the kernel thread of lab11, the busy loop of lab14) run over the list of what the
  outside gives them and are None when it ends first; the properties that they return are
  stated on that. The loop of read_file is modelled by its first rounds.

  Not modelled: what open and release functions print (they return 0), the tables of file
  operations, delays of the modules, the driver's log lines, how the system words an error; processes' memory beyond the buffers passed;
  Makefiles, shell, bpftrace and Python scripts; weak memory ordering (a step of a thread is
  atomic at the granularity written in each step relation).
\<close>

end
